(* ===== verification/Prelude.thy ===== *)
theory Prelude
  imports Main "HOL-Library.Word"
begin

text \<open>
  The shared base of the development: the machine-integer type names, the
  outcome type of a kernel operation, the sequencing combinators that the
  component theories compose their operations with, the three loop shapes of
  the C code (a plain \<^verbatim>\<open>for\<close>, a search loop that stops early, a loop with an
  accumulator), and the rewrite rules that execute them symbolically
  (collection \<open>kexec\<close>).

  A kernel operation of result type \<open>'a\<close> over a state \<open>'s\<close> is a function
  \<open>'s \<Rightarrow> ('a, 's) res\<close>: \<open>Ret\<close> is a normal return, \<open>Panic\<close> a call of
  \<^verbatim>\<open>panic\<close> with its message, \<open>Spin\<close> a spin loop that no other hart ends, and
  \<open>Off\<close> a kernel thread that has given up its CPU in the given state and is
  not scheduled again in the run under consideration. \<open>Undef\<close> is behaviour that C
  leaves undefined, such as a write past the end of an array.
\<close>

unbundle bit_operations_syntax

type_synonym u8 = "8 word"
type_synonym u16 = "16 word"
type_synonym u32 = "32 word"
type_synonym u64 = "64 word"

named_theorems kexec \<open>symbolic execution of kernel operations\<close>

named_theorems upd_order \<open>updates of different fields in the normal order: the hart state last\<close>

section \<open>Outcomes and sequencing\<close>

datatype ('a, 's) res = Ret 'a 's | Panic string | Spin | Off 's | Undef

type_synonym ('s, 'a) kop = "'s \<Rightarrow> ('a, 's) res"

definition ret :: "'a \<Rightarrow> ('s, 'a) kop" where
  "ret x s = Ret x s"

definition bind :: "('s, 'a) kop \<Rightarrow> ('a \<Rightarrow> ('s, 'b) kop) \<Rightarrow> ('s, 'b) kop" where
  "bind m f s =
     (case m s of Ret a t \<Rightarrow> f a t | Panic e \<Rightarrow> Panic e | Spin \<Rightarrow> Spin | Off t \<Rightarrow> Off t
      | Undef \<Rightarrow> Undef)"

definition seq :: "('s, unit) kop \<Rightarrow> ('s, 'b) kop \<Rightarrow> ('s, 'b) kop" where
  "seq m n = bind m (\<lambda>_. n)"

definition panic :: "string \<Rightarrow> ('s, 'a) kop" where
  "panic e s = Panic e"

definition undef :: "('s, 'a) kop" where
  "undef s = Undef"

definition spin :: "('s, 'a) kop" where
  "spin s = Spin"

definition get :: "('s \<Rightarrow> 'a) \<Rightarrow> ('s, 'a) kop" where
  "get f s = Ret (f s) s"

definition modify :: "('s \<Rightarrow> 's) \<Rightarrow> ('s, unit) kop" where
  "modify f s = Ret () (f s)"

definition kwhen :: "bool \<Rightarrow> ('s, unit) kop \<Rightarrow> ('s, unit) kop" where
  "kwhen c m = (if c then m else ret ())"

text \<open>Dereferencing a null pointer faults; the fault reaches \<^verbatim>\<open>kerneltrap\<close>, which panics.\<close>

definition deref :: "'a option \<Rightarrow> ('s, 'a) kop" where
  "deref p = (case p of None \<Rightarrow> panic ''kerneltrap'' | Some x \<Rightarrow> ret x)"

lemma ret_app [simp, kexec]: "ret x s = Ret x s"
  by (simp add: ret_def)

lemma panic_app [simp, kexec]: "panic e s = Panic e"
  by (simp add: panic_def)

lemma undef_app [simp, kexec]: "undef s = Undef"
  by (simp add: undef_def)

lemma spin_app [simp, kexec]: "spin s = Spin"
  by (simp add: spin_def)

lemma get_app [simp, kexec]: "get f s = Ret (f s) s"
  by (simp add: get_def)

lemma modify_app [simp, kexec]: "modify f s = Ret () (f s)"
  by (simp add: modify_def)

lemma kwhen_app [simp, kexec]: "kwhen c m s = (if c then m s else Ret () s)"
  by (simp add: kwhen_def)

lemma deref_Some [simp, kexec]: "deref (Some x) s = Ret x s"
  by (simp add: deref_def)

lemma deref_None [simp, kexec]: "deref None s = Panic ''kerneltrap''"
  by (simp add: deref_def)

text \<open>
  Execution unfolds a sequence to a case distinction on the outcome of its first
  part, which the simplifier evaluates before it looks at the continuation.
\<close>

lemma bind_case [kexec]:
  "bind m f s =
     (case m s of Ret a t \<Rightarrow> f a t | Panic e \<Rightarrow> Panic e | Spin \<Rightarrow> Spin | Off t \<Rightarrow> Off t
      | Undef \<Rightarrow> Undef)"
  by (simp add: bind_def)

lemma seq_case [kexec]:
  "seq m n s =
     (case m s of Ret a t \<Rightarrow> n t | Panic e \<Rightarrow> Panic e | Spin \<Rightarrow> Spin | Off t \<Rightarrow> Off t
      | Undef \<Rightarrow> Undef)"
  by (simp add: seq_def bind_def)

lemma bind_Ret: "m s = Ret a t \<Longrightarrow> bind m f s = f a t"
  by (simp add: bind_def)

lemma bind_Panic: "m s = Panic e \<Longrightarrow> bind m f s = Panic e"
  by (simp add: bind_def)

lemma bind_Spin: "m s = Spin \<Longrightarrow> bind m f s = Spin"
  by (simp add: bind_def)

lemma bind_Off: "m s = Off t \<Longrightarrow> bind m f s = Off t"
  by (simp add: bind_def)

lemma seq_Ret: "m s = Ret () t \<Longrightarrow> seq m n s = n t"
  by (simp add: seq_def bind_def)

lemma seq_Panic: "m s = Panic e \<Longrightarrow> seq m n s = Panic e"
  by (simp add: seq_def bind_def)

lemma seq_Spin: "m s = Spin \<Longrightarrow> seq m n s = Spin"
  by (simp add: seq_def bind_def)

lemma seq_Off: "m s = Off t \<Longrightarrow> seq m n s = Off t"
  by (simp add: seq_def bind_def)

lemma if_app [kexec]: "(if c then m else n) s = (if c then m s else n s)"
  by simp

lemma case_option_app [kexec]:
  "(case x of None \<Rightarrow> m | Some y \<Rightarrow> n y) s = (case x of None \<Rightarrow> m s | Some y \<Rightarrow> n y s)"
  by (cases x) simp_all

lemma case_prod_app [kexec]:
  "(case x of (a, b) \<Rightarrow> m a b) s = (case x of (a, b) \<Rightarrow> m a b s)"
  by (cases x) simp

lemma Let_app [kexec]: "(let x = v in m x) s = (let x = v in m x s)"
  by simp

text \<open>Inversion: a sequence that returns has a first part that returned.\<close>

lemma bind_eq_Ret: "bind m f s = Ret b u \<longleftrightarrow> (\<exists>a t. m s = Ret a t \<and> f a t = Ret b u)"
  by (auto simp: bind_def split: res.splits)

lemma seq_eq_Ret: "seq m n s = Ret b u \<longleftrightarrow> (\<exists>t. m s = Ret () t \<and> n t = Ret b u)"
  by (auto simp: seq_def bind_eq_Ret)

lemma bind_assoc: "bind (bind m f) g = bind m (\<lambda>x. bind (f x) g)"
  by (rule ext) (simp add: bind_def split: res.splits)

section \<open>Loops\<close>

text \<open>\<^verbatim>\<open>for(i in is) body(i);\<close>\<close>

primrec kfor :: "('i \<Rightarrow> ('s, unit) kop) \<Rightarrow> 'i list \<Rightarrow> ('s, unit) kop" where
  "kfor body [] = ret ()"
| "kfor body (i # is) = seq (body i) (kfor body is)"

text \<open>A loop whose body may leave it early with a value (\<^verbatim>\<open>return\<close>, \<^verbatim>\<open>goto found\<close>, \<^verbatim>\<open>break\<close>).\<close>

primrec kfind :: "('i \<Rightarrow> ('s, 'r option) kop) \<Rightarrow> 'i list \<Rightarrow> ('s, 'r option) kop" where
  "kfind body [] = ret None"
| "kfind body (i # is) =
     bind (body i) (\<lambda>r. case r of Some x \<Rightarrow> ret (Some x) | None \<Rightarrow> kfind body is)"

text \<open>A loop that carries local variables from one iteration to the next.\<close>

primrec kfold :: "('i \<Rightarrow> 'a \<Rightarrow> ('s, 'a) kop) \<Rightarrow> 'i list \<Rightarrow> 'a \<Rightarrow> ('s, 'a) kop" where
  "kfold body [] x = ret x"
| "kfold body (i # is) x = bind (body i x) (kfold body is)"

text \<open>
  A loop all of whose iterations return is a fold of their effects. \<open>I\<close> is the loop
  invariant (typically that the locks the body takes are free).
\<close>

lemma kfor_fold:
  assumes "I s"
    and "\<And>i t. i \<in> set is \<Longrightarrow> I t \<Longrightarrow> body i t = Ret () (g i t)"
    and "\<And>i t. i \<in> set is \<Longrightarrow> I t \<Longrightarrow> I (g i t)"
  shows "kfor body is s = Ret () (fold g is s)"
  using assms
proof (induction "is" arbitrary: s)
  case Nil
  then show ?case by simp
next
  case (Cons i "is")
  have "body i s = Ret () (g i s)" using Cons.prems by simp
  moreover have "kfor body is (g i s) = Ret () (fold g is (g i s))"
    by (rule Cons.IH) (use Cons.prems in auto)
  ultimately show ?case by (simp add: seq_Ret)
qed

lemma kfold_fold:
  assumes "I s"
    and "\<And>i x t. i \<in> set is \<Longrightarrow> I t \<Longrightarrow> body i x t = Ret (g i x) t"
  shows "kfold body is x s = Ret (fold g is x) s"
  using assms by (induction "is" arbitrary: x) (simp_all add: bind_Ret)

text \<open>
  A search loop whose unsuccessful iterations leave the state alone stops at the
  first index that satisfies the test.
\<close>

lemma kfind_None:
  assumes "\<And>i. i \<in> set is \<Longrightarrow> body i s = Ret None s"
  shows "kfind body is s = Ret None s"
  using assms by (induction "is") (simp_all add: bind_Ret)

lemma kfind_Some:
  assumes "\<And>i. i \<in> set pre \<Longrightarrow> body i s = Ret None s"
    and "body j s = Ret (Some r) t"
  shows "kfind body (pre @ j # post) s = Ret (Some r) t"
  using assms by (induction pre) (simp_all add: bind_Ret)

lemma kfind_append:
  "kfind body (xs @ ys) s = bind (kfind body xs) (\<lambda>r. case r of Some x \<Rightarrow> ret (Some x) | None \<Rightarrow> kfind body ys) s"
  by (induction xs arbitrary: s) (auto simp: kexec split: res.splits option.splits)

section \<open>First index with a property\<close>

text \<open>The reference meaning of the kernel's first-fit table scans.\<close>

definition first_idx :: "(nat \<Rightarrow> bool) \<Rightarrow> nat \<Rightarrow> nat option" where
  "first_idx P n = List.find P [0..<n]"

lemma first_idx_None: "first_idx P n = None \<longleftrightarrow> (\<forall>i<n. \<not> P i)"
  by (auto simp: first_idx_def find_None_iff)

lemma first_idx_Some:
  "first_idx P n = Some j \<longleftrightarrow> j < n \<and> P j \<and> (\<forall>i<j. \<not> P i)"
proof
  assume "first_idx P n = Some j"
  then obtain k where k: "k < length [0..<n]" "P ([0..<n] ! k)" "j = [0..<n] ! k"
      "\<forall>i<k. \<not> P ([0..<n] ! i)"
    unfolding first_idx_def find_Some_iff by blast
  then have "j = k" by simp
  moreover have "\<forall>i<k. \<not> P i"
  proof (intro allI impI)
    fix i assume "i < k"
    with k have "\<not> P ([0..<n] ! i)" by blast
    with \<open>i < k\<close> k(1) show "\<not> P i" by simp
  qed
  ultimately show "j < n \<and> P j \<and> (\<forall>i<j. \<not> P i)" using k by simp
next
  assume j: "j < n \<and> P j \<and> (\<forall>i<j. \<not> P i)"
  show "first_idx P n = Some j"
    unfolding first_idx_def find_Some_iff
    by (rule exI [of _ j]) (use j in auto)
qed

lemma first_idx_bound: "first_idx P n = Some j \<Longrightarrow> j < n"
  by (simp add: first_idx_Some)

lemma upt_split: "j < n \<Longrightarrow> [0..<n] = [0..<j] @ j # [Suc j..<n]"
  by (metis less_imp_le upt_add_eq_append upt_conv_Cons le_add_diff_inverse zero_le)

lemma kfind_first_idx:
  assumes "\<And>i. i < n \<Longrightarrow> \<not> P i \<Longrightarrow> body i s = Ret None s"
    and "\<And>i. i < n \<Longrightarrow> P i \<Longrightarrow> body i s = Ret (Some (r i)) (g i)"
  shows "kfind body [0..<n] s =
    (case first_idx P n of None \<Rightarrow> Ret None s | Some j \<Rightarrow> Ret (Some (r j)) (g j))"
proof (cases "first_idx P n")
  case None
  then have "\<forall>i<n. \<not> P i" by (simp add: first_idx_None)
  then have "kfind body [0..<n] s = Ret None s"
    by (intro kfind_None) (simp add: assms(1))
  with None show ?thesis by simp
next
  case (Some j)
  then have j: "j < n" "P j" "\<forall>i<j. \<not> P i" by (simp_all add: first_idx_Some)
  have "kfind body ([0..<j] @ j # [Suc j..<n]) s = Ret (Some (r j)) (g j)"
    by (rule kfind_Some) (use j assms in auto)
  with Some j show ?thesis by (simp add: upt_split)
qed

section \<open>Words\<close>

lemma unat_of_nat_small: "n < 2 ^ LENGTH('a) \<Longrightarrow> unat (of_nat n :: 'a::len word) = n"
  by (simp add: unsigned_of_nat take_bit_nat_eq_self)

lemma sint_of_nat_small: "n < 2 ^ 31 \<Longrightarrow> sint (of_nat n :: u32) = int n"
  by (simp add: signed_of_nat signed_take_bit_int_eq_self)

lemma word_offset_eq:
  fixes x d :: "'a::len word"
  assumes "n < 2 ^ LENGTH('a)"
  shows "x = d + of_nat n \<longleftrightarrow> unat (x - d) = n"
proof
  assume "x = d + of_nat n"
  then show "unat (x - d) = n" using assms by (simp add: unat_of_nat_small)
next
  assume "unat (x - d) = n"
  then have "of_nat n = x - d" by auto
  then show "x = d + of_nat n" by simp
qed

lemma unat_diff_Suc:
  fixes x d :: "'a::len word"
  assumes "x \<noteq> d"
  shows "unat (x - d) = Suc (unat (x - (d + 1)))"
proof -
  have "x - d \<noteq> 0" using assms by simp
  then have "unat (x - d - 1) = unat (x - d) - 1" and "unat (x - d) \<noteq> 0"
    by (simp_all add: unat_minus_one unat_eq_zero)
  then show ?thesis by (simp add: algebra_simps)
qed

text \<open>Offsets inside a block that does not run past the end of the address space.\<close>

lemma word_in_block:
  fixes x d :: u64
  assumes "unat d + n \<le> 2 ^ 64"
  shows "unat (x - d) < n \<longleftrightarrow> unat d \<le> unat x \<and> unat x < unat d + n"
  using assms unsigned_less [of x, where 'a = nat] by (auto simp: unat_sub_if')

lemma not_bit_above:
  fixes w :: "'a::len word"
  assumes "unat w < 2 ^ n" "n \<le> i"
  shows "\<not> bit w i"
proof -
  have "unat w < 2 ^ i" using assms by (meson less_le_trans one_le_numeral power_increasing)
  then have "\<not> bit (unat w) i" by (simp add: bit_iff_odd)
  then show ?thesis by (auto simp: bit_unsigned_iff dest: bit_imp_le_length)
qed

end
