(* ===== verification/Locks.thy ===== *)
theory Locks
  imports Prelude
begin

text \<open>
  \<^verbatim>\<open>kernel/spinlock.c\<close>, with \<^verbatim>\<open>cpuid\<close>, \<^verbatim>\<open>mycpu\<close> and \<^verbatim>\<open>myproc\<close> of \<^verbatim>\<open>kernel/proc.c\<close>.

  \<open>harts\<close> holds what the locking code touches: the \<^verbatim>\<open>tp\<close> register of the
  executing hart, the interrupt-enable bit of every hart, the table \<^verbatim>\<open>cpus[]\<close> and
  the spinlocks. It is the first field of \<open>kst\<close>, the root of the kernel state:
  each component theory extends \<open>kst\<close> by its own fields, and every operation is
  typed on the extensible scheme, so that it runs unchanged on any larger state.
  The field \<open>choices\<close> schedules the rest of the system: each time the executing
  thread gives up its CPU it consumes one choice.

  \<open>settled\<close> and \<open>free\<close> are the conditions under which a lock operation neither
  panics nor spins, and \<open>acq\<close>/\<open>rel\<close> are the resulting closed forms; the
  component proofs use only the rules of the collection \<open>lock_rules\<close>.
\<close>

named_theorems lock_rules \<open>closed forms of the lock operations\<close>

section \<open>State\<close>

datatype lock =
    PidLock | WaitLock | PtableLock | ProcLock nat | KmemLock | TicksLock
  | BcacheLock | LogLock | ItableLock | FtableLock | PipeLock u64
  | ConsLock | UartTxLock | VdiskLock | PrLock
  | BufSleepLk nat | InodeSleepLk nat

record spinlock =
  locked :: bool
  lname :: string
  lcpu :: "nat option"

record cpu =
  cproc :: "nat option"
  noff :: int
  intena :: bool

record harts =
  tp :: nat
  sie :: "nat \<Rightarrow> bool"
  cpus :: "nat \<Rightarrow> cpu"
  locks :: "lock \<Rightarrow> spinlock"

record kst =
  hs :: harts
  choices :: "nat list"

section \<open>Operations\<close>

definition cpuid :: "('x kst_scheme, nat) kop" where
  "cpuid = get (\<lambda>s. tp (hs s))"

definition mycpu :: "('x kst_scheme, nat) kop" where
  "mycpu = bind cpuid (\<lambda>id. ret id)"

definition intr_get :: "('x kst_scheme, bool) kop" where
  "intr_get = get (\<lambda>s. sie (hs s) (tp (hs s)))"

definition intr_set :: "bool \<Rightarrow> ('x kst_scheme, unit) kop" where
  "intr_set b = modify (\<lambda>s. s\<lparr>hs := (hs s)\<lparr>sie := (sie (hs s))(tp (hs s) := b)\<rparr>\<rparr>)"

definition intr_off :: "('x kst_scheme, unit) kop" where
  "intr_off = intr_set False"

definition intr_on :: "('x kst_scheme, unit) kop" where
  "intr_on = intr_set True"

definition upd_cpu :: "nat \<Rightarrow> (cpu \<Rightarrow> cpu) \<Rightarrow> ('x kst_scheme, unit) kop" where
  "upd_cpu c f = modify (\<lambda>s. s\<lparr>hs := (hs s)\<lparr>cpus := (cpus (hs s))(c := f (cpus (hs s) c))\<rparr>\<rparr>)"

definition upd_lock :: "lock \<Rightarrow> (spinlock \<Rightarrow> spinlock) \<Rightarrow> ('x kst_scheme, unit) kop" where
  "upd_lock lk f =
     modify (\<lambda>s. s\<lparr>hs := (hs s)\<lparr>locks := (locks (hs s))(lk := f (locks (hs s) lk))\<rparr>\<rparr>)"

definition initlock :: "lock \<Rightarrow> string \<Rightarrow> ('x kst_scheme, unit) kop" where
  "initlock lk nm = upd_lock lk (\<lambda>l. l\<lparr>lname := nm, locked := False, lcpu := None\<rparr>)"

definition push_off :: "('x kst_scheme, unit) kop" where
  "push_off =
     bind intr_get (\<lambda>old.
     seq intr_off (
     bind mycpu (\<lambda>c.
     bind (get (\<lambda>s. noff (cpus (hs s) c))) (\<lambda>n.
     seq (kwhen (n = 0) (upd_cpu c (\<lambda>r. r\<lparr>intena := old\<rparr>)))
         (upd_cpu c (\<lambda>r. r\<lparr>noff := noff r + 1\<rparr>))))))"

definition pop_off :: "('x kst_scheme, unit) kop" where
  "pop_off =
     bind mycpu (\<lambda>c.
     bind intr_get (\<lambda>i.
     seq (kwhen i (panic ''pop_off - interruptible'')) (
     bind (get (\<lambda>s. noff (cpus (hs s) c))) (\<lambda>n.
     seq (kwhen (n < 1) (panic ''pop_off'')) (
     seq (upd_cpu c (\<lambda>r. r\<lparr>noff := noff r - 1\<rparr>)) (
     bind (get (\<lambda>s. cpus (hs s) c)) (\<lambda>r.
     kwhen (noff r = 0 \<and> intena r) intr_on)))))))"

definition holding :: "lock \<Rightarrow> ('x kst_scheme, bool) kop" where
  "holding lk =
     bind mycpu (\<lambda>c.
     get (\<lambda>s. locked (locks (hs s) lk) \<and> lcpu (locks (hs s) lk) = Some c))"

text \<open>
  The spin loop of \<^verbatim>\<open>acquire\<close> leaves with the lock when the atomic swap returns 0;
  with the swap returning 1 and nobody else running it never leaves.
\<close>

definition test_and_set :: "lock \<Rightarrow> ('x kst_scheme, bool) kop" where
  "test_and_set lk =
     bind (get (\<lambda>s. locked (locks (hs s) lk))) (\<lambda>old.
     seq (upd_lock lk (\<lambda>l. l\<lparr>locked := True\<rparr>)) (ret old))"

definition acquire :: "lock \<Rightarrow> ('x kst_scheme, unit) kop" where
  "acquire lk =
     seq push_off (
     bind (holding lk) (\<lambda>h.
     seq (kwhen h (panic ''acquire'')) (
     bind (test_and_set lk) (\<lambda>old.
     seq (kwhen old spin) (
     bind mycpu (\<lambda>c.
     upd_lock lk (\<lambda>l. l\<lparr>lcpu := Some c\<rparr>)))))))"

definition release :: "lock \<Rightarrow> ('x kst_scheme, unit) kop" where
  "release lk =
     bind (holding lk) (\<lambda>h.
     seq (kwhen (\<not> h) (panic ''release'')) (
     seq (upd_lock lk (\<lambda>l. l\<lparr>lcpu := None\<rparr>)) (
     seq (upd_lock lk (\<lambda>l. l\<lparr>locked := False\<rparr>))
     pop_off)))"

definition myproc :: "('x kst_scheme, nat option) kop" where
  "myproc =
     seq push_off (
     bind mycpu (\<lambda>c.
     bind (get (\<lambda>s. cproc (cpus (hs s) c))) (\<lambda>p.
     seq pop_off (ret p))))"

section \<open>Closed forms\<close>

abbreviation this_cpu :: "harts \<Rightarrow> cpu" where
  "this_cpu h \<equiv> cpus h (tp h)"

definition settled :: "harts \<Rightarrow> bool" where
  "settled h \<longleftrightarrow> 0 \<le> noff (this_cpu h) \<and> (0 < noff (this_cpu h) \<longrightarrow> \<not> sie h (tp h)) \<and>
     (noff (this_cpu h) = 0 \<longrightarrow> intena (this_cpu h) = sie h (tp h))"

definition free :: "lock \<Rightarrow> harts \<Rightarrow> bool" where
  "free lk h \<longleftrightarrow> \<not> locked (locks h lk) \<and> lcpu (locks h lk) = None"

definition holds :: "lock \<Rightarrow> harts \<Rightarrow> bool" where
  "holds lk h \<longleftrightarrow> locked (locks h lk) \<and> lcpu (locks h lk) = Some (tp h)"

definition off :: "harts \<Rightarrow> harts" where
  "off h = h\<lparr>sie := (sie h)(tp h := False),
     cpus := (cpus h)(tp h := (this_cpu h)\<lparr>noff := noff (this_cpu h) + 1\<rparr>)\<rparr>"

definition acq :: "lock \<Rightarrow> harts \<Rightarrow> harts" where
  "acq lk h = (off h)\<lparr>locks := (locks h)(lk := (locks h lk)\<lparr>locked := True, lcpu := Some (tp h)\<rparr>)\<rparr>"

definition unlock :: "lock \<Rightarrow> harts \<Rightarrow> harts" where
  "unlock lk h = h\<lparr>locks := (locks h)(lk := (locks h lk)\<lparr>lcpu := None, locked := False\<rparr>)\<rparr>"

definition pop :: "harts \<Rightarrow> harts" where
  "pop h = h\<lparr>cpus := (cpus h)(tp h := (this_cpu h)\<lparr>noff := noff (this_cpu h) - 1\<rparr>),
     sie := (sie h)(tp h := noff (this_cpu h) = 1 \<and> intena (this_cpu h))\<rparr>"

definition rel :: "lock \<Rightarrow> harts \<Rightarrow> harts" where
  "rel lk h = pop (unlock lk h)"

definition nested :: "harts \<Rightarrow> bool" where
  "nested h \<longleftrightarrow> \<not> sie h (tp h) \<and> 1 \<le> noff (this_cpu h)"

definition set_cproc :: "nat option \<Rightarrow> harts \<Rightarrow> harts" where
  "set_cproc p h = h\<lparr>cpus := (cpus h)(tp h := (this_cpu h)\<lparr>cproc := p\<rparr>)\<rparr>"

lemmas lock_defs = settled_def free_def holds_def nested_def off_def acq_def unlock_def pop_def
  rel_def set_cproc_def

lemma fun_upd_same_eq: "f x = y \<Longrightarrow> f(x := y) = f"
  by auto

lemma kst_hs_upd_id: "hs s = h \<Longrightarrow> s\<lparr>hs := h\<rparr> = s"
  by auto

lemma cpu_intena_id: "intena r = b \<Longrightarrow> r\<lparr>intena := b\<rparr> = r"
  by auto

lemma push_off_settled [lock_rules]:
  "settled (hs s) \<Longrightarrow> push_off s = Ret () (s\<lparr>hs := off (hs s)\<rparr>)"
  by (auto simp: push_off_def lock_defs kexec intr_get_def intr_off_def intr_set_def mycpu_def
      cpuid_def upd_cpu_def cpu_intena_id)

lemma pop_off_nested [lock_rules]:
  "nested (hs s) \<Longrightarrow> pop_off s = Ret () (s\<lparr>hs := pop (hs s)\<rparr>)"
  by (auto simp: pop_off_def lock_defs kexec intr_get_def intr_on_def intr_set_def mycpu_def
      cpuid_def upd_cpu_def fun_upd_same_eq)

lemma nested_off [simp]: "settled h \<Longrightarrow> nested (off h)"
  by (simp add: lock_defs)

lemma pop_of_off [simp]: "settled h \<Longrightarrow> pop (off h) = h"
  by (cases h) (auto simp: lock_defs fun_upd_same_eq)

lemma tp_simps [simp]:
  "tp (off h) = tp h" "tp (acq lk h) = tp h" "tp (rel lk h) = tp h" "tp (set_cproc p h) = tp h"
  by (simp_all add: lock_defs)

lemma cproc_simps [simp]:
  "cproc (cpus (off h) c) = cproc (cpus h c)" "cproc (cpus (acq lk h) c) = cproc (cpus h c)"
  "cproc (cpus (rel lk h) c) = cproc (cpus h c)"
  "cproc (this_cpu (set_cproc p h)) = p"
  by (simp_all add: lock_defs)

lemma myproc_settled [lock_rules]:
  "settled (hs s) \<Longrightarrow> myproc s = Ret (cproc (this_cpu (hs s))) s"
  by (simp add: myproc_def kexec lock_rules mycpu_def cpuid_def)

lemma holding_eq: "holding lk s = Ret (holds lk (hs s)) s"
  by (simp add: holding_def mycpu_def cpuid_def kexec holds_def)

lemma off_rules [simp]: "locks (off h) = locks h" "holds lk (off h) = holds lk h"
  by (simp_all add: lock_defs)

lemma free_not_holds: "free lk h \<Longrightarrow> \<not> holds lk h"
  by (simp add: lock_defs)

lemma acquire_free [lock_rules]:
  "settled (hs s) \<Longrightarrow> free lk (hs s) \<Longrightarrow> acquire lk s = Ret () (s\<lparr>hs := acq lk (hs s)\<rparr>)"
  by (simp add: acquire_def kexec lock_rules holding_eq test_and_set_def mycpu_def cpuid_def
      upd_lock_def free_not_holds) (simp add: lock_defs kexec)

lemma acquire_held:
  "settled (hs s) \<Longrightarrow> holds lk (hs s) \<Longrightarrow> acquire lk s = Panic ''acquire''"
  by (simp add: acquire_def kexec lock_rules holding_eq)

lemma acquire_other:
  "settled (hs s) \<Longrightarrow> locked (locks (hs s) lk) \<Longrightarrow> \<not> holds lk (hs s) \<Longrightarrow> acquire lk s = Spin"
  by (simp add: acquire_def kexec lock_rules holding_eq test_and_set_def upd_lock_def)

lemma release_held [lock_rules]:
  assumes "holds lk (hs s)" "nested (hs s)"
  shows "release lk s = Ret () (s\<lparr>hs := rel lk (hs s)\<rparr>)"
proof -
  have n: "nested (unlock lk (hs s))" using assms by (simp add: lock_defs)
  have "release lk s = pop_off (s\<lparr>hs := unlock lk (hs s)\<rparr>)"
    using assms by (simp add: release_def kexec holding_eq upd_lock_def unlock_def)
  then show ?thesis by (simp add: pop_off_nested n rel_def)
qed

lemma release_not_held: "\<not> holds lk (hs s) \<Longrightarrow> release lk s = Panic ''release''"
  by (simp add: release_def kexec holding_eq)

section \<open>Algebra of the closed forms\<close>

lemma holds_acq [simp]: "holds lk (acq lk h)"
  by (simp add: lock_defs)

lemma holds_acq_other [simp]: "lk' \<noteq> lk \<Longrightarrow> holds lk' (acq lk h) = holds lk' h"
  by (simp add: lock_defs)

lemma free_acq_other [simp]: "lk' \<noteq> lk \<Longrightarrow> free lk' (acq lk h) = free lk' h"
  by (simp add: lock_defs)

lemma not_free_acq [simp]: "\<not> free lk (acq lk h)"
  by (simp add: lock_defs)

lemma nested_acq [simp]: "settled h \<Longrightarrow> nested (acq lk h)"
  by (simp add: lock_defs)

lemma settled_acq [simp]: "settled h \<Longrightarrow> settled (acq lk h)"
  by (simp add: lock_defs)

lemma nested_settled: "nested h \<Longrightarrow> settled h"
  by (simp add: lock_defs)

lemma settled_rel [simp]: "nested h \<Longrightarrow> settled (rel lk h)"
  by (simp add: lock_defs)

lemma free_rel [simp]: "free lk (rel lk h)"
  by (simp add: lock_defs)

lemma free_rel_other [simp]: "lk' \<noteq> lk \<Longrightarrow> free lk' (rel lk h) = free lk' h"
  by (simp add: lock_defs)

lemma holds_rel_other [simp]: "lk' \<noteq> lk \<Longrightarrow> holds lk' (rel lk h) = holds lk' h"
  by (simp add: lock_defs)

lemma rel_acq [simp]: "settled h \<Longrightarrow> free lk h \<Longrightarrow> rel lk (acq lk h) = h"
  by (cases h) (auto simp: lock_defs fun_upd_same_eq)

text \<open>Locks need not be released in the reverse order of acquisition.\<close>

lemma rel_acq_swap: "lk \<noteq> lk' \<Longrightarrow> nested h \<Longrightarrow> rel lk (acq lk' h) = acq lk' (rel lk h)"
  by (cases h) (auto simp: lock_defs fun_eq_iff)

lemma acq_rel: "nested h \<Longrightarrow> holds lk h \<Longrightarrow> noff (this_cpu h) \<noteq> 1 \<or> intena (this_cpu h) = False \<Longrightarrow>
   acq lk (rel lk h) = h"
  by (cases h) (auto simp: lock_defs fun_eq_iff)

lemma set_cproc_rules [simp]:
  "settled (set_cproc p h) = settled h" "free lk (set_cproc p h) = free lk h"
  "holds lk (set_cproc p h) = holds lk h" "nested (set_cproc p h) = nested h"
  "set_cproc p (set_cproc q h) = set_cproc p h"
  by (simp_all add: lock_defs)

lemma cpu_commute: "r\<lparr>cproc := p, noff := n\<rparr> = r\<lparr>noff := n, cproc := p\<rparr>"
  by (cases r) simp

lemma set_cproc_acq: "acq lk (set_cproc p h) = set_cproc p (acq lk h)"
  by (cases h) (simp add: lock_defs cpu_commute)

lemma rel_set_cproc: "rel lk (set_cproc p h) = set_cproc p (rel lk h)"
  by (cases h) (simp add: lock_defs cpu_commute)

lemma rel_set_cproc_acq [simp]:
  "settled h \<Longrightarrow> free lk h \<Longrightarrow> rel lk (set_cproc p (acq lk h)) = set_cproc p h"
  by (simp add: rel_set_cproc)

lemma set_cproc_id [simp]: "cproc (this_cpu h) = p \<Longrightarrow> set_cproc p h = h"
  by (cases h) (auto simp: lock_defs)

section \<open>A hart at rest\<close>

text \<open>Hart 0 with interrupts on, no process, and every lock free: the base of the examples.\<close>

definition harts0 :: harts where
  "harts0 = \<lparr>tp = 0, sie = (\<lambda>_. True), cpus = (\<lambda>_. \<lparr>cproc = None, noff = 0, intena = True\<rparr>),
     locks = (\<lambda>_. \<lparr>locked = False, lname = [], lcpu = None\<rparr>)\<rparr>"

lemma harts0_rules [simp]: "settled harts0" "free lk harts0" "tp harts0 = 0"
  "cproc (cpus harts0 c) = None"
  by (simp_all add: lock_defs harts0_def)

end
