(* ===== verification/Printf.thy ===== *)
theory Printf
  imports Locks
begin

text \<open>
  \<^verbatim>\<open>kernel/printf.c\<close>, with \<^verbatim>\<open>consputc\<close> of \<^verbatim>\<open>kernel/console.c\<close> and the polling output
  path \<^verbatim>\<open>uartputc_sync\<close> of \<^verbatim>\<open>kernel/uart.c\<close>.

  The UART is a device outside the program: \<open>lsr_tx\<close> lists its answers to the next
  reads of the transmitter-idle bit (it is idle once the list is used up), \<open>rx\<close> the
  received bytes waiting in its holding register and FIFO, and \<open>txlog\<close> the bytes
  written to THR, oldest first. A variadic argument is either a 64-bit slot or a
  string pointer; reading one as the other is undefined.
\<close>

section \<open>State\<close>

record uart_st = kst +
  lsr_tx :: "bool list"
  rx :: "u8 list"
  txlog :: "u8 list"
  panicked :: bool
  pr_locking :: bool

datatype parg = PVal u64 | PStr "u8 list option"

abbreviation chr :: "char \<Rightarrow> u8" where
  "chr \<equiv> of_char"

abbreviation cstr :: "string \<Rightarrow> u8 list" where
  "cstr s \<equiv> map of_char s"

section \<open>Output of one character\<close>

definition WriteTHR :: "u8 \<Rightarrow> ('x uart_st_scheme, unit) kop" where
  "WriteTHR c = modify (\<lambda>s. s\<lparr>txlog := txlog s @ [c]\<rparr>)"

definition ReadLSR_tx_idle :: "('x uart_st_scheme, bool) kop" where
  "ReadLSR_tx_idle s =
     (case lsr_tx s of [] \<Rightarrow> Ret True s | b # bs \<Rightarrow> Ret b (s\<lparr>lsr_tx := bs\<rparr>))"

text \<open>\<^verbatim>\<open>while((ReadReg(LSR) & LSR_TX_IDLE) == 0) ;\<close> drops the answers up to the first idle one.\<close>

definition wait_tx_idle :: "('x uart_st_scheme, unit) kop" where
  "wait_tx_idle = modify (\<lambda>s. s\<lparr>lsr_tx := tl (dropWhile Not (lsr_tx s))\<rparr>)"

definition uartputc_sync :: "u8 \<Rightarrow> ('x uart_st_scheme, unit) kop" where
  "uartputc_sync c =
     seq push_off (
     bind (get panicked) (\<lambda>p.
     seq (kwhen p spin) (
     seq wait_tx_idle (
     seq (WriteTHR c)
     pop_off))))"

definition BACKSPACE :: u32 where
  "BACKSPACE = 0x100"

definition consputc :: "u32 \<Rightarrow> ('x uart_st_scheme, unit) kop" where
  "consputc c =
     (if c = BACKSPACE
      then seq (uartputc_sync 8) (seq (uartputc_sync 32) (uartputc_sync 8))
      else uartputc_sync (ucast c))"

section \<open>Numbers\<close>

definition digits :: "nat \<Rightarrow> u8" where
  "digits d = chr (''0123456789abcdef'' ! d)"

text \<open>
  The \<^verbatim>\<open>do ... while\<close> loop of \<^verbatim>\<open>printint\<close>: the contents of \<^verbatim>\<open>buf\<close>, least significant
  digit first. It is only entered with a base of at least 2.
\<close>

function int_digits :: "nat \<Rightarrow> nat \<Rightarrow> u8 list" where
  "int_digits b n =
     digits (n mod b) # (if n div b = 0 \<or> b < 2 then [] else int_digits b (n div b))"
  by pat_completeness auto
termination
  by (relation "measure snd") (auto intro!: div_less_dividend intro: gr0I)

declare int_digits.simps [simp del]

definition printint_buf :: "u64 \<Rightarrow> nat \<Rightarrow> bool \<Rightarrow> u8 list" where
  "printint_buf xx base sign =
     (let neg = sign \<and> sint xx < 0;
          x = (if neg then - xx else xx)
      in int_digits base (unat x) @ (if neg then [chr CHR ''-''] else []))"

text \<open>\<^verbatim>\<open>char buf[16]\<close> is not checked: a longer number is written past its end.\<close>

definition printint :: "u64 \<Rightarrow> nat \<Rightarrow> bool \<Rightarrow> ('x uart_st_scheme, unit) kop" where
  "printint xx base sign =
     (if base < 2 then spin
      else let buf = printint_buf xx base sign in
        if 16 < length buf then undef
        else kfor (\<lambda>c. consputc (ucast c)) (rev buf))"

primrec ptr_digits :: "u64 \<Rightarrow> nat \<Rightarrow> u8 list" where
  "ptr_digits x 0 = []"
| "ptr_digits x (Suc k) = digits (unat (drop_bit 60 x)) # ptr_digits (push_bit 4 x) k"

definition printptr :: "u64 \<Rightarrow> ('x uart_st_scheme, unit) kop" where
  "printptr x =
     seq (consputc (ucast (chr CHR ''0''))) (
     seq (consputc (ucast (chr CHR ''x'')))
     (kfor (\<lambda>c. consputc (ucast c)) (ptr_digits x 16)))"

section \<open>printf\<close>

definition fmt_at :: "string \<Rightarrow> nat \<Rightarrow> char" where
  "fmt_at fmt i = (if i < length fmt then fmt ! i else CHR 0x00)"

definition va_long :: "parg list \<Rightarrow> (u64 \<Rightarrow> ('s, unit) kop) \<Rightarrow> ('s, unit) kop" where
  "va_long ap k = (case ap of PVal v # _ \<Rightarrow> k v | _ \<Rightarrow> undef)"

definition va_int :: "parg list \<Rightarrow> (u64 \<Rightarrow> ('s, unit) kop) \<Rightarrow> ('s, unit) kop" where
  "va_int ap k = va_long ap (\<lambda>v. k (scast (ucast v :: u32)))"

definition va_str :: "parg list \<Rightarrow> (u8 list option \<Rightarrow> ('s, unit) kop) \<Rightarrow> ('s, unit) kop" where
  "va_str ap k = (case ap of PStr v # _ \<Rightarrow> k v | _ \<Rightarrow> undef)"

text \<open>The action of one conversion, and how many characters and arguments it takes.\<close>

datatype conv = ConvInt nat bool | ConvLong nat bool nat | ConvPtr | ConvStr | ConvPct | ConvEnd | ConvUnknown

definition conversion :: "char \<Rightarrow> char \<Rightarrow> char \<Rightarrow> conv" where
  "conversion c0 c1 c2 =
     (if c0 = CHR ''d'' then ConvInt 10 True
      else if c0 = CHR ''l'' \<and> c1 = CHR ''d'' then ConvLong 10 True 1
      else if c0 = CHR ''l'' \<and> c1 = CHR ''l'' \<and> c2 = CHR ''d'' then ConvLong 10 True 2
      else if c0 = CHR ''u'' then ConvInt 10 False
      else if c0 = CHR ''l'' \<and> c1 = CHR ''u'' then ConvLong 10 False 1
      else if c0 = CHR ''l'' \<and> c1 = CHR ''l'' \<and> c2 = CHR ''u'' then ConvLong 10 False 2
      else if c0 = CHR ''x'' then ConvInt 16 False
      else if c0 = CHR ''l'' \<and> c1 = CHR ''x'' then ConvLong 16 False 1
      else if c0 = CHR ''l'' \<and> c1 = CHR ''l'' \<and> c2 = CHR ''x'' then ConvLong 16 False 2
      else if c0 = CHR ''p'' then ConvPtr
      else if c0 = CHR ''s'' then ConvStr
      else if c0 = CHR ''%'' then ConvPct
      else if c0 = CHR 0x00 then ConvEnd
      else ConvUnknown)"

definition print_string :: "u8 list \<Rightarrow> ('x uart_st_scheme, unit) kop" where
  "print_string s = kfor (\<lambda>c. consputc (ucast c)) s"

function vprintf :: "string \<Rightarrow> parg list \<Rightarrow> ('x uart_st_scheme, unit) kop" where
  "vprintf [] ap = ret ()"
| "vprintf (cx # rest) ap =
     (if cx = CHR 0x00 then ret ()
      else if cx \<noteq> CHR ''%'' then seq (consputc (ucast (chr cx))) (vprintf rest ap)
      else
        let c0 = fmt_at rest 0;
            c1 = (if c0 \<noteq> CHR 0x00 then fmt_at rest 1 else CHR 0x00);
            c2 = (if c1 \<noteq> CHR 0x00 then fmt_at rest 2 else CHR 0x00)
        in case conversion c0 c1 c2 of
             ConvInt b sg \<Rightarrow>
               seq (va_int ap (\<lambda>v. printint v b sg)) (vprintf (drop 1 rest) (drop 1 ap))
           | ConvLong b sg k \<Rightarrow>
               seq (va_long ap (\<lambda>v. printint v b sg)) (vprintf (drop (1 + k) rest) (drop 1 ap))
           | ConvPtr \<Rightarrow> seq (va_long ap printptr) (vprintf (drop 1 rest) (drop 1 ap))
           | ConvStr \<Rightarrow>
               seq (va_str ap (\<lambda>s. print_string (case s of None \<Rightarrow> cstr ''(null)'' | Some cs \<Rightarrow> cs)))
                 (vprintf (drop 1 rest) (drop 1 ap))
           | ConvPct \<Rightarrow> seq (consputc (ucast (chr CHR ''%''))) (vprintf (drop 1 rest) ap)
           | ConvEnd \<Rightarrow> ret ()
           | ConvUnknown \<Rightarrow>
               seq (consputc (ucast (chr CHR ''%''))) (
               seq (consputc (ucast (chr c0))) (vprintf (drop 1 rest) ap)))"
  by pat_completeness auto
termination
  by (relation "measure (\<lambda>(fmt, ap). length fmt)") auto

declare vprintf.simps [simp del]

definition printf :: "string \<Rightarrow> parg list \<Rightarrow> ('x uart_st_scheme, unit) kop" where
  "printf fmt ap =
     bind (get pr_locking) (\<lambda>locking.
     seq (kwhen locking (acquire PrLock)) (
     seq (vprintf fmt ap)
     (kwhen locking (release PrLock))))"

definition printfinit :: "('x uart_st_scheme, unit) kop" where
  "printfinit = seq (initlock PrLock ''pr'') (modify (\<lambda>s. s\<lparr>pr_locking := True\<rparr>))"

text \<open>What \<^verbatim>\<open>panic\<close> does before its endless loop. An operation that panics has the outcome \<open>Panic\<close>, which stands for
  this and the loop.\<close>

definition panic_message :: "u8 list \<Rightarrow> ('x uart_st_scheme, unit) kop" where
  "panic_message msg =
     seq (modify (\<lambda>s. s\<lparr>pr_locking := False\<rparr>)) (
     seq (printf ''panic: '' []) (
     seq (printf (''%s'' @ [CHR 0x0A]) [PStr (Some msg)])
     (modify (\<lambda>s. s\<lparr>panicked := True\<rparr>))))"

section \<open>What is printed\<close>

text \<open>\<open>emit cs\<close> is the state after the bytes \<open>cs\<close> have been sent, one wait for each.\<close>

definition emit :: "u8 list \<Rightarrow> 'x uart_st_scheme \<Rightarrow> 'x uart_st_scheme" where
  "emit cs s = s\<lparr>lsr_tx := ((\<lambda>l. tl (dropWhile Not l)) ^^ length cs) (lsr_tx s), txlog := txlog s @ cs\<rparr>"

definition can_print :: "'x uart_st_scheme \<Rightarrow> bool" where
  "can_print s \<longleftrightarrow> settled (hs s) \<and> \<not> panicked s"

lemma emit_Nil [simp]: "emit [] s = s"
  by (simp add: emit_def)

lemma emit_append: "emit (cs @ ds) s = emit ds (emit cs s)"
  by (simp add: emit_def funpow_add add.commute [of "length cs"])

lemma emit_fields [simp]:
  "hs (emit cs s) = hs s" "choices (emit cs s) = choices s" "panicked (emit cs s) = panicked s"
  "pr_locking (emit cs s) = pr_locking s" "txlog (emit cs s) = txlog s @ cs" "rx (emit cs s) = rx s"
  by (simp_all add: emit_def)

lemma emit_hs [simp]: "emit cs (s\<lparr>hs := h\<rparr>) = (emit cs s)\<lparr>hs := h\<rparr>"
  by (simp add: emit_def)

lemma can_print_emit [simp]: "can_print (emit cs s) = can_print s"
  by (simp add: can_print_def)

lemma uartputc_sync_emit [simp]:
  "can_print s \<Longrightarrow> uartputc_sync c s = Ret () (emit [c] s)"
  by (simp add: uartputc_sync_def can_print_def kexec lock_rules wait_tx_idle_def WriteTHR_def
      emit_def)

lemma consputc_byte [simp]: "consputc (ucast (c :: u8)) = uartputc_sync c"
proof -
  have "uint (ucast c :: u32) < 2 ^ 8"
    using uint_lt2p [of c] by (simp add: uint_up_ucast is_up)
  then have "ucast c \<noteq> BACKSPACE" by (auto simp: BACKSPACE_def)
  moreover have "ucast (ucast c :: u32) = c"
    by (rule bit_word_eqI) (auto simp: bit_simps)
  ultimately show ?thesis by (simp add: consputc_def fun_eq_iff)
qed

lemma consputc_lit: "consputc 37 = uartputc_sync 37" "consputc 48 = uartputc_sync 48" "consputc 120 = uartputc_sync 120"
  by (simp_all add: consputc_def BACKSPACE_def fun_eq_iff)

lemma kfor_uartputc_sync [simp]:
  "can_print s \<Longrightarrow> kfor uartputc_sync cs s = Ret () (emit cs s)"
proof (induction cs arbitrary: s)
  case (Cons c cs)
  then show ?case using emit_append [of "[c]" cs s] by (simp add: kexec)
qed simp

text \<open>The formatter as a function from the format and its arguments to the bytes printed.\<close>

definition int_chars :: "u64 \<Rightarrow> nat \<Rightarrow> bool \<Rightarrow> u8 list option" where
  "int_chars v b sg =
     (let buf = printint_buf v b sg in if 16 < length buf then None else Some (rev buf))"

definition conv_chars :: "conv \<Rightarrow> char \<Rightarrow> parg list \<Rightarrow> u8 list option" where
  "conv_chars cv c0 ap = (case cv of
       ConvInt b sg \<Rightarrow>
         (case ap of PVal v # _ \<Rightarrow> int_chars (scast (ucast v :: u32)) b sg | _ \<Rightarrow> None)
     | ConvLong b sg k \<Rightarrow> (case ap of PVal v # _ \<Rightarrow> int_chars v b sg | _ \<Rightarrow> None)
     | ConvPtr \<Rightarrow> (case ap of PVal v # _ \<Rightarrow> Some (cstr ''0x'' @ ptr_digits v 16) | _ \<Rightarrow> None)
     | ConvStr \<Rightarrow> (case ap of PStr v # _ \<Rightarrow>
           Some (case v of None \<Rightarrow> cstr ''(null)'' | Some cs \<Rightarrow> cs) | _ \<Rightarrow> None)
     | ConvPct \<Rightarrow> Some [chr CHR ''%'']
     | ConvEnd \<Rightarrow> Some []
     | ConvUnknown \<Rightarrow> Some [chr CHR ''%'', chr c0])"

definition conv_skip :: "conv \<Rightarrow> nat" where
  "conv_skip cv = (case cv of ConvLong b sg k \<Rightarrow> 1 + k | _ \<Rightarrow> 1)"

definition conv_args :: "conv \<Rightarrow> nat" where
  "conv_args cv = (case cv of ConvPct \<Rightarrow> 0 | ConvEnd \<Rightarrow> 0 | ConvUnknown \<Rightarrow> 0 | _ \<Rightarrow> 1)"

definition conv_of :: "string \<Rightarrow> conv" where
  "conv_of rest =
     (let c0 = fmt_at rest 0;
          c1 = (if c0 \<noteq> CHR 0x00 then fmt_at rest 1 else CHR 0x00);
          c2 = (if c1 \<noteq> CHR 0x00 then fmt_at rest 2 else CHR 0x00)
      in conversion c0 c1 c2)"

function fmt_chars :: "string \<Rightarrow> parg list \<Rightarrow> u8 list option" where
  "fmt_chars [] ap = Some []"
| "fmt_chars (cx # rest) ap =
     (if cx = CHR 0x00 then Some []
      else if cx \<noteq> CHR ''%'' then map_option ((#) (chr cx)) (fmt_chars rest ap)
      else let cv = conv_of rest in
        if cv = ConvEnd then Some []
        else case conv_chars cv (fmt_at rest 0) ap of
               None \<Rightarrow> None
             | Some cs \<Rightarrow>
                 map_option ((@) cs) (fmt_chars (drop (conv_skip cv) rest) (drop (conv_args cv) ap)))"
  by pat_completeness auto
termination
  by (relation "measure (\<lambda>(fmt, ap). length fmt)") auto

declare fmt_chars.simps [simp del]

definition prints :: "u8 list option \<Rightarrow> 'x uart_st_scheme \<Rightarrow> (unit, 'x uart_st_scheme) res" where
  "prints co s = (case co of None \<Rightarrow> Undef | Some cs \<Rightarrow> Ret () (emit cs s))"

lemma seq_prints:
  assumes "m s = prints co s" and "\<And>cs. co = Some cs \<Longrightarrow> n (emit cs s) = prints do (emit cs s)"
  shows "seq m n s = prints (case co of None \<Rightarrow> None | Some cs \<Rightarrow> map_option ((@) cs) do) s"
  using assms by (auto simp: kexec prints_def emit_append split: option.splits)

lemma printint_prints:
  "can_print s \<Longrightarrow> 2 \<le> b \<Longrightarrow> printint v b sg s = prints (int_chars v b sg) s"
  by (simp add: printint_def int_chars_def prints_def Let_def)

lemma conversion_base: "conversion c0 c1 c2 = ConvInt b sg \<or> conversion c0 c1 c2 = ConvLong b sg k \<Longrightarrow> 2 \<le> b"
  by (auto simp: conversion_def split: if_splits)

lemma va_long_prints:
  "(\<And>v. k v s = prints (g v) s) \<Longrightarrow>
   va_long ap k s = prints (case ap of PVal v # _ \<Rightarrow> g v | _ \<Rightarrow> None) s"
  by (auto simp: va_long_def prints_def split: list.splits parg.splits)

lemma va_str_prints:
  "(\<And>v. k v s = prints (g v) s) \<Longrightarrow>
   va_str ap k s = prints (case ap of PStr v # _ \<Rightarrow> g v | _ \<Rightarrow> None) s"
  by (auto simp: va_str_def prints_def split: list.splits parg.splits)

lemma consputc_prints:
  "can_print s \<Longrightarrow> consputc (ucast (c :: u8)) s = prints (Some [c]) s"
  by (simp add: prints_def)

lemma seq_assoc: "seq (seq a b) c = seq a (seq b c)"
  by (simp add: seq_def bind_assoc)

text \<open>One conversion prints \<open>conv_chars\<close> and continues after it.\<close>

lemma vprintf_step:
  fixes s :: "'x uart_st_scheme"
  assumes s: "can_print s" and cv: "conv_of rest = cv" "cv \<noteq> ConvEnd"
    and IH: "\<And>cs (t :: 'x uart_st_scheme). conv_chars cv (fmt_at rest 0) ap = Some cs \<Longrightarrow> can_print t \<Longrightarrow>
      vprintf (drop (conv_skip cv) rest) (drop (conv_args cv) ap) t =
      prints (fmt_chars (drop (conv_skip cv) rest) (drop (conv_args cv) ap)) t"
  shows "vprintf (CHR ''%'' # rest) ap s =
    prints (case conv_chars cv (fmt_at rest 0) ap of None \<Rightarrow> None
      | Some cs \<Rightarrow> map_option ((@) cs) (fmt_chars (drop (conv_skip cv) rest) (drop (conv_args cv) ap))) s"
proof -
  let ?n = "vprintf (drop (conv_skip cv) rest) (drop (conv_args cv) ap)"
  have base: "2 \<le> b" if "cv = ConvInt b sg \<or> cv = ConvLong b sg k" for b sg k
    using that cv(1) conversion_base unfolding conv_of_def Let_def by blast
  have "\<exists>m. vprintf (CHR ''%'' # rest) ap s = seq m ?n s \<and>
      m s = prints (conv_chars cv (fmt_at rest 0) ap) s"
  proof (cases cv)
    case (ConvInt b sg)
    then show ?thesis using cv(1) s base
      by (intro exI [of _ "va_int ap (\<lambda>v. printint v b sg)"])
        (simp add: vprintf.simps conv_of_def Let_def conv_skip_def conv_args_def conv_chars_def
          va_int_def va_long_prints printint_prints)
  next
    case (ConvLong b sg k)
    then show ?thesis using cv(1) s base
      by (intro exI [of _ "va_long ap (\<lambda>v. printint v b sg)"])
        (simp add: vprintf.simps conv_of_def Let_def conv_skip_def conv_args_def conv_chars_def
          va_long_prints printint_prints)
  next
    case ConvPtr
    have "printptr v s = prints (Some (cstr ''0x'' @ ptr_digits v 16)) s" for v
      using s emit_append [of "[chr CHR ''0'']" "[chr CHR ''x'']" s]
        emit_append [of "[chr CHR ''0'', chr CHR ''x'']" "ptr_digits v 16" s]
      by (simp add: printptr_def prints_def kexec consputc_lit)
    with ConvPtr show ?thesis using cv(1)
      by (intro exI [of _ "va_long ap printptr"])
        (simp add: vprintf.simps conv_of_def Let_def conv_skip_def conv_args_def conv_chars_def
          va_long_prints split: list.split parg.split)
  next
    case ConvStr
    have "print_string cs s = prints (Some cs) s" for cs
      using s by (simp add: print_string_def prints_def)
    with ConvStr show ?thesis using cv(1)
      by (intro exI [of _ "va_str ap (\<lambda>s. print_string (case s of None \<Rightarrow> cstr ''(null)'' | Some cs \<Rightarrow> cs))"])
        (simp add: vprintf.simps conv_of_def Let_def conv_skip_def conv_args_def conv_chars_def
          va_str_prints)
  next
    case ConvPct
    then show ?thesis using cv(1) s
      by (intro exI [of _ "consputc (ucast (chr CHR ''%''))"])
        (simp add: vprintf.simps conv_of_def Let_def conv_skip_def conv_args_def conv_chars_def
          prints_def consputc_lit)
  next
    case ConvUnknown
    then show ?thesis using cv(1) s emit_append [of "[chr CHR ''%'']" "[chr (fmt_at rest 0)]" s]
      by (intro exI [of _ "seq (consputc (ucast (chr CHR ''%''))) (consputc (ucast (chr (fmt_at rest 0))))"])
        (simp add: vprintf.simps conv_of_def Let_def conv_skip_def conv_args_def conv_chars_def
          prints_def seq_assoc seq_case consputc_lit)
  qed (use cv in simp)
  then obtain m where m: "vprintf (CHR ''%'' # rest) ap s = seq m ?n s"
      "m s = prints (conv_chars cv (fmt_at rest 0) ap) s"
    by blast
  show ?thesis unfolding m(1)
    by (rule seq_prints [where m = m, OF m(2)]) (rule IH, assumption, use s in simp)
qed

lemma vprintf_prints:
  fixes s :: "'x uart_st_scheme"
  shows "can_print s \<Longrightarrow> vprintf fmt ap s = prints (fmt_chars fmt ap) s"
proof (induction fmt ap arbitrary: s rule: fmt_chars.induct)
  case (1 ap)
  then show ?case by (simp add: vprintf.simps fmt_chars.simps prints_def)
next
  case (2 cx rest ap)
  consider "cx = CHR 0x00" | "cx \<noteq> CHR 0x00" "cx \<noteq> CHR ''%''"
    | "cx = CHR ''%''" "conv_of rest = ConvEnd" | "cx = CHR ''%''" "conv_of rest \<noteq> ConvEnd"
    by blast
  then show ?case
  proof cases
    case 1
    then show ?thesis by (simp add: vprintf.simps fmt_chars.simps prints_def)
  next
    case 2
    then have IH: "vprintf rest ap (emit [chr cx] s) = prints (fmt_chars rest ap) (emit [chr cx] s)"
      using "2.IH"(1) "2.prems" by simp
    have "seq (consputc (ucast (chr cx))) (vprintf rest ap) s =
        prints (map_option ((@) [chr cx]) (fmt_chars rest ap)) s"
      using seq_prints [of "consputc (ucast (chr cx))" s "Some [chr cx]" "vprintf rest ap" "fmt_chars rest ap"]
        IH consputc_prints [OF "2.prems"]
      by simp
    moreover have "map_option ((@) [chr cx]) (fmt_chars rest ap) = map_option ((#) (chr cx)) (fmt_chars rest ap)"
      by (cases "fmt_chars rest ap") simp_all
    ultimately show ?thesis using 2 by (simp add: vprintf.simps fmt_chars.simps)
  next
    case 3
    then show ?thesis
      by (simp add: vprintf.simps fmt_chars.simps prints_def conv_of_def Let_def)
  next
    case 4
    then have IH: "vprintf (drop (conv_skip (conv_of rest)) rest) (drop (conv_args (conv_of rest)) ap) t =
        prints (fmt_chars (drop (conv_skip (conv_of rest)) rest) (drop (conv_args (conv_of rest)) ap)) t"
      if "conv_chars (conv_of rest) (fmt_at rest 0) ap = Some cs" "can_print t" for cs and t :: "'x uart_st_scheme"
      using "2.IH"(2) [of "conv_of rest" cs t] that 4 by simp
    show ?thesis using vprintf_step [OF "2.prems" refl 4(2) IH] 4
      by (simp add: fmt_chars.simps Let_def)
  qed
qed

lemma printf_prints:
  assumes "can_print s" "free PrLock (hs s)"
  shows "printf fmt ap s = prints (fmt_chars fmt ap) s"
proof -
  have "can_print (s\<lparr>hs := acq PrLock (hs s)\<rparr>)" using assms by (simp add: can_print_def)
  from vprintf_prints [OF this] vprintf_prints [OF assms(1)] show ?thesis using assms
    by (auto simp: printf_def kexec lock_rules prints_def can_print_def split: option.splits)
qed

lemma fmt_chars_plain: "\<forall>c\<in>set fmt. c \<noteq> CHR ''%'' \<Longrightarrow> \<exists>cs. fmt_chars fmt ap = Some cs"
  by (induction fmt) (auto simp: fmt_chars.simps)

lemma printf_emits:
  assumes "can_print s" "free PrLock (hs s)" "fmt_chars fmt ap = Some cs"
  shows "printf fmt ap s = Ret () (emit cs s)"
  using assms by (simp add: printf_prints prints_def)

text \<open>The message of a panic comes out even when the panicking hart holds the lock of \<^verbatim>\<open>printf\<close>; after it no other hart prints a
  character.\<close>

lemma printf_unlocked:
  assumes "can_print s" "\<not> pr_locking s" "fmt_chars fmt ap = Some cs"
  shows "printf fmt ap s = Ret () (emit cs s)"
  using vprintf_prints [OF assms(1)] assms by (simp add: printf_def kexec prints_def emit_def)

lemma panic_message_prints:
  assumes "can_print s"
  shows "panic_message msg s =
      Ret () ((emit (cstr ''panic: '' @ msg @ [10]) (s\<lparr>pr_locking := False\<rparr>))\<lparr>panicked := True\<rparr>)"
proof -
  let ?s = "s\<lparr>pr_locking := False\<rparr>"
  have f: "fmt_chars ''panic: '' [] = Some (cstr ''panic: '')" by code_simp
  have g: "fmt_chars (''%s'' @ [CHR 0x0A]) [PStr (Some msg)] = Some (msg @ [10])"
    by (simp add: fmt_chars.simps conv_of_def fmt_at_def conversion_def conv_chars_def Let_def conv_skip_def conv_args_def)
  have c: "can_print ?s" "can_print (emit cs ?s)" "\<not> pr_locking (emit cs ?s)" for cs
    using assms by (simp_all add: can_print_def emit_def)
  show ?thesis unfolding emit_append [of "cstr ''panic: ''"]
    using printf_unlocked [OF c(1) _ f] printf_unlocked [OF c(2,3) g]
    by (simp add: panic_message_def kexec)
qed

lemma panicked_spin: "settled (hs s) \<Longrightarrow> panicked s \<Longrightarrow> uartputc_sync c s = Spin"
  by (simp add: uartputc_sync_def kexec lock_rules)

section \<open>Numbers are printed in positional notation\<close>

definition digit_val :: "u8 \<Rightarrow> nat" where
  "digit_val c = (if unat c < 58 then unat c - 48 else unat c - 87)"

definition num_val :: "nat \<Rightarrow> u8 list \<Rightarrow> nat" where
  "num_val b cs = foldl (\<lambda>a c. a * b + digit_val c) 0 cs"

lemma digit_val_digits: "d < 16 \<Longrightarrow> digit_val (digits d) = d"
proof -
  assume "d < 16"
  then have "d \<in> {0, 1, 2, 3, 4, 5, 6, 7, 8, 9, 10, 11, 12, 13, 14, 15}"
    by simp presburger
  then show ?thesis by (auto simp: digit_val_def digits_def)
qed

lemma num_val_rev_Cons: "num_val b (rev (c # cs)) = num_val b (rev cs) * b + digit_val c"
  by (simp add: num_val_def)

lemma int_digits_Cons:
  "2 \<le> b \<Longrightarrow> int_digits b n =
     digits (n mod b) # (if n div b = 0 then [] else int_digits b (n div b))"
  by (subst int_digits.simps) simp

lemma int_digits_not_Nil [simp]: "int_digits b n \<noteq> []"
  by (subst int_digits.simps) simp

lemma num_val_int_digits:
  assumes "2 \<le> b" "b \<le> 16"
  shows "num_val b (rev (int_digits b n)) = n"
proof (induction n rule: less_induct)
  case (less n)
  have "n mod b < b" using assms by simp
  then have d: "digit_val (digits (n mod b)) = n mod b"
    using assms by (intro digit_val_digits) linarith
  show ?case
  proof (cases "n div b = 0")
    case True
    then have "int_digits b n = [digits (n mod b)]" using assms by (simp add: int_digits_Cons)
    then show ?thesis using True d assms by (simp add: num_val_def div_eq_0_iff)
  next
    case False
    then have "n div b < n" using assms by (intro div_less_dividend) (auto intro: gr0I)
    then have "num_val b (rev (int_digits b (n div b))) = n div b" by (rule less.IH)
    moreover have "int_digits b n = digits (n mod b) # int_digits b (n div b)"
      using False assms by (simp add: int_digits_Cons [of b n])
    ultimately show ?thesis using d by (simp only: num_val_rev_Cons) simp
  qed
qed

lemma length_int_digits:
  assumes "2 \<le> b"
  shows "length (int_digits b n) \<le> Suc k \<longleftrightarrow> n < b ^ Suc k"
proof (induction k arbitrary: n)
  case 0
  have "length (int_digits b n) \<le> Suc 0 \<longleftrightarrow> n div b = 0"
    using assms by (simp add: int_digits_Cons [of b n])
  then show ?case using assms by (simp add: div_eq_0_iff)
next
  case (Suc k)
  have "length (int_digits b n) \<le> Suc (Suc k) \<longleftrightarrow> n div b = 0 \<or> length (int_digits b (n div b)) \<le> Suc k"
    using assms by (simp add: int_digits_Cons [of b n])
  also have "\<dots> \<longleftrightarrow> n div b < b ^ Suc k"
  proof -
    have "0 < b ^ Suc k" using assms by simp
    then show ?thesis unfolding Suc.IH by (cases "n div b = 0") simp_all
  qed
  also have "\<dots> \<longleftrightarrow> n < b ^ Suc k * b"
    using assms by (intro div_less_iff_less_mult) simp
  finally show ?case by (simp only: power_Suc2)
qed

section \<open>Properties\<close>

lemma unat_neg_sint:
  fixes v :: u64
  assumes "sint v < 0"
  shows "int (unat (- v)) = - sint v"
proof -
  have "uint (- v) = uint (word_of_int (- sint v) :: u64)"
    by simp
  also have "\<dots> = (- sint v) mod 2 ^ 64"
    by (simp only: uint_word_of_int) simp
  also have "\<dots> = - sint v"
    using assms sint_range_size [of v] by (intro mod_pos_pos_trivial) (simp_all add: word_size)
  finally show ?thesis by simp
qed


definition uart_ex :: uart_st where
  "uart_ex = \<lparr>hs = harts0, choices = [], lsr_tx = [False, True, True], rx = [], txlog = [],
     panicked = False, pr_locking = True\<rparr>"




text \<open>C38: The digit buffer of \<^verbatim>\<open>printint\<close> has 16 bytes and is not checked: an unsigned decimal number
  is printed as intended exactly when it is below 10 to the 16th; from there on the digits are
  written past the end of the buffer.\<close>

theorem printint_overflow:
  assumes "settled (hs s)" "\<not> panicked s"
  shows "printint v 10 False s = (if unat v < 10 ^ 16
     then Ret () (emit (rev (int_digits 10 (unat v))) s) else Undef)"
proof -
  have "length (int_digits 10 (unat v)) \<le> 16 \<longleftrightarrow> unat v < 10 ^ 16"
    using length_int_digits [of 10 "unat v" 15] by simp
  then show ?thesis using printint_prints [of s 10 v False] assms
    by (auto simp: can_print_def prints_def int_chars_def printint_buf_def Let_def)
qed

theorem printint_overflow_witness:
  "printint 10000000000000000 10 False uart_ex = Undef"
  using printint_overflow [of uart_ex 10000000000000000] by (simp add: uart_ex_def)

end
