(* ===== verification/CString.thy ===== *)
theory CString
  imports Prelude
begin

text \<open>
  \<^verbatim>\<open>kernel/string.c\<close>. A memory is a function from addresses to bytes; the address
  type is \<open>64 word\<close> for flat memory and \<open>nat\<close> for a C array indexed from its
  start. Functions that only read take the memory of each operand; \<^verbatim>\<open>strncpy\<close> and
  \<^verbatim>\<open>safestrcpy\<close> take the memory of the destination and that of the source;
  \<^verbatim>\<open>memmove\<close>, whose operands may overlap, works inside one flat memory. Counts
  are natural numbers. The loops are the source's loops; the lemmas give their
  closed forms.
\<close>

type_synonym 'i memory = "'i \<Rightarrow> u8"

section \<open>memset\<close>

function memset_loop :: "('i::semiring_1) memory \<Rightarrow> 'i \<Rightarrow> u8 \<Rightarrow> nat \<Rightarrow> nat \<Rightarrow> 'i memory" where
  "memset_loop m dst c i n =
     (if i < n then memset_loop (m(dst + of_nat i := c)) dst c (Suc i) n else m)"
  by pat_completeness auto
termination
  by (relation "measure (\<lambda>(m, dst, c, i, n). n - i)") auto

declare memset_loop.simps [simp del]

definition memset :: "('i::semiring_1) memory \<Rightarrow> 'i \<Rightarrow> u32 \<Rightarrow> nat \<Rightarrow> 'i memory" where
  "memset m dst c n = memset_loop m dst (ucast c) 0 n"

section \<open>memcmp\<close>

primrec memcmp ::
  "('i::semiring_1) memory \<Rightarrow> 'i \<Rightarrow> ('j::semiring_1) memory \<Rightarrow> 'j \<Rightarrow> nat \<Rightarrow> int" where
  "memcmp m1 s1 m2 s2 0 = 0"
| "memcmp m1 s1 m2 s2 (Suc n) =
     (if m1 s1 \<noteq> m2 s2 then uint (m1 s1) - uint (m2 s2)
      else memcmp m1 (s1 + 1) m2 (s2 + 1) n)"

section \<open>memmove\<close>

primrec copy_up :: "u64 memory \<Rightarrow> u64 \<Rightarrow> u64 \<Rightarrow> nat \<Rightarrow> u64 memory" where
  "copy_up m d s 0 = m"
| "copy_up m d s (Suc n) = copy_up (m(d := m s)) (d + 1) (s + 1) n"

primrec copy_down :: "u64 memory \<Rightarrow> u64 \<Rightarrow> u64 \<Rightarrow> nat \<Rightarrow> u64 memory" where
  "copy_down m d s 0 = m"
| "copy_down m d s (Suc n) = copy_down (m(d - 1 := m (s - 1))) (d - 1) (s - 1) n"

definition memmove :: "u64 memory \<Rightarrow> u64 \<Rightarrow> u64 \<Rightarrow> nat \<Rightarrow> u64 memory" where
  "memmove m dst src n =
     (if n = 0 then m
      else if src < dst \<and> src + of_nat n > dst
      then copy_down m (dst + of_nat n) (src + of_nat n) n
      else copy_up m dst src n)"

definition memcpy :: "u64 memory \<Rightarrow> u64 \<Rightarrow> u64 \<Rightarrow> nat \<Rightarrow> u64 memory" where
  "memcpy m dst src n = memmove m dst src n"

section \<open>strncmp\<close>

primrec strncmp ::
  "('i::semiring_1) memory \<Rightarrow> 'i \<Rightarrow> ('j::semiring_1) memory \<Rightarrow> 'j \<Rightarrow> nat \<Rightarrow> int" where
  "strncmp mp p mq q 0 = 0"
| "strncmp mp p mq q (Suc n) =
     (if mp p \<noteq> 0 \<and> mp p = mq q then strncmp mp (p + 1) mq (q + 1) n
      else uint (mp p) - uint (mq q))"

section \<open>strncpy\<close>

primrec zero_fill :: "('i::semiring_1) memory \<Rightarrow> 'i \<Rightarrow> nat \<Rightarrow> 'i memory" where
  "zero_fill d s 0 = d"
| "zero_fill d s (Suc n) = zero_fill (d(s := 0)) (s + 1) n"

primrec strncpy ::
  "('i::semiring_1) memory \<Rightarrow> 'i \<Rightarrow> ('j::semiring_1) memory \<Rightarrow> 'j \<Rightarrow> nat \<Rightarrow> 'i memory" where
  "strncpy d s m t 0 = d"
| "strncpy d s m t (Suc n) =
     (if m t \<noteq> 0 then strncpy (d(s := m t)) (s + 1) m (t + 1) n
      else zero_fill (d(s := 0)) (s + 1) n)"

section \<open>safestrcpy\<close>

text \<open>
  \<open>safe_loop\<close> has \<open>k\<close> byte copies left. Copying a NUL ends the loop with the
  pointer already past it, so the final \<^verbatim>\<open>*s = 0\<close> writes the byte after it.
\<close>

primrec safe_loop ::
  "('i::semiring_1) memory \<Rightarrow> 'i \<Rightarrow> ('j::semiring_1) memory \<Rightarrow> 'j \<Rightarrow> nat \<Rightarrow> 'i memory" where
  "safe_loop d s m t 0 = d(s := 0)"
| "safe_loop d s m t (Suc k) =
     (if m t \<noteq> 0 then safe_loop (d(s := m t)) (s + 1) m (t + 1) k
      else d(s := 0, s + 1 := 0))"

definition safestrcpy ::
  "('i::semiring_1) memory \<Rightarrow> 'i \<Rightarrow> ('j::semiring_1) memory \<Rightarrow> 'j \<Rightarrow> int \<Rightarrow> 'i memory" where
  "safestrcpy d s m t n = (if n \<le> 0 then d else safe_loop d s m t (nat (n - 1)))"

section \<open>strlen\<close>

partial_function (option) strlen_from :: "('i::semiring_1) memory \<Rightarrow> 'i \<Rightarrow> nat \<Rightarrow> nat option" where
  "strlen_from m s n = (if m (s + of_nat n) = 0 then Some n else strlen_from m s (Suc n))"

definition strlen :: "('i::semiring_1) memory \<Rightarrow> 'i \<Rightarrow> nat option" where
  "strlen m s = strlen_from m s 0"

section \<open>Closed forms\<close>

lemma memset_loop_word:
  fixes m :: "u64 memory"
  assumes "i \<le> n" "n \<le> 2 ^ 64"
  shows "memset_loop m dst c i n x =
    (if i \<le> unat (x - dst) \<and> unat (x - dst) < n then c else m x)"
  using assms
proof (induction m dst c i n rule: memset_loop.induct)
  case (1 m dst c i n)
  show ?case
  proof (cases "i < n")
    case True
    have IH: "memset_loop (m(dst + of_nat i := c)) dst c (Suc i) n x =
      (if Suc i \<le> unat (x - dst) \<and> unat (x - dst) < n then c else (m(dst + of_nat i := c)) x)"
      by (rule "1.IH") (use True "1.prems" in auto)
    have eq: "x = dst + of_nat i \<longleftrightarrow> unat (x - dst) = i"
      by (rule word_offset_eq) (use True 1 in simp)
    show ?thesis
      using True IH eq by (subst memset_loop.simps) auto
  next
    case False
    with 1 show ?thesis by (subst memset_loop.simps) auto
  qed
qed

lemma memset_word:
  fixes m :: "u64 memory"
  assumes "n \<le> 2 ^ 64"
  shows "memset m dst c n x = (if unat (x - dst) < n then ucast c else m x)"
  using memset_loop_word [of 0 n m dst "ucast c" x] assms by (simp add: memset_def)

lemma memset_loop_nat:
  fixes m :: "nat memory"
  shows "memset_loop m dst c i n x = (if dst + i \<le> x \<and> x < dst + n then c else m x)"
proof (induction m dst c i n rule: memset_loop.induct)
  case (1 m dst c i n)
  show ?case
  proof (cases "i < n")
    case True
    have "memset_loop (m(dst + of_nat i := c)) dst c (Suc i) n x =
      (if dst + Suc i \<le> x \<and> x < dst + n then c else (m(dst + of_nat i := c)) x)"
      by (rule "1.IH") (rule True)
    with True show ?thesis by (subst memset_loop.simps) auto
  next
    case False
    then show ?thesis by (subst memset_loop.simps) auto
  qed
qed

lemma memset_nat:
  fixes m :: "nat memory"
  shows "memset m dst c n x = (if dst \<le> x \<and> x < dst + n then ucast c else m x)"
  by (simp add: memset_def memset_loop_nat)

text \<open>
  Copying upwards is right when no destination byte is a source byte still to be read:
  the destination starts at the source or at least \<open>n\<close> bytes above it (modulo the address
  space). Copying downwards is the mirror image.
\<close>

lemma copy_up_correct:
  assumes "d = s \<or> n \<le> unat (d - s)"
  shows "copy_up m d s n x = (if unat (x - d) < n then m (s + (x - d)) else m x)"
  using assms
proof (induction n arbitrary: m d s)
  case 0
  then show ?case by simp
next
  case (Suc n)
  have "copy_up (m(d := m s)) (d + 1) (s + 1) n x =
      (if unat (x - (d + 1)) < n then (m(d := m s)) (s + 1 + (x - (d + 1))) else (m(d := m s)) x)"
    by (rule Suc.IH) (use Suc.prems in auto)
  moreover have "s + 1 + (x - (d + 1)) = s + (x - d)" by simp
  moreover have "s + (x - d) \<noteq> d" if "x \<noteq> d" "unat (x - d) < Suc n"
  proof
    assume "s + (x - d) = d"
    then have "x - d = d - s" by (metis add_diff_cancel_left')
    with that Suc.prems show False by auto
  qed
  ultimately show ?case
    by (cases "x = d") (auto simp: unat_diff_Suc [of x d])
qed

lemma copy_down_correct:
  assumes "d = s \<or> n \<le> unat (s - d)" and "n \<le> 2 ^ 64"
  shows "copy_down m (d + of_nat n) (s + of_nat n) n x =
    (if unat (x - d) < n then m (s + (x - d)) else m x)"
  using assms
proof (induction n arbitrary: m)
  case 0
  then show ?case by simp
next
  case (Suc n)
  let ?m = "m(d + of_nat n := m (s + of_nat n))"
  have "copy_down ?m (d + of_nat n) (s + of_nat n) n x =
      (if unat (x - d) < n then ?m (s + (x - d)) else ?m x)"
    by (rule Suc.IH) (use Suc.prems in auto)
  moreover have "x = d + of_nat n \<longleftrightarrow> unat (x - d) = n"
    by (rule word_offset_eq) (use Suc.prems in simp)
  moreover have "s + (x - d) \<noteq> d + of_nat n" if "unat (x - d) < n"
  proof
    assume "s + (x - d) = d + of_nat n"
    define A B where "A = s - d" and "B = x - d"
    have "A + B = of_nat n"
      using \<open>s + (x - d) = d + of_nat n\<close> by (simp add: A_def B_def algebra_simps)
    then have "unat (A + B) = n" using Suc.prems by (simp add: unat_of_nat_small)
    moreover have "A \<noteq> 0" using calculation that by (auto simp: B_def)
    then have "Suc n \<le> unat A" using Suc.prems by (auto simp: A_def)
    moreover have "unat B < n" using that by (simp add: B_def)
    ultimately show False
      using unsigned_less [of A, where 'a = nat] by (auto simp: unat_plus_if' split: if_splits)
  qed
  ultimately show ?case by (auto simp: add_ac)
qed

lemma memmove_eq:
  assumes "unat src + n < 2 ^ 64" "unat dst + n \<le> 2 ^ 64"
  shows "memmove m dst src n x = (if unat (x - dst) < n then m (src + (x - dst)) else m x)"
proof (cases "src < dst \<and> src + of_nat n > dst")
  case True
  then have "n \<le> unat (src - dst)"
    using assms by (auto simp: unat_sub_if' word_less_nat_alt)
  with True assms show ?thesis
    using copy_down_correct [of dst src n m x] by (auto simp: memmove_def)
next
  case False
  have "unat (src + of_nat n) = unat src + n"
    using assms by (simp add: unat_plus_if' unat_of_nat_small)
  with False have "dst = src \<or> n \<le> unat (dst - src)"
    using assms by (auto simp: unat_sub_if' word_less_nat_alt word_unat_eq_iff)
  with False show ?thesis
    using copy_up_correct [of dst src n m x] by (auto simp: memmove_def)
qed

section \<open>C strings in arrays\<close>

lemma all_less_Suc: "(\<forall>i<Suc n. P i) \<longleftrightarrow> P 0 \<and> (\<forall>i<n. P (Suc i))"
  by (auto simp: less_Suc_eq_0_disj)

lemma strncmp_eq_0_iff:
  "strncmp mp p mq q n = 0 \<longleftrightarrow>
     (\<forall>i<n. (\<forall>j<i. mp (p + of_nat j) \<noteq> 0) \<longrightarrow> mp (p + of_nat i) = mq (q + of_nat i))"
proof (induction n arbitrary: p q)
  case 0
  then show ?case by simp
next
  case (Suc n)
  show ?case
  proof (cases "mp p \<noteq> 0 \<and> mp p = mq q")
    case True
    then show ?thesis
      by (simp add: Suc.IH all_less_Suc add_ac)
  next
    case False
    have "uint (mp p) = uint (mq q) \<longleftrightarrow> mp p = mq q" by (rule word_uint_eq_iff [symmetric])
    with False show ?thesis
      by (auto simp: all_less_Suc)
  qed
qed

lemma zero_fill_nat:
  fixes d :: "nat memory"
  shows "zero_fill d s n x = (if s \<le> x \<and> x < s + n then 0 else d x)"
  by (induction n arbitrary: d s) auto

lemma strncpy_below:
  fixes d :: "nat memory"
  shows "x < s \<Longrightarrow> strncpy d s m t n x = d x"
  by (induction n arbitrary: d s t) (auto simp: zero_fill_nat)

lemma strncpy_above:
  fixes d :: "nat memory"
  shows "s + n \<le> x \<Longrightarrow> strncpy d s m t n x = d x"
  by (induction n arbitrary: d s t) (auto simp: zero_fill_nat)

lemma strncpy_at:
  fixes d :: "nat memory"
  shows "i < n \<Longrightarrow> strncpy d s m t n (s + i) =
    (if \<forall>j\<le>i. m (t + of_nat j) \<noteq> 0 then m (t + of_nat i) else 0)"
proof (induction n arbitrary: d s t i)
  case 0
  then show ?case by simp
next
  case (Suc n)
  show ?case
  proof (cases "m t = 0")
    case True
    then show ?thesis using Suc.prems by (auto simp: zero_fill_nat intro: exI [of _ 0])
  next
    case False
    show ?thesis
    proof (cases i)
      case 0
      with False show ?thesis by (simp add: strncpy_below)
    next
      case (Suc i')
      with Suc.prems have "i' < n" by simp
      then have "strncpy (d(s := m t)) (s + 1) m (t + 1) n (s + 1 + i') =
          (if \<forall>j\<le>i'. m (t + 1 + of_nat j) \<noteq> 0 then m (t + 1 + of_nat i') else 0)"
        by (rule Suc.IH)
      moreover have "(\<forall>j\<le>Suc i'. m (t + of_nat j) \<noteq> 0) \<longleftrightarrow>
          (\<forall>j\<le>i'. m (t + 1 + of_nat j) \<noteq> 0)"
        using False all_less_Suc [of "Suc i'" "\<lambda>j. m (t + of_nat j) \<noteq> 0"]
        by (simp add: less_Suc_eq_le add_ac)
      ultimately show ?thesis using False Suc by (simp add: add_ac)
    qed
  qed
qed

text \<open>A name stored with \<^verbatim>\<open>strncpy\<close> compares equal to the original under \<^verbatim>\<open>strncmp\<close>.\<close>

lemma strncmp_strncpy:
  fixes d :: "nat memory"
  shows "strncmp m t (strncpy d s m t n) s n = 0"
  unfolding strncmp_eq_0_iff
proof (intro allI impI)
  fix i assume i: "i < n" "\<forall>j<i. m (t + of_nat j) \<noteq> 0"
  then show "m (t + of_nat i) = strncpy d s m t n (s + of_nat i)"
    by (auto simp: strncpy_at le_less)
qed

lemma safe_loop_below:
  fixes d :: "nat memory"
  shows "x < s \<Longrightarrow> safe_loop d s m t k x = d x"
  by (induction k arbitrary: d s t) auto

lemma safe_loop_above:
  fixes d :: "nat memory"
  shows "s + k < x \<Longrightarrow> safe_loop d s m t k x = d x"
  by (induction k arbitrary: d s t) auto

lemma safe_loop_string:
  fixes d :: "nat memory"
  shows "\<exists>j\<le>k. safe_loop d s m t k (s + j) = 0 \<and>
     (\<forall>i<j. safe_loop d s m t k (s + i) = m (t + of_nat i) \<and> m (t + of_nat i) \<noteq> 0) \<and>
     (j < k \<longrightarrow> m (t + of_nat j) = 0)"
proof (induction k arbitrary: d s t)
  case 0
  then show ?case by simp
next
  case (Suc k)
  show ?case
  proof (cases "m t = 0")
    case True
    then show ?thesis by (intro exI [of _ 0]) simp
  next
    case False
    let ?d = "safe_loop (d(s := m t)) (s + 1) m (t + 1) k"
    obtain j where j: "j \<le> k" "?d (s + 1 + j) = 0"
      "\<forall>i<j. ?d (s + 1 + i) = m (t + 1 + of_nat i) \<and> m (t + 1 + of_nat i) \<noteq> 0"
      "j < k \<longrightarrow> m (t + 1 + of_nat j) = 0"
      using Suc.IH by blast
    have "?d s = m t" by (simp add: safe_loop_below)
    with j False show ?thesis
      by (intro exI [of _ "Suc j"]) (simp add: all_less_Suc add_ac)
  qed
qed

lemma strlen_from_Some:
  assumes "m (s + of_nat (n + k)) = 0" and "\<forall>j<k. m (s + of_nat (n + j)) \<noteq> 0"
  shows "strlen_from m s n = Some (n + k)"
  using assms
proof (induction k arbitrary: n)
  case 0
  then show ?case by (subst strlen_from.simps) simp
next
  case (Suc k)
  then have "strlen_from m s (Suc n) = Some (Suc n + k)"
    by (intro Suc.IH) (auto simp: all_less_Suc add_ac)
  moreover have "m (s + of_nat n) \<noteq> 0" using Suc.prems by (simp add: all_less_Suc)
  ultimately show ?case by (subst strlen_from.simps) simp
qed

lemma strlen_Some:
  "m (s + of_nat k) = 0 \<Longrightarrow> \<forall>j<k. m (s + of_nat j) \<noteq> 0 \<Longrightarrow> strlen m s = Some k"
  using strlen_from_Some [of m s 0 k] by (simp add: strlen_def)

section \<open>Properties\<close>

text \<open>C39: \<^verbatim>\<open>memmove\<close> is correct for overlapping operands: whatever the relative position of the two
  blocks, each destination byte receives the source byte as it was before the call, and no other byte
  changes, as long as neither block runs past the end of the address space.\<close>

theorem memmove_spec:
  assumes "unat src + n < 2 ^ 64" "unat dst + n \<le> 2 ^ 64"
  shows "memmove m dst src n x = (if unat (x - dst) < n then m (src + (x - dst)) else m x)"
  using assms by (rule memmove_eq)

theorem memmove_spec_witness:
  "memmove (\<lambda>a. ucast a) 0x1002 0x1000 5 0x1004 = 2"
proof -
  have "memmove (\<lambda>a. ucast a) 0x1002 0x1000 5 0x1004 =
      (if unat (0x1004 - 0x1002 :: u64) < 5 then ucast (0x1000 + (0x1004 - 0x1002) :: u64) else ucast (0x1004 :: u64))"
    by (rule memmove_spec) simp_all
  then show ?thesis by simp
qed

text \<open>C40: \<^verbatim>\<open>safestrcpy\<close> with a positive size always leaves a terminated string in the buffer: a prefix
  of the source without NUL bytes, cut short only when the buffer is full, followed by a NUL inside
  the buffer; no byte outside the buffer is written.\<close>

theorem safestrcpy_spec:
  fixes d :: "nat memory"
  assumes "0 < n"
  shows "(\<exists>j<n. safestrcpy d s m t (int n) (s + j) = 0 \<and>
       (\<forall>i<j. safestrcpy d s m t (int n) (s + i) = m (t + of_nat i) \<and> m (t + of_nat i) \<noteq> 0) \<and>
       (Suc j < n \<longrightarrow> m (t + of_nat j) = 0)) \<and>
     (\<forall>x. x < s \<or> s + n \<le> x \<longrightarrow> safestrcpy d s m t (int n) x = d x)"
proof -
  have k: "safestrcpy d s m t (int n) = safe_loop d s m t (n - 1)"
    using assms by (simp add: safestrcpy_def nat_diff_distrib)
  obtain j where "j \<le> n - 1" "safe_loop d s m t (n - 1) (s + j) = 0"
      "\<forall>i<j. safe_loop d s m t (n - 1) (s + i) = m (t + of_nat i) \<and> m (t + of_nat i) \<noteq> 0"
      "j < n - 1 \<longrightarrow> m (t + of_nat j) = 0"
    using safe_loop_string by blast
  moreover have "safe_loop d s m t (n - 1) x = d x" if "x < s \<or> s + n \<le> x" for x
    using that assms safe_loop_below [of x s d m t "n - 1"] safe_loop_above [of s "n - 1" x d m t] by auto
  ultimately show ?thesis using assms unfolding k by (intro conjI exI [of _ j]) auto
qed

theorem safestrcpy_spec_witness:
  "\<exists>j<4 :: nat. safestrcpy (\<lambda>_. 7 :: u8) 0 (\<lambda>i :: nat. 65) 0 4 j = 0"
  using safestrcpy_spec [of 4 "\<lambda>_. 7" 0 "\<lambda>i :: nat. 65" 0] by auto

text \<open>A name stored with \<^verbatim>\<open>strncpy\<close> in a field of the same size compares equal to the original
  under \<^verbatim>\<open>strncmp\<close>, also when it fills the field and has no terminator; and \<^verbatim>\<open>strncmp\<close> returns 0 only
  for strings that agree up to their first NUL or up to the bound.\<close>

theorem strncpy_strncmp:
  fixes d :: "nat memory"
  shows "strncmp m t (strncpy d s m t n) s n = 0 \<and>
    (strncmp m t m' t' n = 0 \<longleftrightarrow>
      (\<forall>i<n. (\<forall>j<i. m (t + of_nat j) \<noteq> 0) \<longrightarrow> m (t + of_nat i) = m' (t' + of_nat i)))"
  using strncmp_strncpy strncmp_eq_0_iff by (rule conjI)

theorem strncpy_strncmp_witness:
  "strncmp (\<lambda>i :: nat. 65) 0 (strncpy (\<lambda>_ :: nat. 0) 0 (\<lambda>i :: nat. 65) 0 14) 0 14 = 0"
  by (rule strncpy_strncmp [THEN conjunct1])

end
