(* ===== verification/Bytes.thy ===== *)
theory Bytes
  imports CString
begin

text \<open>
  Objects in byte memory: reading and writing a run of bytes, and the little-endian
  layout of the machine integers. Shared by physical memory (addressed by \<open>64 word\<close>)
  and by disk blocks and buffers (addressed by \<open>nat\<close>).
\<close>

section \<open>Runs of bytes\<close>

definition load_bytes :: "('i::semiring_1) memory \<Rightarrow> 'i \<Rightarrow> nat \<Rightarrow> u8 list" where
  "load_bytes m a n = map (\<lambda>i. m (a + of_nat i)) [0..<n]"

primrec store_bytes :: "('i::semiring_1) memory \<Rightarrow> 'i \<Rightarrow> u8 list \<Rightarrow> 'i memory" where
  "store_bytes m a [] = m"
| "store_bytes m a (b # bs) = store_bytes (m(a := b)) (a + 1) bs"

lemma length_load_bytes [simp]: "length (load_bytes m a n) = n"
  by (simp add: load_bytes_def)

lemma nth_load_bytes [simp]: "i < n \<Longrightarrow> load_bytes m a n ! i = m (a + of_nat i)"
  by (simp add: load_bytes_def)

lemma load_bytes_cong:
  "(\<And>i. i < n \<Longrightarrow> m (a + of_nat i) = m' (a' + of_nat i)) \<Longrightarrow> load_bytes m a n = load_bytes m' a' n"
  by (simp add: load_bytes_def)

lemma store_bytes_word:
  fixes m :: "u64 memory"
  assumes "length bs \<le> 2 ^ 64"
  shows "store_bytes m a bs x = (if unat (x - a) < length bs then bs ! unat (x - a) else m x)"
  using assms
proof (induction bs arbitrary: m a)
  case (Cons b bs)
  have IH: "store_bytes (m(a := b)) (a + 1) bs x =
      (if unat (x - (a + 1)) < length bs then bs ! unat (x - (a + 1)) else (m(a := b)) x)"
    by (rule Cons.IH) (use Cons.prems in simp)
  show ?case
  proof (cases "x = a")
    case True
    have "a - (a + 1) = - 1" by simp
    then have "unat (a - (a + 1)) = 2 ^ 64 - 1"
      by (simp add: unsigned_minus_1_eq_mask mask_eq_exp_minus_1)
    then have "\<not> unat (a - (a + 1)) < length bs" using Cons.prems by simp
    with True show ?thesis unfolding store_bytes.simps IH by simp
  next
    case False
    then show ?thesis unfolding store_bytes.simps IH by (simp add: unat_diff_Suc)
  qed
qed simp

lemma store_bytes_nat:
  fixes m :: "nat memory"
  shows "store_bytes m a bs x = (if a \<le> x \<and> x < a + length bs then bs ! (x - a) else m x)"
proof (induction bs arbitrary: m a)
  case (Cons b bs)
  then show ?case by (auto simp: nth_Cons' Suc_le_eq)
qed auto

lemma load_store_bytes_nat [simp]:
  fixes m :: "nat memory"
  shows "length bs = n \<Longrightarrow> load_bytes (store_bytes m a bs) a n = bs"
  by (auto simp: load_bytes_def store_bytes_nat intro: nth_equalityI)

lemma load_store_bytes_word:
  fixes m :: "u64 memory"
  assumes "length bs = n" "n \<le> 2 ^ 64"
  shows "load_bytes (store_bytes m a bs) a n = bs"
proof (rule nth_equalityI)
  fix i assume "i < length (load_bytes (store_bytes m a bs) a n)"
  then have "i < n" "i < 2 ^ 64" using assms by simp_all
  then show "load_bytes (store_bytes m a bs) a n ! i = bs ! i"
    using assms by (simp add: store_bytes_word unat_of_nat_small)
qed (use assms in simp)

lemma load_store_disjoint_nat:
  fixes m :: "nat memory"
  assumes "b + n \<le> a \<or> a + length bs \<le> b"
  shows "load_bytes (store_bytes m a bs) b n = load_bytes m b n"
  by (rule load_bytes_cong) (use assms in \<open>auto simp: store_bytes_nat\<close>)

section \<open>Little-endian integers\<close>

definition le_bytes :: "nat \<Rightarrow> 'a::len word \<Rightarrow> u8 list" where
  "le_bytes n w = map (\<lambda>i. ucast (drop_bit (8 * i) w)) [0..<n]"

primrec of_le :: "u8 list \<Rightarrow> 'a::len word" where
  "of_le [] = 0"
| "of_le (b # bs) = ucast b OR push_bit 8 (of_le bs)"

lemma length_le_bytes [simp]: "length (le_bytes n w) = n"
  by (simp add: le_bytes_def)

lemma bit_of_le:
  "bit (of_le bs :: 'a::len word) i \<longleftrightarrow>
     i < LENGTH('a) \<and> i div 8 < length bs \<and> bit (bs ! (i div 8)) (i mod 8)"
proof (induction bs arbitrary: i)
  case (Cons b bs)
  show ?case
  proof (cases "i < 8")
    case True
    then show ?thesis by (auto simp: bit_simps)
  next
    case False
    then have "i div 8 = Suc ((i - 8) div 8)" "i mod 8 = (i - 8) mod 8"
      by (simp_all add: le_div_geq le_mod_geq)
    with False show ?thesis
      by (auto simp: bit_simps Cons dest: bit_imp_le_length)
  qed
qed simp

lemma of_le_bytes:
  fixes w :: "'a::len word"
  assumes "LENGTH('a) \<le> 8 * n"
  shows "of_le (le_bytes n w) = w"
proof (rule bit_word_eqI)
  fix i assume i: "i < LENGTH('a)"
  then have "i div 8 < n" using assms by auto
  moreover have "8 * (i div 8) + i mod 8 = i" by simp
  ultimately show "bit (of_le (le_bytes n w) :: 'a word) i \<longleftrightarrow> bit w i"
    using i by (simp add: bit_of_le le_bytes_def bit_simps)
qed

definition load64 :: "('i::semiring_1) memory \<Rightarrow> 'i \<Rightarrow> u64" where
  "load64 m a = of_le (load_bytes m a 8)"

definition store64 :: "('i::semiring_1) memory \<Rightarrow> 'i \<Rightarrow> u64 \<Rightarrow> 'i memory" where
  "store64 m a v = store_bytes m a (le_bytes 8 v)"

definition load32 :: "('i::semiring_1) memory \<Rightarrow> 'i \<Rightarrow> u32" where
  "load32 m a = of_le (load_bytes m a 4)"

definition store32 :: "('i::semiring_1) memory \<Rightarrow> 'i \<Rightarrow> u32 \<Rightarrow> 'i memory" where
  "store32 m a v = store_bytes m a (le_bytes 4 v)"

definition load16 :: "('i::semiring_1) memory \<Rightarrow> 'i \<Rightarrow> u16" where
  "load16 m a = of_le (load_bytes m a 2)"

definition store16 :: "('i::semiring_1) memory \<Rightarrow> 'i \<Rightarrow> u16 \<Rightarrow> 'i memory" where
  "store16 m a v = store_bytes m a (le_bytes 2 v)"

lemmas mem_defs = load64_def store64_def load32_def store32_def load16_def store16_def

lemma load64_store64 [simp]:
  fixes m :: "u64 memory"
  shows "load64 (store64 m a v) a = v"
  by (simp add: mem_defs load_store_bytes_word of_le_bytes)

lemma load_store_int_nat [simp]:
  fixes m :: "nat memory"
  shows "load32 (store32 m a v) a = v" "load16 (store16 m a w) a = w"
  by (simp_all add: mem_defs of_le_bytes)

lemma store64_other:
  fixes m :: "u64 memory"
  shows "\<not> unat (x - a) < 8 \<Longrightarrow> store64 m a v x = m x"
  by (simp add: store64_def store_bytes_word)

lemma load64_cong:
  fixes m :: "u64 memory"
  assumes "\<And>x. unat (x - a) < 8 \<Longrightarrow> m' x = m x"
  shows "load64 m' a = load64 m a"
  unfolding load64_def
proof (rule arg_cong [where f = of_le], rule load_bytes_cong)
  fix i :: nat assume "i < 8"
  then have "unat (a + of_nat i - a) < 8" by (simp add: unat_of_nat_small)
  then show "m' (a + of_nat i) = m (a + of_nat i)" by (rule assms)
qed

lemma word_blocks_disjoint:
  fixes a b x :: u64
  assumes "8 \<le> unat (b - a)" "8 \<le> unat (a - b)" "unat (x - b) < 8"
  shows "\<not> unat (x - a) < 8"
proof
  assume lt: "unat (x - a) < 8"
  define p q where "p = x - a" and "q = x - b"
  have "b - a = p - q" "a - b = q - p" by (simp_all add: p_def q_def)
  with assms lt show False
    unfolding p_def [symmetric] q_def [symmetric]
    by (cases "q \<le> p") (auto simp: unat_sub word_le_nat_alt)
qed

lemma load64_store64_other: fixes m :: "u64 memory" shows
  "8 \<le> unat (b - a) \<Longrightarrow> 8 \<le> unat (a - b) \<Longrightarrow> load64 (store64 m a v) b = load64 m b"
  by (rule load64_cong) (simp add: store64_other word_blocks_disjoint)

end
