(* ===== verification/Kalloc.thy ===== *)
theory Kalloc
  imports Printf Bytes
begin

text \<open>
  \<^verbatim>\<open>kernel/kalloc.c\<close>: the physical page allocator. Physical memory is a byte memory;
  the free list lives inside the free pages, the link in the first eight bytes.
  \<open>kend\<close> is the linker symbol \<^verbatim>\<open>end\<close>, the first address after the kernel.
\<close>

section \<open>State and constants\<close>

record kmem_st = uart_st +
  mem :: "u64 memory"
  freelist :: u64
  kend :: u64

definition PGSIZE :: u64 where "PGSIZE = 4096"
definition KERNBASE :: u64 where "KERNBASE = 0x80000000"
definition PHYSTOP :: u64 where "PHYSTOP = KERNBASE + 128 * 1024 * 1024"

definition PGROUNDUP :: "u64 \<Rightarrow> u64" where
  "PGROUNDUP sz = (sz + PGSIZE - 1) AND NOT (PGSIZE - 1)"

definition PGROUNDDOWN :: "u64 \<Rightarrow> u64" where
  "PGROUNDDOWN a = a AND NOT (PGSIZE - 1)"

section \<open>Operations\<close>

definition kmemset :: "u64 \<Rightarrow> u32 \<Rightarrow> nat \<Rightarrow> ('x kmem_st_scheme, unit) kop" where
  "kmemset dst c n = modify (\<lambda>s. s\<lparr>mem := memset (mem s) dst c n\<rparr>)"

definition kfree :: "u64 \<Rightarrow> ('x kmem_st_scheme, unit) kop" where
  "kfree pa =
     bind (get kend) (\<lambda>kend.
     seq (kwhen (pa mod PGSIZE \<noteq> 0 \<or> pa < kend \<or> pa \<ge> PHYSTOP) (panic ''kfree'')) (
     seq (kmemset pa 1 4096) (
     seq (acquire KmemLock) (
     seq (modify (\<lambda>s. s\<lparr>mem := store64 (mem s) pa (freelist s)\<rparr>)) (
     seq (modify (\<lambda>s. s\<lparr>freelist := pa\<rparr>))
     (release KmemLock))))))"

definition kalloc :: "('x kmem_st_scheme, u64) kop" where
  "kalloc =
     seq (acquire KmemLock) (
     bind (get freelist) (\<lambda>r.
     seq (kwhen (r \<noteq> 0) (modify (\<lambda>s. s\<lparr>freelist := load64 (mem s) r\<rparr>))) (
     seq (release KmemLock) (
     seq (kwhen (r \<noteq> 0) (kmemset r 5 4096))
     (ret r)))))"

text \<open>
  The loop of \<^verbatim>\<open>freerange\<close>: the pages visited from \<open>p\<close>. The condition is on
  \<open>p + PGSIZE\<close>, so the walk ends before an address wraps.
\<close>

function range_pages :: "u64 \<Rightarrow> u64 \<Rightarrow> u64 list" where
  "range_pages p pa_end =
     (if p + PGSIZE \<le> pa_end \<and> p < p + PGSIZE then p # range_pages (p + PGSIZE) pa_end else [])"
  by pat_completeness auto
termination
  by (relation "measure (\<lambda>(p, e). 2 ^ 64 - unat p)")
    (auto simp: word_less_nat_alt intro!: diff_less_mono2 unsigned_less [where 'a = nat and 'b = 64, simplified])

declare range_pages.simps [simp del]

definition freerange :: "u64 \<Rightarrow> u64 \<Rightarrow> ('x kmem_st_scheme, unit) kop" where
  "freerange pa_start pa_end = kfor kfree (range_pages (PGROUNDUP pa_start) pa_end)"

definition kinit :: "('x kmem_st_scheme, unit) kop" where
  "kinit =
     seq (initlock KmemLock ''kmem'') (
     bind (get kend) (\<lambda>kend. freerange kend PHYSTOP))"

section \<open>Pages\<close>

definition page_aligned :: "u64 \<Rightarrow> bool" where
  "page_aligned a \<longleftrightarrow> a mod PGSIZE = 0"

definition in_page :: "u64 \<Rightarrow> u64 \<Rightarrow> bool" where
  "in_page p x \<longleftrightarrow> unat (x - p) < 4096"

definition good_page :: "u64 \<Rightarrow> u64 \<Rightarrow> bool" where
  "good_page ke pa \<longleftrightarrow> page_aligned pa \<and> ke \<le> pa \<and> pa < PHYSTOP"

lemma page_aligned_nat: "page_aligned a \<longleftrightarrow> 4096 dvd unat a"
proof -
  have "unat (a mod 4096) = unat a mod 4096" by (simp add: unat_mod)
  then have "a mod 4096 = 0 \<longleftrightarrow> unat a mod 4096 = 0"
    by (metis unat_eq_zero)
  then show ?thesis by (simp add: page_aligned_def PGSIZE_def dvd_eq_mod_eq_0)
qed

lemma aligned_add_offset:
  assumes "page_aligned p" "i < 4096"
  shows "unat (p + of_nat i) = unat p + i"
proof -
  obtain k where k: "unat p = 4096 * k" using assms(1) by (auto simp: page_aligned_nat)
  have "unat p < 2 ^ 64" using unsigned_less [of p, where 'a = nat] by simp
  with k assms(2) have "unat p + i < 2 ^ 64" by simp
  then show ?thesis using assms(2) by (simp add: unat_plus_if' unat_of_nat_small)
qed

lemma in_page_div: "page_aligned p \<Longrightarrow> in_page p x \<longleftrightarrow> unat x div 4096 = unat p div 4096"
proof -
  assume p: "page_aligned p"
  obtain k where k: "unat p = 4096 * k" using p by (auto simp: page_aligned_nat)
  have "unat p + 4096 \<le> 2 ^ 64"
    using k unsigned_less [of p, where 'a = nat] by simp
  then have "in_page p x \<longleftrightarrow> unat p \<le> unat x \<and> unat x < unat p + 4096"
    unfolding in_page_def by (rule word_in_block)
  then show ?thesis using k by auto
qed

lemma in_page_unique: "page_aligned p \<Longrightarrow> page_aligned q \<Longrightarrow> in_page p x \<Longrightarrow> in_page q x \<Longrightarrow> p = q"
proof -
  assume "page_aligned p" "page_aligned q" "in_page p x" "in_page q x"
  then have "unat p div 4096 = unat q div 4096" by (simp add: in_page_div)
  moreover have "unat p = 4096 * (unat p div 4096)" "unat q = 4096 * (unat q div 4096)"
    using \<open>page_aligned p\<close> \<open>page_aligned q\<close> by (simp_all add: page_aligned_nat)
  ultimately show "p = q" by (metis word_unat_eq_iff)
qed

lemma in_page_self [simp]: "in_page p p"
  by (simp add: in_page_def)

lemma in_page_word: "page_aligned p \<Longrightarrow> unat (x - p) < 8 \<Longrightarrow> in_page p x"
  by (simp add: in_page_def)

section \<open>The free list\<close>

text \<open>\<open>flist m a xs\<close>: following the links in \<open>m\<close> from \<open>a\<close> visits exactly the pages \<open>xs\<close>.\<close>

primrec flist :: "u64 memory \<Rightarrow> u64 \<Rightarrow> u64 list \<Rightarrow> bool" where
  "flist m a [] \<longleftrightarrow> a = 0"
| "flist m a (x # xs) \<longleftrightarrow> a = x \<and> x \<noteq> 0 \<and> flist m (load64 m x) xs"

definition free_pages :: "'x kmem_st_scheme \<Rightarrow> u64 list \<Rightarrow> bool" where
  "free_pages s xs \<longleftrightarrow> flist (mem s) (freelist s) xs \<and> distinct xs \<and> (\<forall>x\<in>set xs. good_page (kend s) x)"

definition kmem_ready :: "'x kmem_st_scheme \<Rightarrow> bool" where
  "kmem_ready s \<longleftrightarrow> settled (hs s) \<and> free KmemLock (hs s)"

lemma flist_frame:
  assumes "flist m a xs" and "\<forall>x\<in>set xs. page_aligned x"
    and "\<And>x p. p \<in> set xs \<Longrightarrow> in_page p x \<Longrightarrow> m' x = m x"
  shows "flist m' a xs"
  using assms
proof (induction xs arbitrary: a)
  case (Cons p xs)
  have "load64 m' p = load64 m p"
  proof (rule load64_cong)
    fix x assume "unat (x - p) < 8"
    then show "m' x = m x" using Cons.prems(2) Cons.prems(3) [of p x] by (simp add: in_page_word)
  qed
  with Cons show ?case by auto
qed simp

definition fill_page :: "u64 \<Rightarrow> u8 \<Rightarrow> u64 memory \<Rightarrow> u64 memory" where
  "fill_page pa c m = (\<lambda>x. if in_page pa x then c else m x)"

lemma kmemset_mem [simp]:
  "kmemset pa c 4096 s = Ret () (s\<lparr>mem := fill_page pa (ucast c) (mem s)\<rparr>)"
proof -
  have "memset (mem s) pa c 4096 = fill_page pa (ucast c) (mem s)"
    by (rule ext) (simp add: memset_word fill_page_def in_page_def)
  then show ?thesis by (simp add: kmemset_def)
qed

definition freed :: "u64 \<Rightarrow> 'x kmem_st_scheme \<Rightarrow> 'x kmem_st_scheme" where
  "freed pa s = s\<lparr>mem := store64 (fill_page pa 1 (mem s)) pa (freelist s), freelist := pa\<rparr>"

definition taken :: "'x kmem_st_scheme \<Rightarrow> 'x kmem_st_scheme" where
  "taken s = s\<lparr>freelist := load64 (mem s) (freelist s), mem := fill_page (freelist s) 5 (mem s)\<rparr>"

lemma kfree_good:
  "kmem_ready s \<Longrightarrow> good_page (kend s) pa \<Longrightarrow> kfree pa s = Ret () (freed pa s)"
  by (simp add: kfree_def kexec lock_rules kmem_ready_def good_page_def page_aligned_def freed_def not_less not_le)

lemma kfree_bad: "\<not> good_page (kend s) pa \<Longrightarrow> kfree pa s = Panic ''kfree''"
  by (auto simp: kfree_def kexec good_page_def page_aligned_def not_less not_le)

lemma kalloc_empty: "kmem_ready s \<Longrightarrow> freelist s = 0 \<Longrightarrow> kalloc s = Ret 0 s"
  by (simp add: kalloc_def kexec lock_rules kmem_ready_def)

lemma kalloc_taken:
  "kmem_ready s \<Longrightarrow> freelist s \<noteq> 0 \<Longrightarrow> kalloc s = Ret (freelist s) (taken s)"
  by (simp add: kalloc_def kexec lock_rules kmem_ready_def taken_def)

lemma freed_fields [simp]:
  "hs (freed pa s) = hs s" "choices (freed pa s) = choices s" "kend (freed pa s) = kend s"
  by (simp_all add: freed_def)

lemma taken_fields [simp]:
  "hs (taken s) = hs s" "choices (taken s) = choices s" "kend (taken s) = kend s"
  by (simp_all add: taken_def)

lemma freed_mem_other: "page_aligned pa \<Longrightarrow> \<not> in_page pa x \<Longrightarrow> mem (freed pa s) x = mem s x"
  by (subgoal_tac "\<not> unat (x - pa) < 8")
    (auto simp: freed_def store64_other fill_page_def dest: in_page_word)

lemma taken_mem_other: "\<not> in_page (freelist s) x \<Longrightarrow> mem (taken s) x = mem s x"
  by (simp add: taken_def fill_page_def)

lemma free_pages_freed:
  assumes "free_pages s xs" "good_page (kend s) pa" "pa \<notin> set xs" "pa \<noteq> 0"
  shows "free_pages (freed pa s) (pa # xs)"
proof -
  have al: "page_aligned pa" "\<forall>x\<in>set xs. page_aligned x"
    using assms by (auto simp: free_pages_def good_page_def)
  have "mem (freed pa s) x = mem s x" if "p \<in> set xs" "in_page p x" for p x
    using al that assms(3) in_page_unique [of p pa x] by (intro freed_mem_other) auto
  then have "flist (mem (freed pa s)) (freelist s) xs"
    using assms(1) al(2) flist_frame unfolding free_pages_def by blast
  moreover have "load64 (mem (freed pa s)) pa = freelist s" by (simp add: freed_def)
  ultimately show ?thesis using assms by (simp add: free_pages_def) (simp add: freed_def)
qed

lemma free_pages_taken:
  assumes "free_pages s (x # xs)"
  shows "freelist s = x" "x \<noteq> 0" "free_pages (taken s) xs"
proof -
  show x: "freelist s = x" "x \<noteq> 0" using assms by (auto simp: free_pages_def)
  have "flist (mem (taken s)) (freelist (taken s)) xs"
  proof (rule flist_frame [where m = "mem s"])
    show "flist (mem s) (freelist (taken s)) xs" using assms by (auto simp: free_pages_def taken_def)
    show "\<forall>x\<in>set xs. page_aligned x" using assms by (auto simp: free_pages_def good_page_def)
    fix y p assume "p \<in> set xs" "in_page p y"
    then show "mem (taken s) y = mem s y"
      using assms x in_page_unique [of p x y]
      by (intro taken_mem_other) (auto simp: free_pages_def good_page_def)
  qed
  then show "free_pages (taken s) xs" using assms by (simp add: free_pages_def)
qed

section \<open>Rounding\<close>

lemma PGROUNDDOWN_eq: "PGROUNDDOWN a = a - a mod 4096"
proof -
  have m: "(4095 :: u64) = mask 12" by (simp add: mask_eq_exp_minus_1)
  have "(a AND NOT (mask 12)) + (a AND mask 12) = (a AND NOT (mask 12)) OR (a AND mask 12)"
    by (rule disjunctive_add) (auto simp: bit_simps)
  also have "\<dots> = a" by (rule bit_word_eqI) (auto simp: bit_simps)
  finally have "a AND NOT (mask 12) = a - (a AND mask 12)" by (simp add: eq_diff_eq)
  also have "a AND mask 12 = a mod 4096"
    by (simp add: take_bit_eq_mask [symmetric] take_bit_eq_mod)
  finally show ?thesis by (simp add: PGROUNDDOWN_def PGSIZE_def m)
qed

lemma unat_mod_PGSIZE: "unat (a mod 4096 :: u64) = unat a mod 4096"
  by (simp add: unat_mod)

lemma unat_PGROUNDDOWN: "unat (PGROUNDDOWN a) = unat a - unat a mod 4096"
  unfolding PGROUNDDOWN_eq using unat_mod_PGSIZE [of a]
  by (simp add: unat_sub_if' mod_less_eq_dividend word_le_nat_alt)

lemma page_aligned_PGROUNDDOWN [simp]: "page_aligned (PGROUNDDOWN a)"
  by (simp add: page_aligned_nat unat_PGROUNDDOWN minus_mod_eq_mult_div)

lemma PGROUNDUP_DOWN: "PGROUNDUP a = PGROUNDDOWN (a + 4095)"
  by (simp add: PGROUNDUP_def PGROUNDDOWN_def PGSIZE_def add_diff_eq [symmetric])

lemma page_aligned_PGROUNDUP [simp]: "page_aligned (PGROUNDUP a)"
  by (simp add: PGROUNDUP_DOWN)

lemma PGROUNDUP_bounds:
  assumes "unat a + 4095 < 2 ^ 64"
  shows "unat a \<le> unat (PGROUNDUP a)" "unat (PGROUNDUP a) < unat a + 4096"
proof -
  have "unat (a + 4095) = unat a + 4095" using assms by (simp add: unat_plus_if')
  then have "unat (PGROUNDUP a) = (unat a + 4095) - (unat a + 4095) mod 4096"
    by (simp add: PGROUNDUP_DOWN unat_PGROUNDDOWN)
  then show "unat a \<le> unat (PGROUNDUP a)" "unat (PGROUNDUP a) < unat a + 4096"
    using mod_less_divisor [of 4096 "unat a + 4095"] by linarith+
qed

section \<open>Initialisation\<close>

lemma range_pages_member:
  assumes "x \<in> set (range_pages p e)" "page_aligned p"
  shows "page_aligned x \<and> p \<le> x \<and> x < e"
  using assms
proof (induction p e rule: range_pages.induct)
  case (1 p e)
  show ?case
  proof (cases "p + PGSIZE \<le> e \<and> p < p + PGSIZE")
    case True
    then have "x = p \<or> x \<in> set (range_pages (p + PGSIZE) e)"
      using "1.prems" by (simp add: range_pages.simps [of p e])
    moreover have "page_aligned (p + PGSIZE)"
      using "1.prems"(2) True
      by (auto simp: page_aligned_nat PGSIZE_def word_less_nat_alt unat_plus_if' split: if_splits)
    ultimately show ?thesis using "1.IH" True "1.prems"(2)
      by (auto intro: less_le_trans less_imp_le order_trans)
  next
    case False
    with "1.prems" show ?thesis by (simp add: range_pages.simps [of p e])
  qed
qed

lemma sorted_range_pages: "page_aligned p \<Longrightarrow> sorted_wrt (<) (range_pages p e)"
proof (induction p e rule: range_pages.induct)
  case (1 p e)
  show ?case
  proof (cases "p + PGSIZE \<le> e \<and> p < p + PGSIZE")
    case True
    have al: "page_aligned (p + PGSIZE)"
      using 1 True
      by (auto simp: page_aligned_nat PGSIZE_def word_less_nat_alt unat_plus_if' split: if_splits)
    have "p < x" if "x \<in> set (range_pages (p + PGSIZE) e)" for x
      using range_pages_member [OF that al] True by auto
    with True 1 al show ?thesis by (simp add: range_pages.simps [of p e])
  next
    case False
    then show ?thesis by (subst range_pages.simps) auto
  qed
qed

lemma aligned_gap:
  assumes "page_aligned a" "page_aligned b" "unat a < unat b"
  shows "unat a + 4096 \<le> unat b"
proof -
  obtain j where j: "unat a = 4096 * j" using assms(1) unfolding page_aligned_nat by (rule dvdE)
  obtain k where k: "unat b = 4096 * k" using assms(2) unfolding page_aligned_nat by (rule dvdE)
  have "j < k" using assms(3) unfolding j k by simp
  then show ?thesis unfolding j k by simp
qed

lemma range_pages_complete:
  assumes "page_aligned p" "page_aligned e" "page_aligned x" "p \<le> x" "x < e"
  shows "x \<in> set (range_pages p e)"
  using assms
proof (induction p e rule: range_pages.induct)
  case (1 p e)
  have "unat p + 4096 \<le> unat e"
    using "1.prems" aligned_gap [of p e] by (simp add: word_le_nat_alt word_less_nat_alt)
  then have p: "unat (p + PGSIZE) = unat p + 4096"
    using unsigned_less [of e, where 'a = nat] by (simp add: PGSIZE_def unat_plus_if')
  then have c: "p + PGSIZE \<le> e \<and> p < p + PGSIZE"
    using \<open>unat p + 4096 \<le> unat e\<close> by (simp add: word_le_nat_alt word_less_nat_alt)
  show ?case
  proof (cases "x = p")
    case True
    then show ?thesis using c by (simp add: range_pages.simps [of p e])
  next
    case False
    then have "p < x" using "1.prems"(4) by simp
    then have "p + PGSIZE \<le> x"
      using aligned_gap [of p x] "1.prems" p by (simp add: word_le_nat_alt word_less_nat_alt)
    moreover have "page_aligned (p + PGSIZE)"
      using "1.prems"(1) p by (simp add: page_aligned_nat)
    ultimately have "x \<in> set (range_pages (p + PGSIZE) e)" using "1.IH" "1.prems" c by simp
    with c show ?thesis by (simp add: range_pages.simps [of p e])
  qed
qed

lemma PGROUNDUP_le_iff:
  assumes "page_aligned x" "unat a + 4095 < 2 ^ 64"
  shows "PGROUNDUP a \<le> x \<longleftrightarrow> a \<le> x"
proof
  assume "a \<le> x"
  show "PGROUNDUP a \<le> x"
  proof (rule ccontr)
    assume "\<not> PGROUNDUP a \<le> x"
    then have "unat x + 4096 \<le> unat (PGROUNDUP a)"
      using assms(1) by (intro aligned_gap) (simp_all add: word_le_nat_alt)
    with PGROUNDUP_bounds(2) [OF assms(2)] \<open>a \<le> x\<close> show False by (simp add: word_le_nat_alt)
  qed
qed (use PGROUNDUP_bounds(1) [OF assms(2)] in \<open>simp add: word_le_nat_alt\<close>)

lemma kfor_kfree:
  assumes "kmem_ready s" "free_pages s xs" "distinct ps" "set ps \<inter> set xs = {}"
    and "\<forall>p\<in>set ps. good_page (kend s) p \<and> p \<noteq> 0"
  shows "\<exists>t. kfor kfree ps s = Ret () t \<and> free_pages t (rev ps @ xs) \<and> hs t = hs s"
  using assms
proof (induction ps arbitrary: s xs)
  case (Cons p ps)
  have "kfree p s = Ret () (freed p s)" using Cons.prems by (simp add: kfree_good)
  moreover have "free_pages (freed p s) (p # xs)" using Cons.prems by (simp add: free_pages_freed)
  moreover have "\<exists>t. kfor kfree ps (freed p s) = Ret () t \<and> free_pages t (rev ps @ p # xs) \<and>
      hs t = hs (freed p s)"
    by (rule Cons.IH) (use Cons.prems calculation in \<open>auto simp: kmem_ready_def\<close>)
  ultimately show ?case by (auto simp: seq_Ret)
qed simp

lemma good_page_nonzero: "good_page ke x \<Longrightarrow> ke \<noteq> 0 \<Longrightarrow> x \<noteq> 0"
  unfolding good_page_def by (metis word_le_0_iff)

lemma page_aligned_PHYSTOP: "page_aligned PHYSTOP"
  by (simp add: page_aligned_def PHYSTOP_def KERNBASE_def PGSIZE_def)

lemma kernel_pages:
  assumes "ke \<le> PHYSTOP"
  shows "set (range_pages (PGROUNDUP ke) PHYSTOP) = {x. good_page ke x}"
proof -
  have "unat ke \<le> unat PHYSTOP" using assms by (simp add: word_le_nat_alt)
  then have ke: "unat ke + 4095 < 2 ^ 64" by (simp add: PHYSTOP_def KERNBASE_def)
  have "x \<in> set (range_pages (PGROUNDUP ke) PHYSTOP) \<longleftrightarrow> good_page ke x" for x
  proof
    assume "x \<in> set (range_pages (PGROUNDUP ke) PHYSTOP)"
    then have "page_aligned x \<and> PGROUNDUP ke \<le> x \<and> x < PHYSTOP"
      by (rule range_pages_member) simp
    then show "good_page ke x" using PGROUNDUP_le_iff [OF _ ke] unfolding good_page_def by blast
  next
    assume "good_page ke x"
    then show "x \<in> set (range_pages (PGROUNDUP ke) PHYSTOP)"
      using PGROUNDUP_le_iff [OF _ ke, of x] page_aligned_PHYSTOP
      by (intro range_pages_complete) (simp_all add: good_page_def)
  qed
  then show ?thesis by blast
qed

text \<open>C29: Booting the allocator puts exactly the pages that lie between the end of the kernel
  and the top of memory on the free list, each of them once.\<close>

theorem kinit_free_pages:
  assumes "settled (hs s)" "freelist s = 0" "kend s \<noteq> 0" "kend s \<le> PHYSTOP"
  shows "\<exists>t xs. kinit s = Ret () t \<and> free_pages t xs \<and> set xs = {x. good_page (kend s) x}"
proof -
  let ?ps = "range_pages (PGROUNDUP (kend s)) PHYSTOP"
  let ?s = "s\<lparr>hs := (hs s)\<lparr>locks := (locks (hs s))(KmemLock := (locks (hs s) KmemLock)
      \<lparr>lname := ''kmem'', locked := False, lcpu := None\<rparr>)\<rparr>\<rparr>"
  have good: "good_page (kend s) x \<and> x \<noteq> 0" if "x \<in> set ?ps" for x
    using that good_page_nonzero [OF _ assms(3)] unfolding kernel_pages [OF assms(4)] by blast
  have "distinct ?ps"
    using sorted_range_pages [of "PGROUNDUP (kend s)" PHYSTOP] by (simp add: strict_sorted_iff)
  moreover have "kmem_ready ?s" using assms(1)
    by (simp add: kmem_ready_def settled_def free_def)
  moreover have "free_pages ?s []" using assms(2) by (simp add: free_pages_def)
  ultimately have "\<exists>t. kfor kfree ?ps ?s = Ret () t \<and> free_pages t (rev ?ps @ []) \<and> hs t = hs ?s"
    using good by (intro kfor_kfree) simp_all
  then obtain t where "kinit s = Ret () t" "free_pages t (rev ?ps)"
    by (auto simp: kinit_def freerange_def kexec initlock_def upd_lock_def)
  then show ?thesis using kernel_pages [OF assms(4)] by (intro exI [of _ t] exI [of _ "rev ?ps"]) simp
qed

section \<open>The interface of a page allocator\<close>

text \<open>
  What the virtual-memory code relies on: an allocation takes a page off a pool of
  distinct non-null pages or reports that the pool is empty, and freeing a page puts it back.
\<close>

locale page_allocator =
  fixes pool :: "'s \<Rightarrow> u64 list \<Rightarrow> bool"
    and give :: "('s, u64) kop"
    and take_back :: "u64 \<Rightarrow> ('s, unit) kop"
    and acceptable :: "'s \<Rightarrow> u64 \<Rightarrow> bool"
  assumes pool_distinct: "pool s xs \<Longrightarrow> distinct xs \<and> 0 \<notin> set xs"
    and give_empty: "pool s [] \<Longrightarrow> give s = Ret 0 s"
    and give_page: "pool s (x # xs) \<Longrightarrow> \<exists>t. give s = Ret x t \<and> pool t xs \<and> acceptable t x"
    and take_back_page:
      "pool s xs \<Longrightarrow> acceptable s x \<Longrightarrow> x \<notin> set xs \<Longrightarrow>
         \<exists>t. take_back x s = Ret () t \<and> pool t (x # xs)"
begin

primrec give_n :: "nat \<Rightarrow> ('s, u64 list) kop" where
  "give_n 0 = ret []"
| "give_n (Suc n) = bind give (\<lambda>x. bind (give_n n) (\<lambda>xs. ret (x # xs)))"

lemma give_n_pool:
  "pool s xs \<Longrightarrow> n \<le> length xs \<Longrightarrow>
     \<exists>t. give_n n s = Ret (take n xs) t \<and> pool t (drop n xs)"
proof (induction n arbitrary: s xs)
  case (Suc n)
  then obtain x ys where xs: "xs = x # ys" by (cases xs) auto
  with Suc.prems obtain t where t: "give s = Ret x t" "pool t ys" using give_page by blast
  with Suc.IH [of t ys] Suc.prems xs obtain u where "give_n n t = Ret (take n ys) u" "pool u (drop n ys)"
    by auto
  with t xs show ?case by (simp add: bind_Ret)
qed simp

lemma give_then_take_back:
  assumes "pool s (x # xs)"
  shows "\<exists>t. bind give take_back s = Ret () t \<and> pool t (x # xs)"
proof -
  obtain t where t: "give s = Ret x t" "pool t xs" "acceptable t x"
    using assms give_page by blast
  moreover have "x \<notin> set xs" using pool_distinct [OF assms] by simp
  ultimately obtain u where "take_back x t = Ret () u" "pool u (x # xs)" using take_back_page by blast
  with t show ?thesis by (auto simp: bind_Ret)
qed

end

definition kmem_pool :: "'x kmem_st_scheme \<Rightarrow> u64 list \<Rightarrow> bool" where
  "kmem_pool s xs \<longleftrightarrow> kmem_ready s \<and> free_pages s xs"

definition freeable :: "'x kmem_st_scheme \<Rightarrow> u64 \<Rightarrow> bool" where
  "freeable s x \<longleftrightarrow> good_page (kend s) x \<and> x \<noteq> 0"

lemma flist_nonzero: "flist m a xs \<Longrightarrow> 0 \<notin> set xs"
  by (induction xs arbitrary: a) auto

interpretation kpages: page_allocator kmem_pool kalloc kfree freeable
proof
  fix s :: "'a kmem_st_scheme" and x xs
  show "kmem_pool s xs \<Longrightarrow> distinct xs \<and> 0 \<notin> set xs"
    using flist_nonzero by (auto simp: kmem_pool_def free_pages_def)
  show "kmem_pool s [] \<Longrightarrow> kalloc s = Ret 0 s"
    by (simp add: kmem_pool_def free_pages_def kalloc_empty)
  show "\<exists>t. kalloc s = Ret x t \<and> kmem_pool t xs \<and> freeable t x" if "kmem_pool s (x # xs)"
    using that free_pages_taken [of s x xs] kalloc_taken [of s]
    by (auto simp: kmem_pool_def kmem_ready_def freeable_def) (auto simp: free_pages_def)
  show "\<exists>t. kfree x s = Ret () t \<and> kmem_pool t (x # xs)"
    if "kmem_pool s xs" "freeable s x" "x \<notin> set xs"
    using that free_pages_freed [of s xs x]
    by (auto simp: kmem_pool_def freeable_def kfree_good kmem_ready_def)
qed

section \<open>Properties\<close>

text \<open>C4: Allocation takes the first page off the free list, fills it with the junk byte 5 and
  changes no other byte of memory; it reports 0, changing nothing, exactly when no page is free.\<close>

theorem kalloc_spec:
  assumes "kmem_ready s" "free_pages s xs"
  shows "case xs of [] \<Rightarrow> kalloc s = Ret 0 s
    | x # ys \<Rightarrow> \<exists>t. kalloc s = Ret x t \<and> x \<noteq> 0 \<and> free_pages t ys \<and> kmem_ready t \<and>
        (\<forall>a. mem t a = (if in_page x a then 5 else mem s a))"
proof (cases xs)
  case Nil
  then show ?thesis using assms by (simp add: kalloc_empty free_pages_def)
next
  case (Cons x ys)
  then have x: "freelist s = x" "x \<noteq> 0" "free_pages (taken s) ys"
    using free_pages_taken assms(2) by blast+
  then have "kalloc s = Ret x (taken s)" using kalloc_taken assms(1) by blast
  moreover have "mem (taken s) a = (if in_page x a then 5 else mem s a)" for a
    using x(1) by (simp add: taken_def fill_page_def)
  ultimately show ?thesis using x Cons assms(1) by (auto simp: kmem_ready_def)
qed

definition kmem1 :: kmem_st where
  "kmem1 = \<lparr>hs = harts0, choices = [], lsr_tx = [], rx = [], txlog = [], panicked = False,
     pr_locking = True, mem = (\<lambda>_. 0), freelist = 0, kend = 0x80030000\<rparr>"

definition kmem2 :: kmem_st where
  "kmem2 = kmem1\<lparr>freelist := 0x80040000\<rparr>"

lemma kmem_examples: "kmem_ready kmem1" "free_pages kmem1 []" "kmem_ready kmem2"
  "free_pages kmem2 [0x80040000]"
  by (simp_all add: kmem1_def kmem2_def kmem_ready_def free_pages_def load64_def load_bytes_def
      good_page_def page_aligned_def PGSIZE_def PHYSTOP_def KERNBASE_def upt_rec)

theorem kalloc_spec_witness:
  "\<exists>t. kalloc kmem2 = Ret 0x80040000 t \<and> free_pages t [] \<and> mem t 0x80040007 = 5"
  using kalloc_spec [OF kmem_examples(3,4)] by (auto simp: in_page_def)

text \<open>C28: Freeing a page that the kernel owns and that is not already free pushes it on the free
  list and touches no byte outside that page; freeing anything that is not an aligned page between
  the end of the kernel and the top of memory panics.\<close>

theorem kfree_spec:
  assumes "kmem_ready s" "free_pages s xs" "kend s \<noteq> 0" "pa \<notin> set xs"
  shows "if good_page (kend s) pa
    then \<exists>t. kfree pa s = Ret () t \<and> free_pages t (pa # xs) \<and> kmem_ready t \<and>
      (\<forall>a. \<not> in_page pa a \<longrightarrow> mem t a = mem s a)
    else kfree pa s = Panic ''kfree''"
proof (cases "good_page (kend s) pa")
  case True
  then have "free_pages (freed pa s) (pa # xs)"
    using assms good_page_nonzero by (intro free_pages_freed) auto
  moreover have "mem (freed pa s) a = mem s a" if "\<not> in_page pa a" for a
    using True that by (intro freed_mem_other) (simp_all add: good_page_def)
  ultimately show ?thesis using True assms(1) kfree_good [of s pa] by (auto simp: kmem_ready_def)
qed (simp add: kfree_bad)

theorem kfree_spec_witness:
  "(\<exists>t. kfree 0x80050000 kmem2 = Ret () t \<and> free_pages t [0x80050000, 0x80040000]) \<and>
   kfree 0x80050001 kmem2 = Panic ''kfree''"
proof -
  have k: "kend kmem2 \<noteq> 0" by (simp add: kmem1_def kmem2_def)
  have "good_page (kend kmem2) 0x80050000" "\<not> good_page (kend kmem2) 0x80050001"
    by (simp_all add: kmem1_def kmem2_def good_page_def page_aligned_def PGSIZE_def PHYSTOP_def
        KERNBASE_def)
  then show ?thesis
    using kfree_spec [OF kmem_examples(3,4) k, where pa = "0x80050000"]
      kfree_spec [OF kmem_examples(3,4) k, where pa = "0x80050001"] by auto
qed

theorem kinit_free_pages_witness:
  "\<exists>t xs. kinit kmem1 = Ret () t \<and> free_pages t xs \<and> set xs = {x. good_page (kend kmem1) x}"
  by (rule kinit_free_pages) (simp_all add: kmem1_def PHYSTOP_def KERNBASE_def)

end
