(* ===== verification/Vm.thy ===== *)
theory Vm
  imports Kalloc
begin

text \<open>
  \<^verbatim>\<open>kernel/vm.c\<close>: Sv39 page tables, held in physical memory as pages of 512 eight-byte
  entries. A kernel buffer that is copied to or from user space is the list of its
  bytes; a \<^verbatim>\<open>pte_t *\<close> is the physical address of the entry, 0 being the null pointer.
  \<open>etext\<close> and \<open>trampoline\<close> are linker symbols.
\<close>

section \<open>State and constants\<close>

record vm_st = kmem_st +
  kernel_pagetable :: u64
  etext :: u64
  trampoline :: u64

definition PTE_V :: u64 where "PTE_V = 1"
definition PTE_R :: u64 where "PTE_R = 2"
definition PTE_W :: u64 where "PTE_W = 4"
definition PTE_X :: u64 where "PTE_X = 8"
definition PTE_U :: u64 where "PTE_U = 16"

definition PA2PTE :: "u64 \<Rightarrow> u64" where "PA2PTE pa = push_bit 10 (drop_bit 12 pa)"
definition PTE2PA :: "u64 \<Rightarrow> u64" where "PTE2PA pte = push_bit 12 (drop_bit 10 pte)"
definition PTE_FLAGS :: "u64 \<Rightarrow> u64" where "PTE_FLAGS pte = pte AND 0x3FF"

definition PXSHIFT :: "nat \<Rightarrow> nat" where "PXSHIFT level = 12 + 9 * level"
definition PX :: "nat \<Rightarrow> u64 \<Rightarrow> u64" where "PX level va = drop_bit (PXSHIFT level) va AND 0x1FF"

definition MAXVA :: u64 where "MAXVA = push_bit 38 1"
definition TRAMPOLINE :: u64 where "TRAMPOLINE = MAXVA - PGSIZE"
definition TRAPFRAME :: u64 where "TRAPFRAME = TRAMPOLINE - PGSIZE"
definition KSTACK :: "nat \<Rightarrow> u64" where "KSTACK p = TRAMPOLINE - (of_nat p + 1) * 2 * PGSIZE"
definition UART0 :: u64 where "UART0 = 0x10000000"
definition VIRTIO0 :: u64 where "VIRTIO0 = 0x10001000"
definition PLIC :: u64 where "PLIC = 0x0c000000"
definition CLINT :: u64 where "CLINT = 0x02000000"

lemmas pte_bits = PTE_V_def PTE_R_def PTE_W_def PTE_X_def PTE_U_def

section \<open>Walking a page table\<close>

definition pte_addr :: "u64 \<Rightarrow> u64 \<Rightarrow> u64" where
  "pte_addr pagetable i = pagetable + 8 * i"

definition read_pte :: "u64 \<Rightarrow> ('x kmem_st_scheme, u64) kop" where
  "read_pte a = get (\<lambda>s. load64 (mem s) a)"

definition write_pte :: "u64 \<Rightarrow> u64 \<Rightarrow> ('x kmem_st_scheme, unit) kop" where
  "write_pte a v = modify (\<lambda>s. s\<lparr>mem := store64 (mem s) a v\<rparr>)"

text \<open>The levels above 0, from \<open>level\<close> down; the result is the level-0 table, if there is one.\<close>

primrec walk_levels :: "nat \<Rightarrow> u64 \<Rightarrow> u64 \<Rightarrow> bool \<Rightarrow> ('x kmem_st_scheme, u64 option) kop" where
  "walk_levels 0 pagetable va alloc = ret (Some pagetable)"
| "walk_levels (Suc l) pagetable va alloc =
     (let pte = pte_addr pagetable (PX (Suc l) va) in
      bind (read_pte pte) (\<lambda>v.
      if v AND PTE_V \<noteq> 0 then walk_levels l (PTE2PA v) va alloc
      else if \<not> alloc then ret None
      else bind kalloc (\<lambda>pt.
        if pt = 0 then ret None
        else seq (kmemset pt 0 4096) (
             seq (write_pte pte (PA2PTE pt OR PTE_V))
             (walk_levels l pt va alloc)))))"

definition walk :: "u64 \<Rightarrow> u64 \<Rightarrow> bool \<Rightarrow> ('x kmem_st_scheme, u64) kop" where
  "walk pagetable va alloc =
     (if va \<ge> MAXVA then panic ''walk''
      else bind (walk_levels 2 pagetable va alloc) (\<lambda>pt.
        ret (case pt of None \<Rightarrow> 0 | Some pt \<Rightarrow> pte_addr pt (PX 0 va))))"

definition walkaddr :: "u64 \<Rightarrow> u64 \<Rightarrow> ('x kmem_st_scheme, u64) kop" where
  "walkaddr pagetable va =
     (if va \<ge> MAXVA then ret 0
      else bind (walk pagetable va False) (\<lambda>pte.
        if pte = 0 then ret 0
        else bind (read_pte pte) (\<lambda>v.
          if v AND PTE_V = 0 then ret 0
          else if v AND PTE_U = 0 then ret 0
          else ret (PTE2PA v))))"

section \<open>Mapping\<close>

text \<open>The loop runs once per page of the range and stops at the page \<open>lst\<close> (\<^verbatim>\<open>last\<close>).\<close>

primrec mappages_loop :: "nat \<Rightarrow> u64 \<Rightarrow> u64 \<Rightarrow> u64 \<Rightarrow> u64 \<Rightarrow> u64 \<Rightarrow> ('x kmem_st_scheme, int) kop" where
  "mappages_loop 0 pagetable a lst pa perm = spin"
| "mappages_loop (Suc k) pagetable a lst pa perm =
     bind (walk pagetable a True) (\<lambda>pte.
     if pte = 0 then ret (- 1)
     else bind (read_pte pte) (\<lambda>v.
       if v AND PTE_V \<noteq> 0 then panic ''mappages: remap''
       else seq (write_pte pte (PA2PTE pa OR perm OR PTE_V))
         (if a = lst then ret 0
          else mappages_loop k pagetable (a + PGSIZE) lst (pa + PGSIZE) perm)))"

definition mappages :: "u64 \<Rightarrow> u64 \<Rightarrow> u64 \<Rightarrow> u64 \<Rightarrow> u64 \<Rightarrow> ('x kmem_st_scheme, int) kop" where
  "mappages pagetable va sz pa perm =
     (if va mod PGSIZE \<noteq> 0 then panic ''mappages: va not aligned''
      else if sz mod PGSIZE \<noteq> 0 then panic ''mappages: size not aligned''
      else if sz = 0 then panic ''mappages: size''
      else mappages_loop (unat (sz div PGSIZE)) pagetable va (va + sz - PGSIZE) pa perm)"

definition kvmmap :: "u64 \<Rightarrow> u64 \<Rightarrow> u64 \<Rightarrow> u64 \<Rightarrow> u64 \<Rightarrow> ('x kmem_st_scheme, unit) kop" where
  "kvmmap kpgtbl va pa sz perm =
     bind (mappages kpgtbl va sz pa perm) (\<lambda>r. kwhen (r \<noteq> 0) (panic ''kvmmap''))"

text \<open>
  \<open>page_steps a e\<close> lists the values of the counter of \<^verbatim>\<open>for(a = ...; a < e; a += PGSIZE)\<close>. The
  bodies of these loops panic at an address of MAXVA or more, long before the counter wraps.
\<close>

function page_steps :: "u64 \<Rightarrow> u64 \<Rightarrow> u64 list" where
  "page_steps a e =
     (if a < e then a # (if a < a + PGSIZE then page_steps (a + PGSIZE) e else []) else [])"
  by pat_completeness auto
termination
  by (relation "measure (\<lambda>(a, e). 2 ^ 64 - unat a)")
    (auto simp: word_less_nat_alt intro!: diff_less_mono2 unsigned_less [where 'a = nat and 'b = 64, simplified])

declare page_steps.simps [simp del]

definition unmap_page :: "u64 \<Rightarrow> bool \<Rightarrow> u64 \<Rightarrow> ('x kmem_st_scheme, unit) kop" where
  "unmap_page pagetable do_free a =
     bind (walk pagetable a False) (\<lambda>pte.
     seq (kwhen (pte = 0) (panic ''uvmunmap: walk'')) (
     bind (read_pte pte) (\<lambda>v.
     seq (kwhen (v AND PTE_V = 0) (panic ''uvmunmap: not mapped'')) (
     seq (kwhen (PTE_FLAGS v = PTE_V) (panic ''uvmunmap: not a leaf'')) (
     seq (kwhen do_free (kfree (PTE2PA v)))
     (write_pte pte 0))))))"

definition uvmunmap :: "u64 \<Rightarrow> u64 \<Rightarrow> u64 \<Rightarrow> bool \<Rightarrow> ('x kmem_st_scheme, unit) kop" where
  "uvmunmap pagetable va npages do_free =
     seq (kwhen (va mod PGSIZE \<noteq> 0) (panic ''uvmunmap: not aligned''))
     (kfor (unmap_page pagetable do_free) (page_steps va (va + npages * PGSIZE)))"

section \<open>User address spaces\<close>

definition uvmcreate :: "('x kmem_st_scheme, u64) kop" where
  "uvmcreate =
     bind kalloc (\<lambda>pagetable.
     if pagetable = 0 then ret 0
     else seq (kmemset pagetable 0 4096) (ret pagetable))"

definition uvmfirst :: "u64 \<Rightarrow> u8 list \<Rightarrow> ('x kmem_st_scheme, unit) kop" where
  "uvmfirst pagetable src =
     (if length src \<ge> 4096 then panic ''uvmfirst: more than a page''
      else bind kalloc (\<lambda>m.
        if m = 0 then undef
        else seq (kmemset m 0 4096) (
             bind (mappages pagetable 0 PGSIZE m (PTE_W OR PTE_R OR PTE_X OR PTE_U)) (\<lambda>_.
             modify (\<lambda>s. s\<lparr>mem := store_bytes (mem s) m src\<rparr>)))))"

text \<open>\<^verbatim>\<open>npages\<close> is an \<^verbatim>\<open>int\<close>: the page count is truncated to 32 bits and sign extended.\<close>

definition uvmdealloc :: "u64 \<Rightarrow> u64 \<Rightarrow> u64 \<Rightarrow> ('x kmem_st_scheme, u64) kop" where
  "uvmdealloc pagetable oldsz newsz =
     (if newsz \<ge> oldsz then ret oldsz
      else seq (kwhen (PGROUNDUP newsz < PGROUNDUP oldsz)
             (let npages = scast (ucast ((PGROUNDUP oldsz - PGROUNDUP newsz) div PGSIZE) :: u32)
              in uvmunmap pagetable (PGROUNDUP newsz) npages True))
           (ret newsz))"

definition uvmalloc :: "u64 \<Rightarrow> u64 \<Rightarrow> u64 \<Rightarrow> u64 \<Rightarrow> ('x kmem_st_scheme, u64) kop" where
  "uvmalloc pagetable oldsz newsz xperm =
     (if newsz < oldsz then ret oldsz
      else let oldsz = PGROUNDUP oldsz in
        bind (kfind (\<lambda>a.
            bind kalloc (\<lambda>m.
            if m = 0 then bind (uvmdealloc pagetable a oldsz) (\<lambda>_. ret (Some 0))
            else seq (kmemset m 0 4096) (
              bind (mappages pagetable a PGSIZE m (PTE_R OR PTE_U OR xperm)) (\<lambda>r.
              if r \<noteq> 0
              then seq (kfree m) (bind (uvmdealloc pagetable a oldsz) (\<lambda>_. ret (Some 0)))
              else ret None))))
          (page_steps oldsz newsz)) (\<lambda>failed.
        ret (case failed of Some z \<Rightarrow> z | None \<Rightarrow> newsz)))"

text \<open>
  \<^verbatim>\<open>freewalk\<close> descends one level per call; a page table has three levels, so a run that
  goes deeper is outside the type of the tree and left undefined.
\<close>

primrec freewalk :: "nat \<Rightarrow> u64 \<Rightarrow> ('x kmem_st_scheme, unit) kop" where
  "freewalk 0 pagetable = undef"
| "freewalk (Suc l) pagetable =
     seq (kfor (\<lambda>i.
         let a = pte_addr pagetable (of_nat i) in
         bind (read_pte a) (\<lambda>pte.
         if pte AND PTE_V \<noteq> 0 \<and> pte AND (PTE_R OR PTE_W OR PTE_X) = 0
         then seq (freewalk l (PTE2PA pte)) (write_pte a 0)
         else kwhen (pte AND PTE_V \<noteq> 0) (panic ''freewalk: leaf'')))
       [0..<512])
     (kfree pagetable)"

definition uvmfree :: "u64 \<Rightarrow> u64 \<Rightarrow> ('x kmem_st_scheme, unit) kop" where
  "uvmfree pagetable sz =
     seq (kwhen (sz > 0) (uvmunmap pagetable 0 (PGROUNDUP sz div PGSIZE) True))
     (freewalk 3 pagetable)"

definition uvmcopy :: "u64 \<Rightarrow> u64 \<Rightarrow> u64 \<Rightarrow> ('x kmem_st_scheme, int) kop" where
  "uvmcopy old new sz =
     bind (kfind (\<lambda>i.
         bind (walk old i False) (\<lambda>pte.
         if pte = 0 then panic ''uvmcopy: pte should exist''
         else bind (read_pte pte) (\<lambda>v.
           if v AND PTE_V = 0 then panic ''uvmcopy: page not present''
           else bind kalloc (\<lambda>m.
             if m = 0 then ret (Some i)
             else seq (modify (\<lambda>s. s\<lparr>mem := memmove (mem s) m (PTE2PA v) 4096\<rparr>)) (
               bind (mappages new i PGSIZE m (PTE_FLAGS v)) (\<lambda>r.
               if r \<noteq> 0 then seq (kfree m) (ret (Some i)) else ret None))))))
       (page_steps 0 sz)) (\<lambda>err.
     case err of None \<Rightarrow> ret 0
     | Some i \<Rightarrow> seq (uvmunmap new 0 (i div PGSIZE) True) (ret (- 1)))"

definition uvmclear :: "u64 \<Rightarrow> u64 \<Rightarrow> ('x kmem_st_scheme, unit) kop" where
  "uvmclear pagetable va =
     bind (walk pagetable va False) (\<lambda>pte.
     if pte = 0 then panic ''uvmclear''
     else bind (read_pte pte) (\<lambda>v. write_pte pte (v AND NOT PTE_U)))"

section \<open>Copying between kernel and user\<close>

definition page_room :: "u64 \<Rightarrow> nat" where
  "page_room va = unat (PGSIZE - (va - PGROUNDDOWN va))"

lemma page_offset: "unat (va - PGROUNDDOWN va) = unat va mod 4096"
  by (simp add: PGROUNDDOWN_eq unat_mod_PGSIZE)

lemma page_room_eq: "page_room va = 4096 - unat va mod 4096"
proof -
  have "unat (va - PGROUNDDOWN va) \<le> 4096" by (simp add: page_offset less_imp_le)
  then have "va - PGROUNDDOWN va \<le> 4096" by (simp add: word_le_nat_alt)
  then show ?thesis
    by (simp add: page_room_def PGSIZE_def unat_sub page_offset)
qed

lemma page_room_pos [simp]: "0 < page_room va"
  by (simp add: page_room_eq)

function copyout :: "u64 \<Rightarrow> u64 \<Rightarrow> u8 list \<Rightarrow> ('x kmem_st_scheme, int) kop" where
  "copyout pagetable dstva src =
     (if src = [] then ret 0
      else let va0 = PGROUNDDOWN dstva in
        if va0 \<ge> MAXVA then ret (- 1)
        else bind (walk pagetable va0 False) (\<lambda>pte.
          if pte = 0 then ret (- 1)
          else bind (read_pte pte) (\<lambda>v.
            if v AND PTE_V = 0 \<or> v AND PTE_U = 0 \<or> v AND PTE_W = 0 then ret (- 1)
            else let n = min (page_room dstva) (length src) in
              seq (modify (\<lambda>s. s\<lparr>mem := store_bytes (mem s) (PTE2PA v + (dstva - va0)) (take n src)\<rparr>))
              (copyout pagetable (va0 + PGSIZE) (drop n src)))))"
  by pat_completeness auto
termination
  by (relation "measure (\<lambda>(pt, va, src). length src)") auto

declare copyout.simps [simp del]

text \<open>\<^verbatim>\<open>copyin\<close> returns the bytes it has copied when it succeeds.\<close>

function copyin :: "u64 \<Rightarrow> u64 \<Rightarrow> nat \<Rightarrow> ('x kmem_st_scheme, u8 list option) kop" where
  "copyin pagetable srcva len =
     (if len = 0 then ret (Some [])
      else let va0 = PGROUNDDOWN srcva in
        bind (walkaddr pagetable va0) (\<lambda>pa0.
        if pa0 = 0 then ret None
        else let n = min (page_room srcva) len in
          bind (get (\<lambda>s. load_bytes (mem s) (pa0 + (srcva - va0)) n)) (\<lambda>bs.
          bind (copyin pagetable (va0 + PGSIZE) (len - n)) (\<lambda>rest.
          ret (map_option ((@) bs) rest)))))"
  by pat_completeness auto
termination
  by (relation "measure (\<lambda>(pt, va, len). len)") auto

declare copyin.simps [simp del]

text \<open>
  The inner loop of \<^verbatim>\<open>copyinstr\<close> over the bytes of one page: the bytes before a NUL, and
  whether there was one.
\<close>

definition scan_nul :: "u8 list \<Rightarrow> u8 list \<times> bool" where
  "scan_nul bs = (takeWhile (\<lambda>b. b \<noteq> 0) bs, 0 \<in> set bs)"

function copyinstr :: "u64 \<Rightarrow> u64 \<Rightarrow> nat \<Rightarrow> ('x kmem_st_scheme, u8 list option) kop" where
  "copyinstr pagetable srcva mx =
     (if mx = 0 then ret None
      else let va0 = PGROUNDDOWN srcva in
        bind (walkaddr pagetable va0) (\<lambda>pa0.
        if pa0 = 0 then ret None
        else let n = min (page_room srcva) mx in
          bind (get (\<lambda>s. scan_nul (load_bytes (mem s) (pa0 + (srcva - va0)) n))) (\<lambda>(bs, got_null).
          if got_null then ret (Some bs)
          else bind (copyinstr pagetable (va0 + PGSIZE) (mx - n)) (\<lambda>rest.
            ret (map_option ((@) bs) rest)))))"
  by pat_completeness auto
termination
  by (relation "measure (\<lambda>(pt, va, mx). mx)") auto

declare copyinstr.simps [simp del]

section \<open>The kernel page table\<close>

definition NPROC :: nat where "NPROC = 64"

definition proc_mapstacks :: "u64 \<Rightarrow> ('x kmem_st_scheme, unit) kop" where
  "proc_mapstacks kpgtbl =
     kfor (\<lambda>p.
       bind kalloc (\<lambda>pa.
       seq (kwhen (pa = 0) (panic ''kalloc''))
       (kvmmap kpgtbl (KSTACK p) pa PGSIZE (PTE_R OR PTE_W)))) [0..<NPROC]"

definition kvmmake :: "('x vm_st_scheme, u64) kop" where
  "kvmmake =
     bind kalloc (\<lambda>kpgtbl.
     if kpgtbl = 0 then undef
     else seq (kmemset kpgtbl 0 4096) (
       seq (kvmmap kpgtbl UART0 UART0 PGSIZE (PTE_R OR PTE_W)) (
       seq (kvmmap kpgtbl VIRTIO0 VIRTIO0 PGSIZE (PTE_R OR PTE_W)) (
       seq (kvmmap kpgtbl CLINT CLINT 0x10000 (PTE_R OR PTE_W)) (
       seq (kvmmap kpgtbl PLIC PLIC 0x4000000 (PTE_R OR PTE_W)) (
       bind (get etext) (\<lambda>etext.
       seq (kvmmap kpgtbl KERNBASE KERNBASE (etext - KERNBASE) (PTE_R OR PTE_X)) (
       seq (kvmmap kpgtbl etext etext (PHYSTOP - etext) (PTE_R OR PTE_W)) (
       bind (get trampoline) (\<lambda>trampoline.
       seq (kvmmap kpgtbl TRAMPOLINE trampoline PGSIZE (PTE_R OR PTE_X)) (
       seq (proc_mapstacks kpgtbl)
       (ret kpgtbl))))))))))))"

definition kvminit :: "('x vm_st_scheme, unit) kop" where
  "kvminit = bind kvmmake (\<lambda>pt. modify (\<lambda>s. s\<lparr>kernel_pagetable := pt\<rparr>))"

section \<open>Page-table entries\<close>

text \<open>The entry that \<^verbatim>\<open>mappages\<close> writes for a page gives back exactly the page and the
  permission bits: packing an aligned physical address of at most 56 bits with ten flag bits and
  unpacking it loses nothing.\<close>

theorem pte_roundtrip:
  assumes "page_aligned pa" "pa < 2 ^ 56" "perm < 2 ^ 10"
  shows "PTE2PA (PA2PTE pa OR perm OR PTE_V) = pa \<and>
    PTE_FLAGS (PA2PTE pa OR perm OR PTE_V) = perm OR PTE_V"
proof
  have low: "\<not> bit pa i" if "i < 12" for i
  proof -
    have "take_bit 12 pa = 0" using assms(1)
      by (simp add: take_bit_eq_mod page_aligned_def PGSIZE_def)
    then have "\<not> bit (take_bit 12 pa) i" by simp
    then show ?thesis using that by (simp add: bit_take_bit_iff)
  qed
  have high: "\<not> bit pa i" if "56 \<le> i" for i
    using assms(2) that by (intro not_bit_above [of pa 56]) (simp_all add: word_less_nat_alt)
  have perm: "\<not> bit perm i" if "10 \<le> i" for i
    using assms(3) that by (intro not_bit_above [of perm 10]) (simp_all add: word_less_nat_alt)
  have range: "12 \<le> i \<and> i < 56" if "bit pa i" for i
    using that low high by (meson linorder_not_less)
  show "PTE2PA (PA2PTE pa OR perm OR PTE_V) = pa"
  proof (rule bit_word_eqI)
    fix n :: nat
    show "bit (PTE2PA (PA2PTE pa OR perm OR PTE_V)) n \<longleftrightarrow> bit pa n"
      using range [of n] perm [of "n - 2"]
      by (cases "12 \<le> n") (auto simp: PTE2PA_def PA2PTE_def PTE_V_def bit_simps)
  qed
  have m: "(0x3FF :: u64) = mask 10" by (simp add: mask_eq_exp_minus_1)
  have small: "i < 10" if "bit perm i" for i using that perm by (meson linorder_not_less)
  show "PTE_FLAGS (PA2PTE pa OR perm OR PTE_V) = perm OR PTE_V"
    unfolding PTE_FLAGS_def m PA2PTE_def PTE_V_def
    by (rule bit_word_eqI) (auto simp: bit_simps dest: small)
qed

section \<open>Address translation\<close>

text \<open>
  The translation that the page table in \<open>m\<close> defines, as a function: \<open>table_at\<close> follows the
  non-leaf levels, \<open>leaf_slot\<close> is the address of the leaf entry, \<open>user_page\<close> the physical page of a
  user-accessible virtual page, and \<open>user_byte\<close> the byte at a user virtual address.
\<close>

primrec table_at :: "u64 memory \<Rightarrow> nat \<Rightarrow> u64 \<Rightarrow> u64 \<Rightarrow> u64 option" where
  "table_at m 0 pt va = Some pt"
| "table_at m (Suc l) pt va =
     (let v = load64 m (pte_addr pt (PX (Suc l) va)) in
      if v AND PTE_V \<noteq> 0 then table_at m l (PTE2PA v) va else None)"

definition leaf_slot :: "u64 memory \<Rightarrow> u64 \<Rightarrow> u64 \<Rightarrow> u64" where
  "leaf_slot m pt va =
     (case table_at m 2 pt va of None \<Rightarrow> 0 | Some t \<Rightarrow> pte_addr t (PX 0 va))"

definition leaf_pte :: "u64 memory \<Rightarrow> u64 \<Rightarrow> u64 \<Rightarrow> u64" where
  "leaf_pte m pt va = (if leaf_slot m pt va = 0 then 0 else load64 m (leaf_slot m pt va))"

definition user_page :: "u64 memory \<Rightarrow> u64 \<Rightarrow> u64 \<Rightarrow> u64" where
  "user_page m pt va =
     (if va \<ge> MAXVA then 0
      else let v = leaf_pte m pt va in
        if v AND PTE_V = 0 \<or> v AND PTE_U = 0 then 0 else PTE2PA v)"

definition user_addr :: "u64 memory \<Rightarrow> u64 \<Rightarrow> u64 \<Rightarrow> u64 option" where
  "user_addr m pt va =
     (let pa = user_page m pt (PGROUNDDOWN va) in
      if pa = 0 then None else Some (pa + (va - PGROUNDDOWN va)))"

definition user_byte :: "u64 memory \<Rightarrow> u64 \<Rightarrow> u64 \<Rightarrow> u8 option" where
  "user_byte m pt va = map_option m (user_addr m pt va)"

lemma walk_levels_table_at: "walk_levels l pt va False s = Ret (table_at (mem s) l pt va) s"
  by (induction l arbitrary: pt) (simp_all add: kexec read_pte_def Let_def)

lemma walk_lookup: "va < MAXVA \<Longrightarrow> walk pt va False s = Ret (leaf_slot (mem s) pt va) s"
  by (simp add: walk_def kexec walk_levels_table_at leaf_slot_def not_le [symmetric])

lemma walkaddr_user_page: "walkaddr pt va s = Ret (user_page (mem s) pt va) s"
  by (cases "MAXVA \<le> va")
    (simp_all add: walkaddr_def kexec walk_lookup read_pte_def user_page_def leaf_pte_def Let_def
      not_le [symmetric] PTE_V_def)

text \<open>Bytes of one page share its translation; the page after it starts at the rounded address.\<close>

lemma PGROUNDDOWN_add:
  assumes "i < page_room va"
  shows "PGROUNDDOWN (va + of_nat i) = PGROUNDDOWN va"
    and "va + of_nat i - PGROUNDDOWN va = va - PGROUNDDOWN va + of_nat i"
proof -
  have lt: "unat va < 2 ^ 64" using unsigned_less [of va, where 'a = nat] by simp
  have i: "unat va mod 4096 + i < 4096" using assms by (simp add: page_room_eq)
  have "unat va div 4096 < 4503599627370496" using lt by (simp add: div_less_iff_less_mult)
  moreover have "unat va = 4096 * (unat va div 4096) + unat va mod 4096" by simp
  ultimately have "unat va + i < 18446744073709551616" using i by linarith
  then have "unat (va + of_nat i) = unat va + i" using i by (simp add: unat_plus_if' unat_of_nat_small)
  moreover have "(unat va + i) - (unat va + i) mod 4096 = unat va - unat va mod 4096"
    using i by (simp add: mod_add_eq [symmetric, of "unat va" i] mod_less)
  ultimately have "unat (PGROUNDDOWN (va + of_nat i)) = unat (PGROUNDDOWN va)"
    by (simp add: unat_PGROUNDDOWN)
  then show "PGROUNDDOWN (va + of_nat i) = PGROUNDDOWN va" by (simp add: word_unat_eq_iff)
qed (simp add: algebra_simps)

lemma next_page: "va + of_nat (page_room va) = PGROUNDDOWN va + PGSIZE"
proof -
  have "of_nat (page_room va) = PGSIZE - (va - PGROUNDDOWN va)" by (simp add: page_room_def)
  then show ?thesis by simp
qed

lemma user_addr_page:
  "i < page_room va \<Longrightarrow> user_addr m pt (va + of_nat i) =
     (let pa = user_page m pt (PGROUNDDOWN va) in
      if pa = 0 then None else Some (pa + (va - PGROUNDDOWN va) + of_nat i))"
  unfolding user_addr_def Let_def by (subst (1 2) PGROUNDDOWN_add(1), assumption+)
    (simp add: PGROUNDDOWN_add add.assoc)

section \<open>copyin and copyinstr read user bytes\<close>

lemma those_append: "those (xs @ ys) = (case those xs of None \<Rightarrow> None | Some as \<Rightarrow> map_option ((@) as) (those ys))"
  by (induction xs) (cases "those ys", auto split: option.splits)+

lemma those_map_Some: "(\<And>x. x \<in> set xs \<Longrightarrow> f x = Some (g x)) \<Longrightarrow> those (map f xs) = Some (map g xs)"
  by (induction xs) simp_all

lemma those_None: "x \<in> set xs \<Longrightarrow> x = None \<Longrightarrow> those xs = None"
  by (induction xs) (auto split: option.splits)

definition user_bytes :: "u64 memory \<Rightarrow> u64 \<Rightarrow> u64 \<Rightarrow> nat \<Rightarrow> u8 list option" where
  "user_bytes m pt va len = those (map (\<lambda>i. user_byte m pt (va + of_nat i)) [0..<len])"

lemma user_bytes_0 [simp]: "user_bytes m pt va 0 = Some []"
  by (simp add: user_bytes_def)

lemma user_bytes_split:
  assumes "n \<le> len"
  shows "user_bytes m pt va len =
    (case user_bytes m pt va n of None \<Rightarrow> None
     | Some bs \<Rightarrow> map_option ((@) bs) (user_bytes m pt (va + of_nat n) (len - n)))"
proof -
  have "[0..<len] = [0..<n] @ map (\<lambda>i. i + n) [0..<len - n]"
    using assms upt_add_eq_append [of 0 n "len - n"] by (simp add: map_add_upt)
  then show ?thesis
    unfolding user_bytes_def by (simp add: those_append o_def add_ac cong: option.case_cong)
qed

lemma user_bytes_in_page:
  assumes "n \<le> page_room va" "0 < n"
  shows "user_bytes m pt va n =
    (let pa = user_page m pt (PGROUNDDOWN va) in
     if pa = 0 then None else Some (load_bytes m (pa + (va - PGROUNDDOWN va)) n))"
proof (cases "user_page m pt (PGROUNDDOWN va) = 0")
  case True
  then have "user_byte m pt (va + of_nat 0) = None"
    using user_addr_page [of 0 va m pt] by (simp add: user_byte_def)
  then have "None \<in> set (map (\<lambda>i. user_byte m pt (va + of_nat i)) [0..<n])"
    using assms(2) by (force simp: image_iff)
  with True show ?thesis by (simp add: user_bytes_def those_None)
next
  case False
  let ?g = "\<lambda>i. m (user_page m pt (PGROUNDDOWN va) + (va - PGROUNDDOWN va) + of_nat i)"
  have "user_byte m pt (va + of_nat i) = Some (?g i)" if "i \<in> set [0..<n]" for i
    using False assms(1) that by (simp add: user_byte_def user_addr_page)
  then have "user_bytes m pt va n = Some (map ?g [0..<n])"
    unfolding user_bytes_def by (rule those_map_Some)
  with False show ?thesis by (simp add: load_bytes_def)
qed

lemma min_room_split:
  assumes "len \<noteq> 0"
  shows "user_bytes m pt va len =
    (let pa = user_page m pt (PGROUNDDOWN va); n = min (page_room va) len in
     if pa = 0 then None
     else map_option ((@) (load_bytes m (pa + (va - PGROUNDDOWN va)) n))
       (user_bytes m pt (PGROUNDDOWN va + PGSIZE) (len - n)))"
proof -
  define n where "n = min (page_room va) len"
  have "user_bytes m pt (va + of_nat n) (len - n) =
      user_bytes m pt (PGROUNDDOWN va + PGSIZE) (len - n)"
    by (cases "page_room va \<le> len") (simp_all add: n_def next_page)
  moreover have "0 < n" "n \<le> page_room va" "n \<le> len" using assms by (simp_all add: n_def)
  ultimately show ?thesis
    using user_bytes_split [of n len m pt va] user_bytes_in_page [of n va m pt]
    unfolding n_def [symmetric] Let_def by simp
qed

lemma copyin_user_bytes:
  fixes s :: "'x kmem_st_scheme"
  shows "copyin pt va len s = Ret (user_bytes (mem s) pt va len) s"
proof (induction pt va len arbitrary: s rule: copyin.induct)
  case (1 pt va len)
  show ?case
  proof (cases "len = 0")
    case True
    then show ?thesis by (simp add: copyin.simps)
  next
    case False
    have IH: "copyin pt (PGROUNDDOWN va + PGSIZE) (len - min (page_room va) len) t =
        Ret (user_bytes (mem t) pt (PGROUNDDOWN va + PGSIZE) (len - min (page_room va) len)) t"
      for t :: "'x kmem_st_scheme"
      by (rule "1.IH" [OF False refl one_neq_zero refl])
    show ?thesis
      using False
      by (subst copyin.simps, subst min_room_split [OF False])
        (simp add: kexec walkaddr_user_page Let_def IH)
  qed
qed

section \<open>copyout writes user bytes\<close>

text \<open>\<open>slots m pt va\<close> are the page-table entries that the translation of \<open>va\<close> reads.\<close>

primrec table_slots :: "u64 memory \<Rightarrow> nat \<Rightarrow> u64 \<Rightarrow> u64 \<Rightarrow> u64 list" where
  "table_slots m 0 pt va = []"
| "table_slots m (Suc l) pt va =
     (let a = pte_addr pt (PX (Suc l) va); v = load64 m a in
      a # (if v AND PTE_V \<noteq> 0 then table_slots m l (PTE2PA v) va else []))"

definition slots :: "u64 memory \<Rightarrow> u64 \<Rightarrow> u64 \<Rightarrow> u64 list" where
  "slots m pt va = table_slots m 2 pt va @ [leaf_slot m pt va]"

lemma table_at_cong:
  assumes "\<And>a. a \<in> set (table_slots m l pt va) \<Longrightarrow> load64 m' a = load64 m a"
  shows "table_at m' l pt va = table_at m l pt va \<and> table_slots m' l pt va = table_slots m l pt va"
  using assms by (induction l arbitrary: pt) (auto simp: Let_def)

lemma translation_cong:
  assumes "\<And>a. a \<in> set (slots m pt va) \<Longrightarrow> load64 m' a = load64 m a"
  shows "slots m' pt va = slots m pt va" "leaf_pte m' pt va = leaf_pte m pt va"
proof -
  have t: "table_at m' 2 pt va = table_at m 2 pt va \<and> table_slots m' 2 pt va = table_slots m 2 pt va"
    by (rule table_at_cong) (use assms in \<open>simp add: slots_def\<close>)
  then have "leaf_slot m' pt va = leaf_slot m pt va" by (simp add: leaf_slot_def)
  with t assms show "slots m' pt va = slots m pt va" "leaf_pte m' pt va = leaf_pte m pt va"
    by (simp_all add: slots_def leaf_pte_def)
qed

text \<open>
  \<open>writable m pt va n f\<close>: the \<open>n\<close> bytes from \<open>va\<close> are mapped for user writing, byte \<open>i\<close> at physical
  address \<open>f i\<close>, and none of these addresses lies in an entry that translates one of the bytes.
\<close>

definition writable :: "u64 memory \<Rightarrow> u64 \<Rightarrow> u64 \<Rightarrow> nat \<Rightarrow> (nat \<Rightarrow> u64) \<Rightarrow> bool" where
  "writable m pt va n f \<longleftrightarrow>
     (\<forall>i<n. user_addr m pt (va + of_nat i) = Some (f i) \<and>
       leaf_pte m pt (PGROUNDDOWN (va + of_nat i)) AND PTE_W \<noteq> 0 \<and>
       (\<forall>j<n. \<forall>a\<in>set (slots m pt (PGROUNDDOWN (va + of_nat i))). 8 \<le> unat (f j - a)))"

lemma writable_stable:
  assumes w: "writable m pt va n f" and m': "\<And>x. (\<forall>i<n. x \<noteq> f i) \<Longrightarrow> m' x = m x"
  shows "writable m' pt va n f"
proof -
  have cong: "slots m' pt (PGROUNDDOWN (va + of_nat i)) = slots m pt (PGROUNDDOWN (va + of_nat i)) \<and>
      leaf_pte m' pt (PGROUNDDOWN (va + of_nat i)) = leaf_pte m pt (PGROUNDDOWN (va + of_nat i))"
    if "i < n" for i
  proof -
    have "load64 m' a = load64 m a" if a: "a \<in> set (slots m pt (PGROUNDDOWN (va + of_nat i)))" for a
    proof (rule load64_cong, rule m', intro allI impI)
      fix x j assume "unat (x - a) < 8" "j < n"
      with w \<open>i < n\<close> a show "x \<noteq> f j" unfolding writable_def by (metis linorder_not_less)
    qed
    then show ?thesis using translation_cong by blast
  qed
  then have "user_addr m' pt (va + of_nat i) = user_addr m pt (va + of_nat i)" if "i < n" for i
    using that by (simp add: user_addr_def user_page_def)
  with w cong show ?thesis by (simp add: writable_def)
qed

lemma writable_page:
  assumes "writable m pt va n f" "i < n" "i < page_room va"
  shows "f i = PTE2PA (leaf_pte m pt (PGROUNDDOWN va)) + (va - PGROUNDDOWN va) + of_nat i"
proof -
  have "user_addr m pt (va + of_nat i) = Some (f i)" using assms by (simp add: writable_def)
  then show ?thesis
    using user_addr_page [OF assms(3), of m pt]
    by (auto simp: Let_def user_page_def split: if_splits)
qed

lemma writable_drop:
  "writable m pt va n f \<Longrightarrow> k \<le> n \<Longrightarrow> writable m pt (va + of_nat k) (n - k) (\<lambda>i. f (k + i))"
  unfolding writable_def
proof (intro allI impI)
  fix i assume w: "\<forall>i<n. user_addr m pt (va + of_nat i) = Some (f i) \<and>
       leaf_pte m pt (PGROUNDDOWN (va + of_nat i)) AND PTE_W \<noteq> 0 \<and>
       (\<forall>j<n. \<forall>a\<in>set (slots m pt (PGROUNDDOWN (va + of_nat i))). 8 \<le> unat (f j - a))"
    and "k \<le> n" "i < n - k"
  then have "k + i < n" by simp
  moreover have "va + of_nat k + of_nat i = va + of_nat (k + i)" by simp
  moreover have "k + j < n" if "j < n - k" for j using that by simp
  ultimately show "user_addr m pt (va + of_nat k + of_nat i) = Some (f (k + i)) \<and>
       leaf_pte m pt (PGROUNDDOWN (va + of_nat k + of_nat i)) AND PTE_W \<noteq> 0 \<and>
       (\<forall>j<n - k. \<forall>a\<in>set (slots m pt (PGROUNDDOWN (va + of_nat k + of_nat i))). 8 \<le> unat (f (k + j) - a))"
    using w by metis
qed

lemma store_chunk:
  fixes m :: "u64 memory"
  assumes "n \<le> 4096" "n \<le> length src" "\<And>i. i < n \<Longrightarrow> f i = b + of_nat i"
  shows "i < n \<Longrightarrow> store_bytes m b (take n src) (f i) = src ! i"
    and "(\<forall>i<n. x \<noteq> f i) \<Longrightarrow> store_bytes m b (take n src) x = m x"
proof -
  have len: "length (take n src) = n" using assms by simp
  show "store_bytes m b (take n src) (f i) = src ! i" if "i < n"
    using that assms len by (simp add: store_bytes_word unat_of_nat_small)
  show "store_bytes m b (take n src) x = m x" if "\<forall>i<n. x \<noteq> f i"
  proof -
    have "\<not> unat (x - b) < n"
    proof
      assume lt: "unat (x - b) < n"
      then have "f (unat (x - b)) = x" using assms(3) by simp
      with lt that show False by metis
    qed
    then show ?thesis using len assms(1) by (simp add: store_bytes_word)
  qed
qed

lemma copyout_step:
  assumes "src \<noteq> []" "writable (mem s) pt va (length src) f"
  shows "copyout pt va src s =
    (let n = min (page_room va) (length src) in
     copyout pt (PGROUNDDOWN va + PGSIZE) (drop n src) (s\<lparr>mem := store_bytes (mem s) (f 0) (take n src)\<rparr>))"
proof -
  let ?v = "leaf_pte (mem s) pt (PGROUNDDOWN va)"
  have f0: "f 0 = PTE2PA ?v + (va - PGROUNDDOWN va)"
    using writable_page [OF assms(2), of 0] assms(1) by simp
  have "user_addr (mem s) pt (va + of_nat 0) = Some (f 0)" "?v AND PTE_W \<noteq> 0"
    using assms(2) [unfolded writable_def, rule_format, of 0] assms(1) by simp_all
  then have "user_page (mem s) pt (PGROUNDDOWN va) \<noteq> 0" "?v AND PTE_W \<noteq> 0"
    by (auto simp: user_addr_def Let_def)
  then have v: "PGROUNDDOWN va < MAXVA" "?v AND PTE_V \<noteq> 0" "?v AND PTE_U \<noteq> 0" "?v AND PTE_W \<noteq> 0"
    by (simp_all add: user_page_def Let_def split: if_splits)
  then have "leaf_slot (mem s) pt (PGROUNDDOWN va) \<noteq> 0" by (auto simp: leaf_pte_def)
  moreover from this have "load64 (mem s) (leaf_slot (mem s) pt (PGROUNDDOWN va)) = ?v" by (simp add: leaf_pte_def)
  ultimately show ?thesis using v f0 assms(1)
    by (subst copyout.simps) (simp add: kexec walk_lookup read_pte_def Let_def not_le [symmetric])
qed

lemma copyout_writable:
  assumes "writable (mem s) pt va (length src) f" "inj_on f {..<length src}"
  shows "\<exists>m. copyout pt va src s = Ret 0 (s\<lparr>mem := m\<rparr>) \<and> (\<forall>i<length src. m (f i) = src ! i) \<and>
    (\<forall>x. (\<forall>i<length src. x \<noteq> f i) \<longrightarrow> m x = mem s x)"
  using assms
proof (induction "length src" arbitrary: src va f s rule: less_induct)
  case less
  show ?case
  proof (cases "src = []")
    case True
    then show ?thesis by (auto simp: copyout.simps intro: exI [of _ "mem s"])
  next
    case False
    define n where "n = min (page_room va) (length src)"
    have n: "0 < n" "n \<le> length src" "n \<le> 4096" "n \<le> page_room va"
      using False page_room_eq [of va] by (auto simp: n_def min_def)
    define m1 where "m1 = store_bytes (mem s) (f 0) (take n src)"
    have fi: "f i = f 0 + of_nat i" if "i < n" for i
      using writable_page [OF less.prems(1), of i] writable_page [OF less.prems(1), of 0] that n False by simp
    have m1: "i < n \<Longrightarrow> m1 (f i) = src ! i" "(\<forall>i<n. x \<noteq> f i) \<Longrightarrow> m1 x = mem s x" for i x
      unfolding m1_def using store_chunk [OF n(3,2) fi] by blast+
    have "writable m1 pt va (length src) f"
      using less.prems(1) by (rule writable_stable) (use m1(2) n in auto)
    then have "writable m1 pt (va + of_nat n) (length src - n) (\<lambda>i. f (n + i))"
      using n(2) by (rule writable_drop)
    moreover have "inj_on (\<lambda>i. f (n + i)) {..<length (drop n src)}"
    proof (rule inj_onI)
      fix x y assume "x \<in> {..<length (drop n src)}" "y \<in> {..<length (drop n src)}" "f (n + x) = f (n + y)"
      then have "n + x = n + y" using inj_onD [OF less.prems(2), of "n + x" "n + y"] by simp
      then show "x = y" by simp
    qed
    ultimately have "\<exists>m. copyout pt (va + of_nat n) (drop n src) (s\<lparr>mem := m1\<rparr>) = Ret 0 (s\<lparr>mem := m\<rparr>) \<and>
        (\<forall>i<length (drop n src). m (f (n + i)) = drop n src ! i) \<and>
        (\<forall>x. (\<forall>i<length (drop n src). x \<noteq> f (n + i)) \<longrightarrow> m x = m1 x)"
      using less.hyps [of "drop n src" "s\<lparr>mem := m1\<rparr>" "va + of_nat n" "\<lambda>i. f (n + i)"] n by simp
    then obtain m where m: "copyout pt (va + of_nat n) (drop n src) (s\<lparr>mem := m1\<rparr>) = Ret 0 (s\<lparr>mem := m\<rparr>)"
      "\<And>i. i < length src - n \<Longrightarrow> m (f (n + i)) = drop n src ! i"
      "\<And>x. (\<forall>i<length src - n. x \<noteq> f (n + i)) \<Longrightarrow> m x = m1 x"
      by auto
    have "copyout pt (PGROUNDDOWN va + PGSIZE) (drop n src) (s\<lparr>mem := m1\<rparr>) =
        copyout pt (va + of_nat n) (drop n src) (s\<lparr>mem := m1\<rparr>)"
      by (cases "page_room va \<le> length src") (simp_all add: n_def next_page copyout.simps)
    then have "copyout pt va src s = Ret 0 (s\<lparr>mem := m\<rparr>)"
      using copyout_step [OF False less.prems(1)] m(1) unfolding n_def [symmetric] m1_def by (simp add: Let_def)
    moreover have "m (f i) = src ! i" if "i < length src" for i
    proof (cases "i < n")
      case True
      then have "f i \<noteq> f (n + j)" if "j < length src - n" for j
        using inj_onD [OF less.prems(2), of i "n + j"] that n(2) less_diff_conv [of j "length src" n]
        by (auto simp: add.commute)
      then show ?thesis using m(3) [of "f i"] m1(1) [OF True] by simp
    next
      case False
      then show ?thesis using m(2) [of "i - n"] that by simp
    qed
    moreover have "m x = mem s x" if "\<forall>i<length src. x \<noteq> f i" for x
      using m(3) [of x] m1(2) [of x] that n(2) by auto
    ultimately show ?thesis by blast
  qed
qed

text \<open>C12: Writing a buffer to user memory and reading it back returns the buffer. For a range that
  is mapped for user writing, whose bytes have distinct physical addresses and whose page-table
  entries lie outside the range, \<^verbatim>\<open>copyout\<close> succeeds, changes only the bytes of the range, and
  \<^verbatim>\<open>copyin\<close> of the same range then returns exactly what was written.\<close>

theorem copyout_copyin:
  assumes "writable (mem s) pt va (length src) f" "inj_on f {..<length src}"
  shows "\<exists>t. copyout pt va src s = Ret 0 t \<and> copyin pt va (length src) t = Ret (Some src) t \<and>
    (\<forall>x. (\<forall>i<length src. x \<noteq> f i) \<longrightarrow> mem t x = mem s x)"
proof -
  obtain m where m: "copyout pt va src s = Ret 0 (s\<lparr>mem := m\<rparr>)" "\<And>i. i < length src \<Longrightarrow> m (f i) = src ! i"
      "\<And>x. (\<forall>i<length src. x \<noteq> f i) \<Longrightarrow> m x = mem s x"
    using copyout_writable [OF assms] by auto
  have "writable m pt va (length src) f" using assms(1) m(3) by (rule writable_stable)
  then have "user_byte m pt (va + of_nat i) = Some (src ! i)" if "i \<in> set [0..<length src]" for i
    using that m(2) by (simp add: user_byte_def writable_def)
  then have "user_bytes m pt va (length src) = Some (map ((!) src) [0..<length src])"
    unfolding user_bytes_def by (rule those_map_Some)
  then have "copyin pt va (length src) (s\<lparr>mem := m\<rparr>) = Ret (Some src) (s\<lparr>mem := m\<rparr>)"
    using copyin_user_bytes [of pt va "length src" "s\<lparr>mem := m\<rparr>"] by (simp add: map_nth)
  with m show ?thesis by (intro exI [of _ "s\<lparr>mem := m\<rparr>"]) simp
qed

text \<open>C33: \<^verbatim>\<open>copyin\<close> returns exactly the bytes that the user page table shows at the requested
  virtual addresses, across any number of pages, and fails exactly when one of them is not mapped
  for user access; it never changes the state.\<close>

theorem copyin_spec: "copyin pt va len s = Ret (user_bytes (mem s) pt va len) s"
  by (rule copyin_user_bytes)

text \<open>An address space with two writable pages, and a write that crosses from one to the other.\<close>

definition vm_mem1 :: "u64 memory" where
  "vm_mem1 = store64 (store64 (store64 (store64 (\<lambda>_. 0)
     0x80100000 (PA2PTE 0x80101000 OR PTE_V)) 0x80101000 (PA2PTE 0x80102000 OR PTE_V))
     0x80102000 (PA2PTE 0x80103000 OR PTE_V OR PTE_R OR PTE_W OR PTE_U))
     0x80102008 (PA2PTE 0x80105000 OR PTE_V OR PTE_R OR PTE_W OR PTE_U)"

definition phys1 :: "nat \<Rightarrow> u64" where
  "phys1 i = (if i = 0 then 0x80103FFF else 0x80105000)"

lemma ex_PX: "PX (Suc (Suc 0)) 0 = 0" "PX (Suc 0) 0 = 0" "PX 0 0 = 0" "PX (Suc (Suc 0)) 0x1000 = 0" "PX (Suc 0) 0x1000 = 0" "PX 0 0x1000 = 1"
  by code_simp+

lemma ex_PA2PTE: "PA2PTE 0x80101000 = 0x20040400" "PA2PTE 0x80102000 = 0x20040800" "PA2PTE 0x80103000 = 0x20040C00"
  "PA2PTE 0x80105000 = 0x20041400"
  by code_simp+

lemma ex_PTE2PA: "PTE2PA 0x20040401 = 0x80101000" "PTE2PA 0x20040801 = 0x80102000" "PTE2PA 0x20040C17 = 0x80103000"
  "PTE2PA 0x20041417 = 0x80105000" 
  by code_simp+

lemma ex_load: "load64 vm_mem1 0x80100000 = 0x20040401" "load64 vm_mem1 0x80101000 = 0x20040801"
  "load64 vm_mem1 0x80102000 = 0x20040C17" "load64 vm_mem1 0x80102008 = 0x20041417"
   by (simp_all add: vm_mem1_def load64_store64_other ex_PA2PTE pte_bits)

lemma ex_round: "PGROUNDDOWN 0xFFF = 0" "PGROUNDDOWN 0x1000 = 0x1000"  "0 < MAXVA" "0x1000 < MAXVA"
  by code_simp+

lemma ex_table: "table_at vm_mem1 2 0x80100000 0 = Some 0x80102000" "table_at vm_mem1 2 0x80100000 0x1000 = Some 0x80102000"
   by (simp_all add: numeral_2_eq_2 Let_def pte_addr_def ex_PX ex_load ex_PTE2PA pte_bits)

lemma ex_slots: "set (slots vm_mem1 0x80100000 0) = {0x80100000, 0x80101000, 0x80102000}"
   "set (slots vm_mem1 0x80100000 0x1000) = {0x80100000, 0x80101000, 0x80102008}"
   by (auto simp add: slots_def leaf_slot_def ex_table) (simp_all add: numeral_2_eq_2 Let_def pte_addr_def ex_PX ex_load ex_PTE2PA pte_bits)

lemma ex_leaf: "leaf_pte vm_mem1 0x80100000 0 = 0x20040C17" "leaf_pte vm_mem1 0x80100000 0x1000 = 0x20041417"
   by (simp_all add: leaf_pte_def leaf_slot_def ex_table pte_addr_def ex_PX ex_load)

lemma writable_vm_mem1: "writable vm_mem1 0x80100000 0xFFF 2 phys1"
proof -
  have two: "(\<forall>i<2. P i) \<longleftrightarrow> P 0 \<and> P 1" for P :: "nat \<Rightarrow> bool"
     by (auto simp: less_2_cases_iff)
  show ?thesis unfolding writable_def two
    by (simp add: ex_round ex_leaf ex_slots phys1_def user_addr_def user_page_def ex_PTE2PA pte_bits MAXVA_def Let_def)
qed

theorem copyout_copyin_witness:
  "\<exists>t. copyout 0x80100000 0xFFF [7, 9] (kmem1\<lparr>mem := vm_mem1\<rparr>) = Ret 0 t \<and>
    copyin 0x80100000 0xFFF 2 t = Ret (Some [7, 9]) t"
proof -
  have len: "length [7, 9 :: u8] = 2" by simp
  have "{..<2} = {0, 1 :: nat}" by auto
  then have "inj_on phys1 {..<2}" by (simp add: phys1_def)
  moreover have "writable (mem (kmem1\<lparr>mem := vm_mem1\<rparr>)) 0x80100000 0xFFF 2 phys1"
    using writable_vm_mem1 by simp
  ultimately show ?thesis
    using copyout_copyin [of "kmem1\<lparr>mem := vm_mem1\<rparr>" "0x80100000" "0xFFF" "[7, 9]" phys1]
    unfolding len by blast
qed

theorem pte_roundtrip_witness:
  "PTE2PA (PA2PTE 0x80103000 OR (PTE_R OR PTE_W) OR PTE_V) = 0x80103000"
  using pte_roundtrip [of "0x80103000" "PTE_R OR PTE_W"]
  by (simp add: page_aligned_def PGSIZE_def pte_bits)

end
