(* ===== verification/Proc.thy ===== *)
theory Proc
  imports Vm
begin

text \<open>
  The process table and the context-switching core of \<^verbatim>\<open>kernel/proc.c\<close>: \<^verbatim>\<open>procinit\<close>,
  \<^verbatim>\<open>allocpid\<close>, \<^verbatim>\<open>update_time\<close>, the scheduler with its three policies, \<^verbatim>\<open>sched\<close>, \<^verbatim>\<open>yield\<close>,
  \<^verbatim>\<open>sleep\<close>, \<^verbatim>\<open>wakeup\<close>, \<^verbatim>\<open>kill\<close>, \<^verbatim>\<open>setkilled\<close>, \<^verbatim>\<open>killed\<close>, \<^verbatim>\<open>reparent\<close>.

  A \<^verbatim>\<open>struct proc *\<close> is an index into \<^verbatim>\<open>proc[]\<close>, a null pointer is \<open>None\<close>. An
  operation that gives up the CPU takes a parameter \<open>E\<close>: when the thread switches away, the
  rest of the system runs as \<open>E\<close> says for the next entry of \<open>choices\<close> until the thread is
  resumed; with no entry left the thread is never resumed and the outcome is \<open>Off\<close>.
\<close>

section \<open>State\<close>

datatype procstate = UNUSED | USED | SLEEPING | RUNNABLE | RUNNING | ZOMBIE

text \<open>The addresses the kernel sleeps on.\<close>

datatype chan =
    ChProc nat | ChTicks | ChLog | ChPipeR u64 | ChPipeW u64 | ChBufLock nat | ChInodeLock nat
  | ChDiskFree | ChBuf nat | ChConsR | ChUartTx

record ctx =
  ctx_ra :: u64
  ctx_sp :: u64

record proc =
  state :: procstate
  pchan :: "chan option"
  pkilled :: bool
  xstate :: u32
  pid :: int
  ctime :: u64
  rtime :: u64
  starttime :: u64
  completetime :: u64
  is_benchmark_process :: bool
  priority :: int
  turnaround_time :: u64
  waiting_time :: u64
  responded :: bool
  parent :: "nat option"
  kstack :: u64
  sz :: u64
  pagetable :: u64
  trapframe :: u64
  pctx :: ctx
  ofile :: "nat \<Rightarrow> nat option"
  cwd :: "nat option"
  pname :: "nat memory"

record proc_st = vm_st +
  procs :: "nat \<Rightarrow> proc"
  initproc :: "nat option"
  nextpid :: int
  ticks :: u32
  sched_mode :: int
  global_turnaround_time :: u64
  global_waiting_time :: u64
  total_benchmark_processes :: int
  completed_benchmark_processes :: int

definition SCHED_ROUND_ROBIN :: int where "SCHED_ROUND_ROBIN = 0"
definition SCHED_FCFS :: int where "SCHED_FCFS = 1"
definition SCHED_PRIORITY :: int where "SCHED_PRIORITY = 2"

definition upd_proc :: "nat \<Rightarrow> (proc \<Rightarrow> proc) \<Rightarrow> ('x proc_st_scheme, unit) kop" where
  "upd_proc p f = modify (\<lambda>s. s\<lparr>procs := (procs s)(p := f (procs s p))\<rparr>)"

lemma hs_procs_order [upd_order]: "s\<lparr>hs := h, procs := P\<rparr> = s\<lparr>procs := P, hs := h\<rparr>"
  by simp

section \<open>Table operations\<close>

definition procinit :: "('x proc_st_scheme, unit) kop" where
  "procinit =
     seq (initlock PidLock ''nextpid'') (
     seq (initlock WaitLock ''wait_lock'')
     (kfor (\<lambda>p.
        seq (initlock (ProcLock p) ''proc'')
        (upd_proc p (\<lambda>r. r\<lparr>state := UNUSED, kstack := KSTACK p\<rparr>))) [0..<NPROC]))"

definition allocpid :: "('x proc_st_scheme, int) kop" where
  "allocpid =
     seq (acquire PidLock) (
     bind (get nextpid) (\<lambda>pid.
     seq (modify (\<lambda>s. s\<lparr>nextpid := nextpid s + 1\<rparr>)) (
     seq (release PidLock)
     (ret pid))))"

definition update_time :: "('x proc_st_scheme, unit) kop" where
  "update_time =
     kfor (\<lambda>p.
       seq (acquire (ProcLock p)) (
       bind (get (\<lambda>s. state (procs s p))) (\<lambda>st.
       seq (kwhen (st = RUNNING) (upd_proc p (\<lambda>r. r\<lparr>rtime := rtime r + 1\<rparr>)))
       (release (ProcLock p))))) [0..<NPROC]"

definition wakeup :: "chan option \<Rightarrow> ('x proc_st_scheme, unit) kop" where
  "wakeup chan =
     kfor (\<lambda>p.
       bind myproc (\<lambda>me.
       kwhen (me \<noteq> Some p) (
         seq (acquire (ProcLock p)) (
         bind (get (\<lambda>s. procs s p)) (\<lambda>r.
         seq (kwhen (state r = SLEEPING \<and> pchan r = chan) (upd_proc p (\<lambda>r. r\<lparr>state := RUNNABLE\<rparr>)))
         (release (ProcLock p))))))) [0..<NPROC]"

definition kill :: "int \<Rightarrow> ('x proc_st_scheme, int) kop" where
  "kill pd =
     bind (kfind (\<lambda>p.
         seq (acquire (ProcLock p)) (
         bind (get (\<lambda>s. procs s p)) (\<lambda>r.
         if pid r = pd
         then seq (upd_proc p (\<lambda>r. r\<lparr>pkilled := True\<rparr>)) (
              seq (kwhen (state r = SLEEPING) (upd_proc p (\<lambda>r. r\<lparr>state := RUNNABLE\<rparr>))) (
              seq (release (ProcLock p))
              (ret (Some 0))))
         else seq (release (ProcLock p)) (ret None)))) [0..<NPROC]) (\<lambda>r.
     ret (case r of Some z \<Rightarrow> z | None \<Rightarrow> - 1))"

definition setkilled :: "nat \<Rightarrow> ('x proc_st_scheme, unit) kop" where
  "setkilled p =
     seq (acquire (ProcLock p)) (
     seq (upd_proc p (\<lambda>r. r\<lparr>pkilled := True\<rparr>))
     (release (ProcLock p)))"

definition killed :: "nat \<Rightarrow> ('x proc_st_scheme, bool) kop" where
  "killed p =
     seq (acquire (ProcLock p)) (
     bind (get (\<lambda>s. pkilled (procs s p))) (\<lambda>k.
     seq (release (ProcLock p))
     (ret k)))"

text \<open>\<^verbatim>\<open>wakeup(initproc)\<close>: a null \<^verbatim>\<open>initproc\<close> is the null channel.\<close>

definition reparent :: "nat \<Rightarrow> ('x proc_st_scheme, unit) kop" where
  "reparent p =
     kfor (\<lambda>pp.
       bind (get (\<lambda>s. parent (procs s pp))) (\<lambda>par.
       kwhen (par = Some p) (
         bind (get initproc) (\<lambda>ip.
         seq (upd_proc pp (\<lambda>r. r\<lparr>parent := ip\<rparr>))
         (wakeup (map_option ChProc ip)))))) [0..<NPROC]"

section \<open>Giving up the CPU\<close>

definition swtch :: "(nat \<Rightarrow> 'x kst_scheme \<Rightarrow> 'x kst_scheme) \<Rightarrow> ('x kst_scheme, unit) kop" where
  "swtch E s = (case choices s of [] \<Rightarrow> Off s | c # cs \<Rightarrow> Ret () (E c (s\<lparr>choices := cs\<rparr>)))"

definition sched :: "(nat \<Rightarrow> 'x proc_st_scheme \<Rightarrow> 'x proc_st_scheme) \<Rightarrow> ('x proc_st_scheme, unit) kop" where
  "sched E =
     bind myproc (\<lambda>p.
     bind (deref p) (\<lambda>p.
     bind (holding (ProcLock p)) (\<lambda>h.
     seq (kwhen (\<not> h) (panic ''sched p->lock'')) (
     bind mycpu (\<lambda>c.
     bind (get (\<lambda>s. noff (cpus (hs s) c))) (\<lambda>n.
     seq (kwhen (n \<noteq> 1) (panic ''sched locks'')) (
     bind (get (\<lambda>s. state (procs s p))) (\<lambda>st.
     seq (kwhen (st = RUNNING) (panic ''sched running'')) (
     bind intr_get (\<lambda>i.
     seq (kwhen i (panic ''sched interruptible'')) (
     bind (get (\<lambda>s. intena (cpus (hs s) c))) (\<lambda>intena.
     seq (swtch E) (
     bind mycpu (\<lambda>c. upd_cpu c (\<lambda>r. r\<lparr>intena := intena\<rparr>)))))))))))))))"

definition yield :: "(nat \<Rightarrow> 'x proc_st_scheme \<Rightarrow> 'x proc_st_scheme) \<Rightarrow> ('x proc_st_scheme, unit) kop" where
  "yield E =
     bind myproc (\<lambda>p.
     bind (deref p) (\<lambda>p.
     seq (acquire (ProcLock p)) (
     seq (upd_proc p (\<lambda>r. r\<lparr>state := RUNNABLE\<rparr>)) (
     seq (sched E)
     (release (ProcLock p))))))"

definition sleep ::
  "(nat \<Rightarrow> 'x proc_st_scheme \<Rightarrow> 'x proc_st_scheme) \<Rightarrow> chan \<Rightarrow> lock \<Rightarrow> ('x proc_st_scheme, unit) kop" where
  "sleep E chan lk =
     bind myproc (\<lambda>p.
     bind (deref p) (\<lambda>p.
     seq (acquire (ProcLock p)) (
     seq (release lk) (
     seq (upd_proc p (\<lambda>r. r\<lparr>pchan := Some chan\<rparr>)) (
     seq (upd_proc p (\<lambda>r. r\<lparr>state := SLEEPING\<rparr>)) (
     seq (sched E) (
     seq (upd_proc p (\<lambda>r. r\<lparr>pchan := None\<rparr>)) (
     seq (release (ProcLock p))
     (acquire lk)))))))))"

section \<open>The scheduler\<close>

definition pick_round_robin :: "('x proc_st_scheme, nat option) kop" where
  "pick_round_robin =
     kfind (\<lambda>p.
       seq (acquire (ProcLock p)) (
       bind (get (\<lambda>s. state (procs s p))) (\<lambda>st.
       if st = RUNNABLE then ret (Some p)
       else seq (release (ProcLock p)) (ret None)))) [0..<NPROC]"

definition pick_fcfs :: "('x proc_st_scheme, nat option) kop" where
  "pick_fcfs =
     kfold (\<lambda>p chosen.
       seq (acquire (ProcLock p)) (
       bind (get procs) (\<lambda>P.
       if state (P p) = RUNNABLE
       then if (case chosen of None \<Rightarrow> True | Some c \<Rightarrow> ctime (P p) < ctime (P c))
            then seq (case chosen of None \<Rightarrow> ret () | Some c \<Rightarrow> release (ProcLock c)) (ret (Some p))
            else seq (release (ProcLock p)) (ret chosen)
       else seq (release (ProcLock p)) (ret chosen)))) [0..<NPROC] None"

definition pick_priority :: "('x proc_st_scheme, nat option) kop" where
  "pick_priority =
     kfold (\<lambda>p chosen.
       seq (acquire (ProcLock p)) (
       bind (get procs) (\<lambda>P.
       if state (P p) = RUNNABLE
       then if (case chosen of None \<Rightarrow> True | Some c \<Rightarrow> priority (P p) > priority (P c))
            then seq (case chosen of None \<Rightarrow> ret () | Some c \<Rightarrow> release (ProcLock c)) (ret (Some p))
            else seq (release (ProcLock p)) (ret chosen)
       else seq (release (ProcLock p)) (ret chosen)))) [0..<NPROC] None"

text \<open>
  Running the chosen process \<open>p\<close>, whose lock is held, on the CPU \<open>c\<close>. \<open>R p\<close> stands for what
  happens from the switch to \<open>p\<close> until control comes back to this scheduler.
\<close>

definition run_chosen ::
  "(nat \<Rightarrow> 'x proc_st_scheme \<Rightarrow> 'x proc_st_scheme) \<Rightarrow> nat \<Rightarrow> nat \<Rightarrow> ('x proc_st_scheme, unit) kop" where
  "run_chosen R c p =
     seq (upd_proc p (\<lambda>r. r\<lparr>state := RUNNING\<rparr>)) (
     seq (upd_cpu c (\<lambda>r. r\<lparr>cproc := Some p\<rparr>)) (
     bind (get (\<lambda>s. starttime (procs s p))) (\<lambda>st.
     seq (kwhen (st = 0) (bind (get ticks) (\<lambda>t. upd_proc p (\<lambda>r. r\<lparr>starttime := ucast t\<rparr>)))) (
     seq (modify (R p)) (
     seq (release (ProcLock p))
     (upd_cpu c (\<lambda>r. r\<lparr>cproc := None\<rparr>)))))))"

text \<open>
  One turn of the scheduler loop on the CPU \<open>c\<close>. Without a runnable process the hart waits for
  an interrupt.
\<close>

definition scheduler_turn ::
  "(nat \<Rightarrow> 'x proc_st_scheme \<Rightarrow> 'x proc_st_scheme) \<Rightarrow> nat \<Rightarrow> ('x proc_st_scheme, unit) kop" where
  "scheduler_turn R c =
     seq intr_on (
     bind (get sched_mode) (\<lambda>mode.
     bind (if mode = SCHED_ROUND_ROBIN then pick_round_robin
           else if mode = SCHED_FCFS then pick_fcfs
           else if mode = SCHED_PRIORITY then pick_priority
           else ret None) (\<lambda>chosen.
     case chosen of None \<Rightarrow> ret () | Some p \<Rightarrow> run_chosen R c p)))"

definition scheduler ::
  "(nat \<Rightarrow> 'x proc_st_scheme \<Rightarrow> 'x proc_st_scheme) \<Rightarrow> nat \<Rightarrow> ('x proc_st_scheme, unit) kop" where
  "scheduler R turns =
     bind mycpu (\<lambda>c.
     seq (upd_cpu c (\<lambda>r. r\<lparr>cproc := None\<rparr>))
     (kfor (\<lambda>_. scheduler_turn R c) [0..<turns]))"

section \<open>Scans of the process table\<close>

definition proc_ready :: "'x kst_scheme \<Rightarrow> bool" where
  "proc_ready s \<longleftrightarrow> settled (hs s) \<and> (\<forall>p<NPROC. free (ProcLock p) (hs s))"

definition map_procs :: "(nat \<Rightarrow> proc \<Rightarrow> proc) \<Rightarrow> (nat \<Rightarrow> proc) \<Rightarrow> nat \<Rightarrow> proc" where
  "map_procs h P = (\<lambda>p. if p < NPROC then h p (P p) else P p)"

definition each_proc :: "(nat \<Rightarrow> proc \<Rightarrow> proc) \<Rightarrow> 'x proc_st_scheme \<Rightarrow> 'x proc_st_scheme" where
  "each_proc h s = s\<lparr>procs := map_procs h (procs s)\<rparr>"

lemma each_proc_fields [simp]:
  "hs (each_proc h s) = hs s" "choices (each_proc h s) = choices s"
  "p < NPROC \<Longrightarrow> procs (each_proc h s) p = h p (procs s p)"
  by (simp_all add: each_proc_def map_procs_def)

definition proc_step :: "(nat \<Rightarrow> proc \<Rightarrow> proc) \<Rightarrow> nat \<Rightarrow> 'x proc_st_scheme \<Rightarrow> 'x proc_st_scheme" where
  "proc_step h p s = s\<lparr>procs := (procs s)(p := h p (procs s p))\<rparr>"

lemma fold_proc_step:
  "fold (proc_step h) [0..<n] s =
     s\<lparr>procs := (\<lambda>p. if p < n then h p (procs s p) else procs s p)\<rparr>"
proof (induction n)
  case (Suc n)
  have "(\<lambda>p. if p < n then h p (procs s p) else procs s p)(n := h n (procs s n)) =
      (\<lambda>p. if p < Suc n then h p (procs s p) else procs s p)"
    by (auto simp: fun_eq_iff less_Suc_eq)
  with Suc show ?case by (simp add: proc_step_def)
qed simp

lemma kfor_each_proc:
  assumes "I (hs s)"
    and "\<And>p t. p < NPROC \<Longrightarrow> I (hs t) \<Longrightarrow> body p t = Ret () (proc_step h p t)"
  shows "kfor body [0..<NPROC] s = Ret () (each_proc h s)"
proof -
  have "kfor body [0..<NPROC] s = Ret () (fold (proc_step h) [0..<NPROC] s)"
    by (rule kfor_fold [where I = "\<lambda>t. I (hs t)"]) (use assms in \<open>auto simp: proc_step_def\<close>)
  then show ?thesis by (simp add: fold_proc_step each_proc_def map_procs_def)
qed

definition tick_proc :: "proc \<Rightarrow> proc" where
  "tick_proc r = (if state r = RUNNING then r\<lparr>rtime := rtime r + 1\<rparr> else r)"

definition wake_proc :: "chan option \<Rightarrow> proc \<Rightarrow> proc" where
  "wake_proc ch r = (if state r = SLEEPING \<and> pchan r = ch then r\<lparr>state := RUNNABLE\<rparr> else r)"

lemma update_time_each: "proc_ready s \<Longrightarrow> update_time s = Ret () (each_proc (\<lambda>_. tick_proc) s)"
  unfolding update_time_def
  by (rule kfor_each_proc [where I = "\<lambda>h. settled h \<and> (\<forall>p<NPROC. free (ProcLock p) h)"])
    (auto simp: proc_ready_def kexec lock_rules upd_proc_def tick_proc_def proc_step_def)

lemma wakeup_each:
  assumes "proc_ready s"
  shows "wakeup ch s =
    Ret () (each_proc (\<lambda>p r. if cproc (this_cpu (hs s)) = Some p then r else wake_proc ch r) s)"
  unfolding wakeup_def
  by (rule kfor_each_proc [where I = "\<lambda>h. h = hs s"])
    (use assms in \<open>auto simp: proc_ready_def kexec lock_rules upd_proc_def wake_proc_def proc_step_def\<close>)

lemma kill_first:
  assumes "proc_ready s"
  shows "kill pd s = (case first_idx (\<lambda>p. pid (procs s p) = pd) NPROC of
      None \<Rightarrow> Ret (- 1) s
    | Some p \<Rightarrow> Ret 0 (s\<lparr>procs := (procs s)(p := (procs s p)\<lparr>pkilled := True,
        state := if state (procs s p) = SLEEPING then RUNNABLE else state (procs s p)\<rparr>)\<rparr>))"
proof -
  let ?body = "\<lambda>p.
         seq (acquire (ProcLock p)) (
         bind (get (\<lambda>s. procs s p)) (\<lambda>r.
         if pid r = pd
         then seq (upd_proc p (\<lambda>r. r\<lparr>pkilled := True\<rparr>)) (
              seq (kwhen (state r = SLEEPING) (upd_proc p (\<lambda>r. r\<lparr>state := RUNNABLE\<rparr>))) (
              seq (release (ProcLock p))
              (ret (Some (0 :: int)))))
         else seq (release (ProcLock p)) (ret None)))"
  have "kfind ?body [0..<NPROC] s =
    (case first_idx (\<lambda>p. pid (procs s p) = pd) NPROC of None \<Rightarrow> Ret None s
     | Some j \<Rightarrow> Ret (Some 0) (s\<lparr>procs := (procs s)(j := (procs s j)\<lparr>pkilled := True,
        state := if state (procs s j) = SLEEPING then RUNNABLE else state (procs s j)\<rparr>)\<rparr>))"
    by (rule kfind_first_idx) (use assms in \<open>auto simp: proc_ready_def kexec lock_rules upd_proc_def\<close>)
  then show ?thesis by (simp add: kill_def kexec split: option.splits)
qed

lemma setkilled_eq:
  "proc_ready s \<Longrightarrow> p < NPROC \<Longrightarrow>
     setkilled p s = Ret () (s\<lparr>procs := (procs s)(p := (procs s p)\<lparr>pkilled := True\<rparr>)\<rparr>)"
  by (simp add: setkilled_def proc_ready_def kexec lock_rules upd_proc_def)

lemma killed_eq: "proc_ready s \<Longrightarrow> p < NPROC \<Longrightarrow> killed p s = Ret (pkilled (procs s p)) s"
  by (simp add: killed_def proc_ready_def kexec lock_rules)

lemma allocpid_eq:
  "settled (hs s) \<Longrightarrow> free PidLock (hs s) \<Longrightarrow>
     allocpid s = Ret (nextpid s) (s\<lparr>nextpid := nextpid s + 1\<rparr>)"
  by (simp add: allocpid_def kexec lock_rules)

section \<open>What the policies choose\<close>

definition hold :: "nat option \<Rightarrow> harts \<Rightarrow> harts" where
  "hold ch h = (case ch of None \<Rightarrow> h | Some c \<Rightarrow> acq (ProcLock c) h)"

text \<open>The running choice of the FCFS and priority scans, for an order \<open>better\<close> on processes.\<close>

primrec select :: "(proc \<Rightarrow> proc \<Rightarrow> bool) \<Rightarrow> (nat \<Rightarrow> proc) \<Rightarrow> nat \<Rightarrow> nat option" where
  "select better P 0 = None"
| "select better P (Suc p) =
     (let ch = select better P p in
      if state (P p) = RUNNABLE \<and> (case ch of None \<Rightarrow> True | Some c \<Rightarrow> better (P p) (P c))
      then Some p else ch)"

lemma select_bound: "select better P n = Some c \<Longrightarrow> c < n"
  by (induction n) (auto simp: Let_def split: if_splits intro: less_SucI)

lemma kfold_append: "kfold body (xs @ ys) x = bind (kfold body xs x) (kfold body ys)"
proof (induction xs arbitrary: x)
  case Nil
  then show ?case by (simp add: fun_eq_iff bind_case)
next
  case (Cons a xs)
  then have "kfold body (xs @ ys) = (\<lambda>x. bind (kfold body xs x) (kfold body ys))" by (rule ext)
  then show ?case by (simp add: bind_assoc)
qed

definition select_body ::
  "(proc \<Rightarrow> proc \<Rightarrow> bool) \<Rightarrow> nat \<Rightarrow> nat option \<Rightarrow> ('x proc_st_scheme, nat option) kop" where
  "select_body better p chosen =
     seq (acquire (ProcLock p)) (
       bind (get procs) (\<lambda>P.
       if state (P p) = RUNNABLE
       then if (case chosen of None \<Rightarrow> True | Some c \<Rightarrow> better (P p) (P c))
            then seq (case chosen of None \<Rightarrow> ret () | Some c \<Rightarrow> release (ProcLock c)) (ret (Some p))
            else seq (release (ProcLock p)) (ret chosen)
       else seq (release (ProcLock p)) (ret chosen)))"

lemma select_body_step:
  assumes "proc_ready s" "p < NPROC" "\<And>c. ch = Some c \<Longrightarrow> c < p"
  shows "select_body better p ch (s\<lparr>hs := hold ch (hs s)\<rparr>) =
    (let r = if state (procs s p) = RUNNABLE \<and>
                (case ch of None \<Rightarrow> True | Some c \<Rightarrow> better (procs s p) (procs s c))
             then Some p else ch
     in Ret r (s\<lparr>hs := hold r (hs s)\<rparr>))"
proof (cases ch)
  case None
  then show ?thesis using assms
    by (simp add: select_body_def hold_def proc_ready_def kexec lock_rules)
next
  case (Some c)
  have "free (ProcLock c) (hs s)" "free (ProcLock p) (hs s)" "c \<noteq> p"
    using assms Some by (auto simp: proc_ready_def)
  then show ?thesis using assms Some
    by (simp add: select_body_def hold_def proc_ready_def kexec lock_rules rel_acq_swap)
qed

lemma kfold_select:
  assumes "proc_ready s"
  shows "n \<le> NPROC \<Longrightarrow> kfold (select_body better) [0..<n] None s =
    Ret (select better (procs s) n) (s\<lparr>hs := hold (select better (procs s) n) (hs s)\<rparr>)"
proof (induction n)
  case 0
  then show ?case by (simp add: hold_def)
next
  case (Suc n)
  then show ?case
    using select_body_step [OF assms, where p = n and better = better, OF _ select_bound]
    by (simp add: kfold_append kexec Let_def)
qed

lemma pick_round_robin_eq:
  assumes "proc_ready s"
  shows "pick_round_robin s = (let ch = first_idx (\<lambda>p. state (procs s p) = RUNNABLE) NPROC in
    Ret ch (s\<lparr>hs := hold ch (hs s)\<rparr>))"
proof -
  have "pick_round_robin s =
    (case first_idx (\<lambda>p. state (procs s p) = RUNNABLE) NPROC of None \<Rightarrow> Ret None s
     | Some j \<Rightarrow> Ret (Some j) (s\<lparr>hs := acq (ProcLock j) (hs s)\<rparr>))"
    unfolding pick_round_robin_def
    by (rule kfind_first_idx) (use assms in \<open>auto simp: proc_ready_def kexec lock_rules\<close>)
  then show ?thesis by (simp add: hold_def Let_def split: option.split)
qed

definition earlier :: "proc \<Rightarrow> proc \<Rightarrow> bool" where
  "earlier r r' \<longleftrightarrow> ctime r < ctime r'"

definition more_urgent :: "proc \<Rightarrow> proc \<Rightarrow> bool" where
  "more_urgent r r' \<longleftrightarrow> priority r > priority r'"

lemma pick_fcfs_eq:
  "proc_ready s \<Longrightarrow> pick_fcfs s = (let ch = select earlier (procs s) NPROC in
    Ret ch (s\<lparr>hs := hold ch (hs s)\<rparr>))"
  using kfold_select [of s NPROC earlier]
  unfolding pick_fcfs_def select_body_def [abs_def] Let_def earlier_def by simp

lemma pick_priority_eq:
  "proc_ready s \<Longrightarrow> pick_priority s = (let ch = select more_urgent (procs s) NPROC in
    Ret ch (s\<lparr>hs := hold ch (hs s)\<rparr>))"
  using kfold_select [of s NPROC more_urgent]
  unfolding pick_priority_def select_body_def [abs_def] Let_def more_urgent_def by simp

text \<open>The order of the scan settles ties in favour of the lowest slot.\<close>

lemma select_None: "select better P n = None \<longleftrightarrow> (\<forall>p<n. state (P p) \<noteq> RUNNABLE)"
  by (induction n) (auto simp: Let_def less_Suc_eq)

lemma select_Some:
  assumes "\<And>x y z. better x y \<Longrightarrow> better y z \<Longrightarrow> better x z"
    and "\<And>x y z. better x y \<Longrightarrow> \<not> better z y \<Longrightarrow> better x z" and "\<And>x. \<not> better x x"
  shows "select better P n = Some c \<Longrightarrow>
    c < n \<and> state (P c) = RUNNABLE \<and>
    (\<forall>q<n. state (P q) = RUNNABLE \<longrightarrow> \<not> better (P q) (P c)) \<and>
    (\<forall>q<c. state (P q) = RUNNABLE \<longrightarrow> better (P c) (P q))"
proof (induction n arbitrary: c)
  case (Suc n)
  show ?case
  proof (cases "select better P n")
    case None
    then have "\<forall>q<n. state (P q) \<noteq> RUNNABLE" by (simp add: select_None)
    with Suc.prems None assms(3) show ?thesis
      by (auto simp: Let_def less_Suc_eq split: if_splits)
  next
    case (Some d)
    note d = Suc.IH [OF Some]
    show ?thesis
    proof (cases "state (P n) = RUNNABLE \<and> better (P n) (P d)")
      case True
      then have "c = n" using Suc.prems Some by (simp add: Let_def)
      moreover have "better (P n) (P q)" if "q < n" "state (P q) = RUNNABLE" for q
        using d that True assms(2) by blast
      moreover have "\<not> better (P q) (P n)" if "q < n" "state (P q) = RUNNABLE" for q
        using calculation(2) [OF that] assms(1,3) by blast
      ultimately show ?thesis using True assms(3) by (auto simp: less_Suc_eq)
    next
      case False
      then have "c = d" using Suc.prems Some by (auto simp: Let_def split: if_splits)
      with d False show ?thesis by (auto simp: less_Suc_eq)
    qed
  qed
qed simp

section \<open>One turn of the scheduler\<close>

definition dispatched :: "nat \<Rightarrow> 'x proc_st_scheme \<Rightarrow> 'x proc_st_scheme" where
  "dispatched p s = s\<lparr>procs := (procs s)(p := (procs s p)\<lparr>state := RUNNING,
       starttime := if starttime (procs s p) = 0 then ucast (ticks s) else starttime (procs s p)\<rparr>),
     hs := set_cproc (Some p) (acq (ProcLock p) (hs s))\<rparr>"

definition policy :: "int \<Rightarrow> (nat \<Rightarrow> proc) \<Rightarrow> nat option" where
  "policy mode P =
     (if mode = SCHED_ROUND_ROBIN then first_idx (\<lambda>p. state (P p) = RUNNABLE) NPROC
      else if mode = SCHED_FCFS then select earlier P NPROC
      else if mode = SCHED_PRIORITY then select more_urgent P NPROC
      else None)"

text \<open>A hart in the scheduler loop: interrupts on, no locks held, no process lock taken.\<close>

definition sched_idle :: "'x kst_scheme \<Rightarrow> bool" where
  "sched_idle s \<longleftrightarrow> proc_ready s \<and> sie (hs s) (tp (hs s))"

definition returns_to_scheduler ::
  "(nat \<Rightarrow> 'x proc_st_scheme \<Rightarrow> 'x proc_st_scheme) \<Rightarrow> bool" where
  "returns_to_scheduler R \<longleftrightarrow> (\<forall>p t. hs (R p t) = hs t)"

lemma intr_on_idle: "sched_idle s \<Longrightarrow> intr_on s = Ret () s"
  by (simp add: intr_on_def intr_set_def sched_idle_def fun_upd_same_eq)

lemma upd_cpu_cproc: "upd_cpu (tp (hs s)) (\<lambda>r. r\<lparr>cproc := p\<rparr>) s = Ret () (s\<lparr>hs := set_cproc p (hs s)\<rparr>)"
  by (simp add: upd_cpu_def set_cproc_def)

lemma run_chosen_eq:
  assumes "proc_ready s" "p < NPROC" "returns_to_scheduler R"
  shows "run_chosen R (tp (hs s)) p (s\<lparr>hs := acq (ProcLock p) (hs s)\<rparr>) =
    Ret () ((R p (dispatched p s))\<lparr>hs := set_cproc None (hs s)\<rparr>)"
proof -
  let ?t = "R p (dispatched p s)"
  have t: "hs ?t = set_cproc (Some p) (acq (ProcLock p) (hs s))"
    using assms(3) by (simp add: returns_to_scheduler_def dispatched_def)
  have "run_chosen R (tp (hs s)) p (s\<lparr>hs := acq (ProcLock p) (hs s)\<rparr>) =
    seq (release (ProcLock p)) (upd_cpu (tp (hs s)) (\<lambda>r. r\<lparr>cproc := None\<rparr>)) ?t"
    using upd_cpu_cproc [of "s\<lparr>hs := acq (ProcLock p) (hs s), procs := (procs s)(p := (procs s p)\<lparr>state := RUNNING\<rparr>)\<rparr>" "Some p"]
    by (simp add: run_chosen_def seq_case bind_case upd_proc_def dispatched_def upd_order)
  also have "\<dots> = Ret () (?t\<lparr>hs := set_cproc None (hs s)\<rparr>)"
    using assms(1,2) upd_cpu_cproc [of "?t\<lparr>hs := rel (ProcLock p) (hs ?t)\<rparr>" None]
    by (simp add: seq_case t lock_rules proc_ready_def)
  finally show ?thesis .
qed

lemma scheduler_turn_eq:
  assumes "sched_idle s" "returns_to_scheduler R"
  shows "scheduler_turn R (tp (hs s)) s =
    (case policy (sched_mode s) (procs s) of None \<Rightarrow> Ret () s
     | Some p \<Rightarrow> Ret () ((R p (dispatched p s))\<lparr>hs := set_cproc None (hs s)\<rparr>))"
proof -
  have r: "proc_ready s" using assms(1) by (simp add: sched_idle_def)
  have pick: "(if sched_mode s = SCHED_ROUND_ROBIN then pick_round_robin
           else if sched_mode s = SCHED_FCFS then pick_fcfs
           else if sched_mode s = SCHED_PRIORITY then pick_priority
           else ret None) s = Ret (policy (sched_mode s) (procs s))
             (s\<lparr>hs := hold (policy (sched_mode s) (procs s)) (hs s)\<rparr>)"
    using r by (simp add: policy_def pick_round_robin_eq pick_fcfs_eq pick_priority_eq Let_def hold_def)
  show ?thesis
  proof (cases "policy (sched_mode s) (procs s)")
    case None
    then show ?thesis using assms pick
      by (simp add: scheduler_turn_def bind_case seq_case intr_on_idle hold_def)
  next
    case (Some p)
    then have p: "p < NPROC"
      by (auto simp: policy_def split: if_splits dest: first_idx_bound select_bound)
    show ?thesis using assms pick Some run_chosen_eq [OF r p assms(2)]
      by (simp add: scheduler_turn_def bind_case seq_case intr_on_idle hold_def)
  qed
qed

section \<open>The interface of a scheduling policy\<close>

text \<open>What the scheduler loop relies on: a policy only picks runnable processes, and picks one
  whenever there is one.\<close>

locale sched_policy =
  fixes pick :: "(nat \<Rightarrow> proc) \<Rightarrow> nat option"
  assumes pick_runnable: "pick P = Some p \<Longrightarrow> p < NPROC \<and> state (P p) = RUNNABLE"
    and pick_none: "pick P = None \<Longrightarrow> p < NPROC \<Longrightarrow> state (P p) \<noteq> RUNNABLE"
begin

lemma work_conserving: "(\<exists>p<NPROC. state (P p) = RUNNABLE) \<longleftrightarrow> (\<exists>p. pick P = Some p)"
  using pick_runnable pick_none by (metis not_Some_eq)

lemma only_one_runnable:
  assumes "p < NPROC" "state (P p) = RUNNABLE" "\<And>q. q < NPROC \<Longrightarrow> q \<noteq> p \<Longrightarrow> state (P q) \<noteq> RUNNABLE"
  shows "pick P = Some p"
  using assms work_conserving pick_runnable by metis

end

lemma select_earlier:
  assumes "select earlier P n = Some c"
  shows "c < n \<and> state (P c) = RUNNABLE \<and>
    (\<forall>q<n. state (P q) = RUNNABLE \<longrightarrow> \<not> earlier (P q) (P c)) \<and>
    (\<forall>q<c. state (P q) = RUNNABLE \<longrightarrow> earlier (P c) (P q))"
  by (rule select_Some [OF _ _ _ assms]) (auto simp: earlier_def)

lemma select_more_urgent:
  assumes "select more_urgent P n = Some c"
  shows "c < n \<and> state (P c) = RUNNABLE \<and>
    (\<forall>q<n. state (P q) = RUNNABLE \<longrightarrow> \<not> more_urgent (P q) (P c)) \<and>
    (\<forall>q<c. state (P q) = RUNNABLE \<longrightarrow> more_urgent (P c) (P q))"
  by (rule select_Some [OF _ _ _ assms]) (auto simp: more_urgent_def)

interpretation rr: sched_policy "policy SCHED_ROUND_ROBIN"
  by unfold_locales (auto simp: policy_def first_idx_Some first_idx_None)

interpretation fcfs: sched_policy "policy SCHED_FCFS"
  by unfold_locales
    (auto simp: policy_def SCHED_ROUND_ROBIN_def SCHED_FCFS_def select_None dest: select_earlier)

interpretation prio: sched_policy "policy SCHED_PRIORITY"
  by unfold_locales
    (auto simp: policy_def SCHED_ROUND_ROBIN_def SCHED_FCFS_def SCHED_PRIORITY_def select_None
      dest: select_more_urgent)

section \<open>Properties of the scheduler\<close>

definition proc0 :: proc where
  "proc0 = \<lparr>state = UNUSED, pchan = None, pkilled = False, xstate = 0, pid = 0, ctime = 0, rtime = 0,
     starttime = 0, completetime = 0, is_benchmark_process = False, priority = 0,
     turnaround_time = 0, waiting_time = 0, responded = False, parent = None, kstack = 0, sz = 0,
     pagetable = 0, trapframe = 0, pctx = \<lparr>ctx_ra = 0, ctx_sp = 0\<rparr>, ofile = (\<lambda>_. None), cwd = None,
     pname = (\<lambda>_. 0)\<rparr>"

text \<open>A table of three runnable processes, in slots 3, 5 and 7, with different ages and priorities.\<close>

definition sched_ex :: "int \<Rightarrow> proc_st" where
  "sched_ex mode = \<lparr>hs = harts0, choices = [], lsr_tx = [], rx = [], txlog = [], panicked = False,
     pr_locking = True, mem = (\<lambda>_. 0), freelist = 0, kend = 0x80030000, kernel_pagetable = 0,
     etext = 0, trampoline = 0,
     procs = (\<lambda>_. proc0)(3 := proc0\<lparr>state := RUNNABLE, pid := 4, ctime := 30, priority := 1\<rparr>,
       5 := proc0\<lparr>state := RUNNABLE, pid := 2, ctime := 10, priority := 1\<rparr>,
       7 := proc0\<lparr>state := RUNNABLE, pid := 3, ctime := 20, priority := 9\<rparr>),
     initproc = Some 0, nextpid = 5, ticks = 40, sched_mode = mode, global_turnaround_time = 0,
     global_waiting_time = 0, total_benchmark_processes = 0, completed_benchmark_processes = 0\<rparr>"

lemma sched_ex_idle [simp]: "sched_idle (sched_ex m)"
  by (simp add: sched_idle_def proc_ready_def sched_ex_def) (simp add: harts0_def)

lemma returns_id [simp]: "returns_to_scheduler (\<lambda>p t. t)"
  by (simp add: returns_to_scheduler_def)

text \<open>C22: In FCFS mode a turn of the scheduler dispatches, if any process is runnable, a runnable
  process whose creation time is minimal, the lowest slot among equals; it marks it RUNNING, stamps its
  first start time, makes it the current process with its lock held, and afterwards leaves the hart
  as it found it. With nothing runnable the turn changes nothing.\<close>

theorem fcfs_turn:
  assumes "sched_idle s" "returns_to_scheduler R" "sched_mode s = SCHED_FCFS"
  shows "if \<exists>p<NPROC. state (procs s p) = RUNNABLE
    then \<exists>p<NPROC. state (procs s p) = RUNNABLE \<and>
      (\<forall>q<NPROC. state (procs s q) = RUNNABLE \<longrightarrow> ctime (procs s p) \<le> ctime (procs s q)) \<and>
      (\<forall>q<p. state (procs s q) = RUNNABLE \<longrightarrow> ctime (procs s p) < ctime (procs s q)) \<and>
      scheduler_turn R (tp (hs s)) s = Ret () ((R p (dispatched p s))\<lparr>hs := set_cproc None (hs s)\<rparr>)
    else scheduler_turn R (tp (hs s)) s = Ret () s"
proof (cases "policy SCHED_FCFS (procs s)")
  case None
  then show ?thesis
    using scheduler_turn_eq [OF assms(1,2)] assms(3) fcfs.pick_none [OF None] by auto
next
  case (Some p)
  then have "select earlier (procs s) NPROC = Some p"
    by (simp add: policy_def SCHED_ROUND_ROBIN_def SCHED_FCFS_def)
  note c = select_earlier [OF this]
  then have "\<exists>p<NPROC. state (procs s p) = RUNNABLE" by blast
  with c show ?thesis using scheduler_turn_eq [OF assms(1,2)] assms(3) Some
    by (auto simp: earlier_def not_less)
qed

theorem fcfs_turn_witness:
  "\<exists>p<NPROC. (\<forall>q<NPROC. state (procs (sched_ex 1) q) = RUNNABLE \<longrightarrow> ctime (procs (sched_ex 1) p) \<le> ctime (procs (sched_ex 1) q)) \<and>
    scheduler_turn (\<lambda>p t. t) 0 (sched_ex 1) =
      Ret () ((dispatched p (sched_ex 1))\<lparr>hs := set_cproc None (hs (sched_ex 1))\<rparr>)"
proof -
  have "state (procs (sched_ex 1) 5) = RUNNABLE" "tp (hs (sched_ex 1)) = 0" "sched_mode (sched_ex 1) = SCHED_FCFS"
    by (simp_all add: sched_ex_def SCHED_FCFS_def)
  moreover have "5 < NPROC" by (simp add: NPROC_def)
  ultimately show ?thesis
    using fcfs_turn [of "sched_ex 1" "\<lambda>p t. t"] by (auto split: if_splits)
qed

text \<open>C23: In priority mode a turn dispatches, if any process is runnable, a runnable process whose
  priority value is maximal, the lowest slot among equals, with the same effects on the table and the
  hart as in the other modes.\<close>

theorem priority_turn:
  assumes "sched_idle s" "returns_to_scheduler R" "sched_mode s = SCHED_PRIORITY"
  shows "if \<exists>p<NPROC. state (procs s p) = RUNNABLE
    then \<exists>p<NPROC. state (procs s p) = RUNNABLE \<and>
      (\<forall>q<NPROC. state (procs s q) = RUNNABLE \<longrightarrow> priority (procs s q) \<le> priority (procs s p)) \<and>
      (\<forall>q<p. state (procs s q) = RUNNABLE \<longrightarrow> priority (procs s q) < priority (procs s p)) \<and>
      scheduler_turn R (tp (hs s)) s = Ret () ((R p (dispatched p s))\<lparr>hs := set_cproc None (hs s)\<rparr>)
    else scheduler_turn R (tp (hs s)) s = Ret () s"
proof (cases "policy SCHED_PRIORITY (procs s)")
  case None
  then show ?thesis
    using scheduler_turn_eq [OF assms(1,2)] assms(3) prio.pick_none [OF None] by auto
next
  case (Some p)
  then have "select more_urgent (procs s) NPROC = Some p"
    by (simp add: policy_def SCHED_ROUND_ROBIN_def SCHED_FCFS_def SCHED_PRIORITY_def)
  note c = select_more_urgent [OF this]
  then have "\<exists>p<NPROC. state (procs s p) = RUNNABLE" by blast
  with c show ?thesis using scheduler_turn_eq [OF assms(1,2)] assms(3) Some
    by (auto simp: more_urgent_def not_less)
qed

theorem priority_turn_witness:
  "\<exists>p<NPROC. (\<forall>q<NPROC. state (procs (sched_ex 2) q) = RUNNABLE \<longrightarrow> priority (procs (sched_ex 2) q) \<le> priority (procs (sched_ex 2) p)) \<and>
    scheduler_turn (\<lambda>p t. t) 0 (sched_ex 2) =
      Ret () ((dispatched p (sched_ex 2))\<lparr>hs := set_cproc None (hs (sched_ex 2))\<rparr>)"
proof -
  have "state (procs (sched_ex 2) 5) = RUNNABLE" "tp (hs (sched_ex 2)) = 0" "sched_mode (sched_ex 2) = SCHED_PRIORITY"
    by (simp_all add: sched_ex_def SCHED_PRIORITY_def)
  moreover have "5 < NPROC" by (simp add: NPROC_def)
  ultimately show ?thesis
    using priority_turn [of "sched_ex 2" "\<lambda>p t. t"] by (auto split: if_splits)
qed

text \<open>
  A process that uses up its time slices: each time it runs, it comes back runnable and leaves the
  rest of the table and the scheduling mode alone.
\<close>

definition time_sliced :: "(nat \<Rightarrow> 'x proc_st_scheme \<Rightarrow> 'x proc_st_scheme) \<Rightarrow> bool" where
  "time_sliced R \<longleftrightarrow> returns_to_scheduler R \<and>
     (\<forall>p t. sched_mode (R p t) = sched_mode t \<and> state (procs (R p t) p) = RUNNABLE \<and>
       (\<forall>q. q \<noteq> p \<longrightarrow> procs (R p t) q = procs t q))"

lemma sched_idle_set_cproc: "sched_idle (s\<lparr>hs := set_cproc p (hs s)\<rparr>) = sched_idle s"
  by (simp add: sched_idle_def proc_ready_def) (simp add: set_cproc_def)

lemma kfor_const: "length is = length js \<Longrightarrow> kfor (\<lambda>_. m) is = kfor (\<lambda>_. m) js"
proof (induction "is" arbitrary: js)
  case (Cons i "is")
  then show ?case by (cases js) auto
qed simp

lemma kfor_const_Suc: "kfor (\<lambda>_. m) [0..<Suc n] = seq m (kfor (\<lambda>_. m) [0..<n])"
  using kfor_const [of "[Suc 0..<Suc n]" "[0..<n]" m] by (simp add: upt_conv_Cons del: upt_Suc)

lemma rr_turns:
  assumes "sched_idle s" "time_sliced R" "sched_mode s = SCHED_ROUND_ROBIN"
    and "first_idx (\<lambda>p. state (procs s p) = RUNNABLE) NPROC = Some p" "tp (hs s) = c"
  shows "\<exists>t. kfor (\<lambda>_. scheduler_turn R c) [0..<n] s = Ret () t \<and> (\<forall>q. q \<noteq> p \<longrightarrow> procs t q = procs s q)"
  using assms
proof (induction n arbitrary: s)
  case (Suc n)
  let ?t = "(R p (dispatched p s))\<lparr>hs := set_cproc None (hs s)\<rparr>"
  have ret: "returns_to_scheduler R" using Suc.prems(2) by (simp add: time_sliced_def)
  have "policy (sched_mode s) (procs s) = Some p"
    using Suc.prems(3,4) by (simp add: policy_def)
  then have turn: "scheduler_turn R c s = Ret () ?t"
    using scheduler_turn_eq [OF Suc.prems(1) ret] Suc.prems(5) by simp
  have other: "procs ?t q = procs s q" if "q \<noteq> p" for q
    using Suc.prems(2) that by (simp add: time_sliced_def dispatched_def)
  have "sched_idle ?t"
    using Suc.prems(1) sched_idle_set_cproc [of None s] by (simp add: sched_idle_def proc_ready_def)
  moreover have "sched_mode ?t = SCHED_ROUND_ROBIN"
    using Suc.prems(2,3) by (simp add: time_sliced_def dispatched_def)
  moreover have "first_idx (\<lambda>p. state (procs ?t p) = RUNNABLE) NPROC = Some p"
    using Suc.prems(2,4) other by (auto simp: first_idx_Some time_sliced_def)
  ultimately obtain u where "kfor (\<lambda>_. scheduler_turn R c) [0..<n] ?t = Ret () u"
      "\<forall>q. q \<noteq> p \<longrightarrow> procs u q = procs ?t q"
    using Suc.IH [of ?t] Suc.prems(2,5) by auto
  moreover have "kfor (\<lambda>_. scheduler_turn R c) [0..<Suc n] s =
      kfor (\<lambda>_. scheduler_turn R c) [0..<n] ?t"
    using turn kfor_const_Suc [of "scheduler_turn R c" n] by (simp add: seq_case del: upt_Suc)
  ultimately show ?case using other by auto
qed simp

text \<open>C24: The mode named round robin does not rotate. As long as the runnable process in the lowest
  slot only uses up its time slices, every turn of the scheduler picks that process again: after any
  number of turns the entry of every other process is unchanged, so a runnable process in a higher
  slot is never dispatched.\<close>

theorem round_robin_starvation:
  assumes "sched_idle s" "time_sliced R" "sched_mode s = SCHED_ROUND_ROBIN"
    and "first_idx (\<lambda>p. state (procs s p) = RUNNABLE) NPROC = Some p" "q \<noteq> p"
  shows "\<exists>t. scheduler R turns s = Ret () t \<and> procs t q = procs s q"
proof -
  let ?s = "s\<lparr>hs := set_cproc None (hs s)\<rparr>"
  have "scheduler R turns s = kfor (\<lambda>_. scheduler_turn R (tp (hs s))) [0..<turns] ?s"
    by (simp add: scheduler_def mycpu_def cpuid_def bind_case seq_case upd_cpu_cproc)
  moreover have "sched_idle ?s" using assms(1) sched_idle_set_cproc by blast
  then have "\<exists>t. kfor (\<lambda>_. scheduler_turn R (tp (hs s))) [0..<turns] ?s = Ret () t \<and>
      (\<forall>q. q \<noteq> p \<longrightarrow> procs t q = procs ?s q)"
    using assms(2-4) by (intro rr_turns) simp_all
  ultimately show ?thesis using assms(5) by auto
qed

theorem round_robin_starvation_witness:
  "\<exists>t. scheduler (\<lambda>p t. t\<lparr>procs := (procs t)(p := (procs t p)\<lparr>state := RUNNABLE\<rparr>)\<rparr>) 1000 (sched_ex 0) = Ret () t \<and>
    procs t 5 = procs (sched_ex 0) 5"
proof -
  have "first_idx (\<lambda>p. state (procs (sched_ex 0) p) = RUNNABLE) NPROC = Some 3"
    by (auto simp: first_idx_Some NPROC_def sched_ex_def proc0_def)
  moreover have "sched_mode (sched_ex 0) = SCHED_ROUND_ROBIN"
    by (simp add: sched_ex_def SCHED_ROUND_ROBIN_def)
  moreover have "time_sliced (\<lambda>p (t :: proc_st). t\<lparr>procs := (procs t)(p := (procs t p)\<lparr>state := RUNNABLE\<rparr>)\<rparr>)"
    by (simp add: time_sliced_def returns_to_scheduler_def)
  ultimately show ?thesis
    using round_robin_starvation [of "sched_ex 0" _ 3 5 1000] by simp
qed

text \<open>C25: Every mode of the scheduler is work conserving: whenever some process is runnable, a turn
  dispatches a runnable process, and it dispatches nothing otherwise. An unknown mode dispatches
  nothing at all.\<close>

theorem work_conserving_turn:
  assumes "sched_idle s" "returns_to_scheduler R"
  shows "if sched_mode s \<in> {SCHED_ROUND_ROBIN, SCHED_FCFS, SCHED_PRIORITY} \<and> (\<exists>p<NPROC. state (procs s p) = RUNNABLE)
    then \<exists>p<NPROC. state (procs s p) = RUNNABLE \<and>
      scheduler_turn R (tp (hs s)) s = Ret () ((R p (dispatched p s))\<lparr>hs := set_cproc None (hs s)\<rparr>)
    else scheduler_turn R (tp (hs s)) s = Ret () s"
proof (cases "sched_mode s \<in> {SCHED_ROUND_ROBIN, SCHED_FCFS, SCHED_PRIORITY}")
  case True
  then have pol: "sched_policy (policy (sched_mode s))"
    using rr.sched_policy_axioms fcfs.sched_policy_axioms prio.sched_policy_axioms by auto
  show ?thesis
    using scheduler_turn_eq [OF assms] sched_policy.work_conserving [OF pol, of "procs s"]
      sched_policy.pick_runnable [OF pol, of "procs s"] True
    by (cases "policy (sched_mode s) (procs s)") (simp, auto)
next
  case False
  then have "policy (sched_mode s) (procs s) = None" by (simp add: policy_def)
  with False show ?thesis using scheduler_turn_eq [OF assms] by simp
qed

theorem work_conserving_turn_witness:
  "scheduler_turn (\<lambda>p t. t) 0 (sched_ex 3) = Ret () (sched_ex 3) \<and>
   (\<exists>p<NPROC. state (procs (sched_ex 0) p) = RUNNABLE \<and>
     scheduler_turn (\<lambda>p t. t) 0 (sched_ex 0) =
       Ret () ((dispatched p (sched_ex 0))\<lparr>hs := set_cproc None (hs (sched_ex 0))\<rparr>))"
proof -
  have m: "sched_mode (sched_ex m) = m" "tp (hs (sched_ex m)) = 0" for m
    by (simp_all add: sched_ex_def)
  have "5 < NPROC" "state (procs (sched_ex 0) 5) = RUNNABLE"
    by (simp_all add: NPROC_def sched_ex_def)
  then show ?thesis
    using work_conserving_turn [of "sched_ex 3" "\<lambda>p t. t"] work_conserving_turn [of "sched_ex 0" "\<lambda>p t. t"]
    by (auto simp: m SCHED_ROUND_ROBIN_def SCHED_FCFS_def SCHED_PRIORITY_def split: if_splits)
qed

section \<open>Sleeping and waking\<close>

text \<open>
  The rely condition on the rest of the system while a thread is off its CPU: the thread is resumed
  on the hart it left, in the lock state it left (its own process lock held by the hart), and nobody
  else consumes its choices.
\<close>

definition same_hart :: "(nat \<Rightarrow> 'x kst_scheme \<Rightarrow> 'x kst_scheme) \<Rightarrow> bool" where
  "same_hart E \<longleftrightarrow> (\<forall>c t. hs (E c t) = hs t \<and> choices (E c t) = choices t)"

text \<open>A process \<open>p\<close> running on a hart whose lock state without the locks it takes is \<open>h\<close>.\<close>

definition runs_on :: "nat \<Rightarrow> harts \<Rightarrow> bool" where
  "runs_on p h \<longleftrightarrow> settled h \<and> noff (this_cpu h) = 0 \<and> cproc (this_cpu h) = Some p \<and> free (ProcLock p) h"

lemma acq_intena_id:
  assumes "runs_on p h" "hs s = acq (ProcLock p) h"
  shows "upd_cpu (tp h) (\<lambda>r. r\<lparr>intena := intena (this_cpu h)\<rparr>) s = Ret () s"
  using assms by (auto simp: upd_cpu_def acq_def off_def intro!: kst_hs_upd_id)

lemma sched_eq:
  assumes "runs_on p h" "hs s = acq (ProcLock p) h" "state (procs s p) \<noteq> RUNNING" "same_hart E"
  shows "sched E s = (case choices s of [] \<Rightarrow> Off s | c # cs \<Rightarrow> Ret () (E c (s\<lparr>choices := cs\<rparr>)))"
proof -
  have f: "cproc (this_cpu (acq (ProcLock p) h)) = Some p" "noff (this_cpu (acq (ProcLock p) h)) = 1"
      "\<not> sie (acq (ProcLock p) h) (tp h)" "intena (this_cpu (acq (ProcLock p) h)) = intena (this_cpu h)"
      "settled (acq (ProcLock p) h)"
    using assms(1) by (simp_all add: runs_on_def lock_defs)
  show ?thesis
  proof (cases "choices s")
    case Nil
    then show ?thesis using assms(2,3) f
      by (simp add: sched_def kexec myproc_settled holding_eq mycpu_def cpuid_def intr_get_def swtch_def)
  next
    case (Cons c cs)
    let ?t = "E c (s\<lparr>choices := cs\<rparr>)"
    have "hs ?t = acq (ProcLock p) h" using assms(2,4) by (simp add: same_hart_def)
    then show ?thesis using assms(2,3) f Cons acq_intena_id [OF assms(1), of ?t]
      by (simp add: sched_def kexec myproc_settled holding_eq mycpu_def cpuid_def intr_get_def swtch_def)
  qed
qed

definition asleep :: "nat \<Rightarrow> chan \<Rightarrow> harts \<Rightarrow> 'x proc_st_scheme \<Rightarrow> 'x proc_st_scheme" where
  "asleep p ch h s = s\<lparr>procs := (procs s)(p := (procs s p)\<lparr>pchan := Some ch, state := SLEEPING\<rparr>),
     hs := acq (ProcLock p) h\<rparr>"

lemma sleep_eq:
  assumes "runs_on p h" "hs s = acq lk h" "free lk h" "lk \<noteq> ProcLock p" "same_hart E"
  shows "sleep E ch lk s = (case choices s of [] \<Rightarrow> Off (asleep p ch h s)
    | c # cs \<Rightarrow> (let t = E c ((asleep p ch h s)\<lparr>choices := cs\<rparr>) in
        Ret () (t\<lparr>procs := (procs t)(p := (procs t p)\<lparr>pchan := None\<rparr>), hs := acq lk h\<rparr>)))"
proof -
  have h: "settled h" "free (ProcLock p) h" "cproc (this_cpu h) = Some p"
    using assms(1) by (simp_all add: runs_on_def)
  have upto: "sleep E ch lk s = seq (sched E) (seq (upd_proc p (\<lambda>r. r\<lparr>pchan := None\<rparr>))
      (seq (release (ProcLock p)) (acquire lk))) (asleep p ch h s)"
    using h assms(2-4)
    by (simp add: sleep_def kexec lock_rules rel_acq_swap upd_proc_def asleep_def upd_order)
  have sch: "sched E (asleep p ch h s) = (case choices s of [] \<Rightarrow> Off (asleep p ch h s)
      | c # cs \<Rightarrow> Ret () (E c ((asleep p ch h s)\<lparr>choices := cs\<rparr>)))"
    using sched_eq [OF assms(1) _ _ assms(5), of "asleep p ch h s"] by (simp add: asleep_def)
  show ?thesis
  proof (cases "choices s")
    case Nil
    then show ?thesis using upto sch by (simp add: seq_case)
  next
    case (Cons c cs)
    let ?t = "E c ((asleep p ch h s)\<lparr>choices := cs\<rparr>)"
    have "hs ?t = acq (ProcLock p) h" using assms(5) by (simp add: same_hart_def asleep_def)
    then show ?thesis using upto sch Cons h assms(3)
      by (simp add: kexec lock_rules upd_proc_def Let_def)
  qed
qed

text \<open>Process 3 running on hart 0.\<close>

definition hart3 :: harts where
  "hart3 = set_cproc (Some 3) harts0"

lemma hart3_rules [simp]: "settled hart3" "free lk hart3" "runs_on 3 hart3" "tp hart3 = 0"
  "cproc (this_cpu hart3) = Some 3"
  by (simp_all add: hart3_def runs_on_def) (simp_all add: set_cproc_def harts0_def)

text \<open>C5: \<^verbatim>\<open>sleep\<close> puts the calling process to sleep on the channel with the caller's lock released and
  the process's own lock held, so that no wakeup can fall between the two; when the process is
  resumed it returns with the caller's lock held again, its own lock released and its channel cleared.\<close>

theorem sleep_spec:
  assumes "runs_on p h" "hs s = acq lk h" "free lk h" "lk \<noteq> ProcLock p" "same_hart E"
  shows "(choices s = [] \<longrightarrow> sleep E ch lk s = Off (asleep p ch h s)) \<and>
    (\<forall>c cs. choices s = c # cs \<longrightarrow>
      (\<exists>t. sleep E ch lk s = Ret () t \<and> hs t = hs s \<and> pchan (procs t p) = None \<and>
        (\<forall>q. q \<noteq> p \<longrightarrow> procs t q = procs (E c ((asleep p ch h s)\<lparr>choices := cs\<rparr>)) q)))"
  using sleep_eq [OF assms] assms(2) by (auto simp: Let_def)

theorem sleep_spec_witness:
  "\<exists>t. sleep (\<lambda>_ u. u\<lparr>procs := (procs u)(3 := (procs u 3)\<lparr>state := RUNNING\<rparr>)\<rparr>) ChTicks TicksLock
      ((sched_ex 0)\<lparr>hs := acq TicksLock hart3, choices := [0]\<rparr>) = Ret () t \<and>
    hs t = acq TicksLock hart3 \<and> pchan (procs t 3) = None"
  using sleep_spec [of 3 hart3 "(sched_ex 0)\<lparr>hs := acq TicksLock hart3, choices := [0]\<rparr>" TicksLock
      "\<lambda>_ u. u\<lparr>procs := (procs u)(3 := (procs u 3)\<lparr>state := RUNNING\<rparr>)\<rparr>" ChTicks]
  by (auto simp: same_hart_def)

text \<open>C21: \<^verbatim>\<open>wakeup\<close> makes every process that sleeps on the channel runnable, except the caller
  itself, and changes nothing else in the system.\<close>

theorem wakeup_spec:
  assumes "proc_ready s"
  shows "\<exists>t. wakeup ch s = Ret () t \<and> t\<lparr>procs := procs s\<rparr> = s \<and>
    (\<forall>p<NPROC. procs t p =
      (if state (procs s p) = SLEEPING \<and> pchan (procs s p) = ch \<and> cproc (this_cpu (hs s)) \<noteq> Some p
       then (procs s p)\<lparr>state := RUNNABLE\<rparr> else procs s p))"
  using wakeup_each [OF assms, of ch] by (auto simp: wake_proc_def) (simp add: each_proc_def)

theorem wakeup_spec_witness:
  "\<exists>t. wakeup (Some ChTicks) ((sched_ex 0)\<lparr>procs := (\<lambda>_. proc0)(9 := proc0\<lparr>state := SLEEPING, pchan := Some ChTicks\<rparr>)\<rparr>) = Ret () t \<and>
    state (procs t 9) = RUNNABLE"
proof -
  let ?s = "(sched_ex 0)\<lparr>procs := (\<lambda>_. proc0)(9 := proc0\<lparr>state := SLEEPING, pchan := Some ChTicks\<rparr>)\<rparr>"
  have "proc_ready ?s" using sched_ex_idle [of 0] by (simp add: sched_idle_def proc_ready_def)
  moreover have "hs ?s = harts0" "9 < NPROC" by (simp_all add: sched_ex_def NPROC_def)
  ultimately show ?thesis using wakeup_spec [of ?s "Some ChTicks"] by auto
qed

text \<open>C27: \<^verbatim>\<open>kill\<close> marks the lowest slot with the given process id as killed and makes it runnable if it
  was asleep; it reports -1 without any change when no slot has the id. Free slots have id 0 and are
  not excluded, so \<^verbatim>\<open>kill(0)\<close> succeeds on one of them.\<close>

theorem kill_spec:
  assumes "proc_ready s"
  shows "if \<forall>p<NPROC. pid (procs s p) \<noteq> pd then kill pd s = Ret (- 1) s
    else \<exists>p<NPROC. pid (procs s p) = pd \<and> (\<forall>q<p. pid (procs s q) \<noteq> pd) \<and>
      kill pd s = Ret 0 (s\<lparr>procs := (procs s)(p := (procs s p)\<lparr>pkilled := True,
        state := if state (procs s p) = SLEEPING then RUNNABLE else state (procs s p)\<rparr>)\<rparr>)"
proof (cases "first_idx (\<lambda>p. pid (procs s p) = pd) NPROC")
  case None
  then have "kill pd s = Ret (- 1) s" using kill_first [OF assms, of pd] by simp
  with None show ?thesis by (simp add: first_idx_None)
next
  case (Some p)
  then have "p < NPROC" "pid (procs s p) = pd" "\<forall>q<p. pid (procs s q) \<noteq> pd"
    by (simp_all add: first_idx_Some)
  then show ?thesis using kill_first [OF assms, of pd] Some by auto
qed

theorem kill_spec_witness:
  "(\<exists>p<NPROC. state (procs (sched_ex 0) p) = UNUSED \<and> (\<exists>t. kill 0 (sched_ex 0) = Ret 0 t \<and> pkilled (procs t p))) \<and>
   kill 77 (sched_ex 0) = Ret (- 1) (sched_ex 0)"
proof -
  have r: "proc_ready (sched_ex 0)" using sched_ex_idle [of 0] by (simp add: sched_idle_def)
  have u: "pid (procs (sched_ex 0) p) = 0 \<Longrightarrow> state (procs (sched_ex 0) p) = UNUSED" for p
    by (auto simp: sched_ex_def proc0_def split: if_splits)
  have "0 < NPROC" "pid (procs (sched_ex 0) 0) = 0" by (simp_all add: NPROC_def sched_ex_def proc0_def)
  then have "\<not> (\<forall>p<NPROC. pid (procs (sched_ex 0) p) \<noteq> 0)" by blast
  from kill_spec [OF r, of 0, unfolded if_not_P [OF this]]
  obtain p where p: "p < NPROC" "pid (procs (sched_ex 0) p) = 0"
      "\<exists>t. kill 0 (sched_ex 0) = Ret 0 t \<and> pkilled (procs t p)"
    by auto
  have "\<forall>p<NPROC. pid (procs (sched_ex 0) p) \<noteq> 77" by (simp add: sched_ex_def proc0_def)
  from kill_spec [OF r, of 77, unfolded if_P [OF this]] p u show ?thesis by blast
qed

end
