(* ===== verification/Sleeplock.thy ===== *)
theory Sleeplock
  imports Proc
begin

text \<open>
  \<^verbatim>\<open>kernel/sleeplock.c\<close>: locks that are held across a sleep. The sleep locks of the kernel are
  those of the disk buffers and of the in-memory inodes; each has a spinlock that protects it
  and a channel, its own address.
\<close>

section \<open>State\<close>

datatype slk = BufLk nat | InodeLk nat

primrec slk_lock :: "slk \<Rightarrow> lock" where
  "slk_lock (BufLk i) = BufSleepLk i"
| "slk_lock (InodeLk i) = InodeSleepLk i"

primrec slk_chan :: "slk \<Rightarrow> chan" where
  "slk_chan (BufLk i) = ChBufLock i"
| "slk_chan (InodeLk i) = ChInodeLock i"

record sleeplock =
  slocked :: bool
  sname :: string
  spid :: int

record slk_st = proc_st +
  slocks :: "slk \<Rightarrow> sleeplock"

type_synonym 's env = "nat \<Rightarrow> 's \<Rightarrow> 's"

lemma hs_slocks_order [upd_order]: "s\<lparr>hs := h, slocks := L\<rparr> = s\<lparr>slocks := L, hs := h\<rparr>"
  by simp

definition upd_slk :: "slk \<Rightarrow> (sleeplock \<Rightarrow> sleeplock) \<Rightarrow> ('x slk_st_scheme, unit) kop" where
  "upd_slk lk f = modify (\<lambda>s. s\<lparr>slocks := (slocks s)(lk := f (slocks s lk))\<rparr>)"

text \<open>\<^verbatim>\<open>myproc()->pid\<close>\<close>

definition mypid :: "('x proc_st_scheme, int) kop" where
  "mypid = bind myproc (\<lambda>p. bind (deref p) (\<lambda>p. get (\<lambda>s. pid (procs s p))))"

section \<open>Operations\<close>

definition initsleeplock :: "slk \<Rightarrow> string \<Rightarrow> ('x slk_st_scheme, unit) kop" where
  "initsleeplock lk nm =
     seq (initlock (slk_lock lk) ''sleep lock'')
     (upd_slk lk (\<lambda>l. l\<lparr>sname := nm, slocked := False, spid := 0\<rparr>))"

text \<open>
  \<open>wait_slk n\<close> is the loop \<^verbatim>\<open>while (lk->locked) sleep(lk, &lk->lk)\<close> with \<open>n\<close> turns left. Every turn
  consumes a choice, so one turn more than there are choices is enough.
\<close>

primrec wait_slk :: "nat \<Rightarrow> 'x slk_st_scheme env \<Rightarrow> slk \<Rightarrow> ('x slk_st_scheme, unit) kop" where
  "wait_slk 0 E lk = spin"
| "wait_slk (Suc n) E lk =
     bind (get (\<lambda>s. slocked (slocks s lk))) (\<lambda>locked.
     kwhen locked (seq (sleep E (slk_chan lk) (slk_lock lk)) (wait_slk n E lk)))"

definition acquiresleep :: "'x slk_st_scheme env \<Rightarrow> slk \<Rightarrow> ('x slk_st_scheme, unit) kop" where
  "acquiresleep E lk =
     seq (acquire (slk_lock lk)) (
     bind (get (\<lambda>s. Suc (length (choices s)))) (\<lambda>fuel.
     seq (wait_slk fuel E lk) (
     seq (upd_slk lk (\<lambda>l. l\<lparr>slocked := True\<rparr>)) (
     bind mypid (\<lambda>pid.
     seq (upd_slk lk (\<lambda>l. l\<lparr>spid := pid\<rparr>))
     (release (slk_lock lk)))))))"

definition releasesleep :: "slk \<Rightarrow> ('x slk_st_scheme, unit) kop" where
  "releasesleep lk =
     seq (acquire (slk_lock lk)) (
     seq (upd_slk lk (\<lambda>l. l\<lparr>slocked := False\<rparr>)) (
     seq (upd_slk lk (\<lambda>l. l\<lparr>spid := 0\<rparr>)) (
     seq (wakeup (Some (slk_chan lk)))
     (release (slk_lock lk)))))"

definition holdingsleep :: "slk \<Rightarrow> ('x slk_st_scheme, bool) kop" where
  "holdingsleep lk =
     seq (acquire (slk_lock lk)) (
     bind (get (\<lambda>s. slocks s lk)) (\<lambda>l.
     bind (if slocked l then bind mypid (\<lambda>pid. ret (spid l = pid)) else ret False) (\<lambda>r.
     seq (release (slk_lock lk))
     (ret r))))"

section \<open>Uncontended use\<close>

text \<open>
  \<open>calm p s\<close>: process \<open>p\<close> runs in kernel mode on a hart that holds no spinlock, and no spinlock is
  held anywhere. In such a state every critical section can be entered.
\<close>

definition calm_hart :: "nat \<Rightarrow> harts \<Rightarrow> bool" where
  "calm_hart p h \<longleftrightarrow> settled h \<and> noff (this_cpu h) = 0 \<and> (\<forall>lk. free lk h) \<and> cproc (this_cpu h) = Some p"

abbreviation calm :: "nat \<Rightarrow> 'x kst_scheme \<Rightarrow> bool" where
  "calm p s \<equiv> calm_hart p (hs s)"

lemma calm_rules [simp]:
  assumes "calm_hart p h"
  shows "settled h" "free lk h" "cproc (this_cpu h) = Some p" "runs_on p h"
  using assms by (simp_all add: calm_hart_def runs_on_def)

lemma calm_proc_ready [simp]: "calm p s \<Longrightarrow> proc_ready s"
  by (simp add: proc_ready_def)

lemma calm_hart3 [simp]: "calm_hart 3 hart3"
  by (simp add: calm_hart_def) (simp add: hart3_def set_cproc_def harts0_def)

lemma mypid_eq: "settled (hs s) \<Longrightarrow> cproc (this_cpu (hs s)) = Some p \<Longrightarrow> mypid s = Ret (pid (procs s p)) s"
  by (simp add: mypid_def kexec lock_rules)

lemma slk_lock_neq [simp]: "slk_lock lk \<noteq> ProcLock p" "ProcLock p \<noteq> slk_lock lk"
  by (cases lk; simp)+

definition locked_by :: "int \<Rightarrow> slk \<Rightarrow> 'x slk_st_scheme \<Rightarrow> 'x slk_st_scheme" where
  "locked_by pd lk s = s\<lparr>slocks := (slocks s)(lk := (slocks s lk)\<lparr>slocked := True, spid := pd\<rparr>)\<rparr>"

lemma acquiresleep_free:
  assumes "calm p s" "\<not> slocked (slocks s lk)"
  shows "acquiresleep E lk s = Ret () (locked_by (pid (procs s p)) lk s)"
  using assms
  by (simp add: acquiresleep_def kexec lock_rules upd_slk_def mypid_eq locked_by_def upd_order)

definition woken_procs :: "nat option \<Rightarrow> chan \<Rightarrow> (nat \<Rightarrow> proc) \<Rightarrow> nat \<Rightarrow> proc" where
  "woken_procs me ch = map_procs (\<lambda>p r. if me = Some p then r else wake_proc (Some ch) r)"

definition woken :: "chan \<Rightarrow> 'x proc_st_scheme \<Rightarrow> 'x proc_st_scheme" where
  "woken ch s = s\<lparr>procs := woken_procs (cproc (this_cpu (hs s))) ch (procs s)\<rparr>"

lemma woken_fields [simp]:
  "hs (woken ch s) = hs s" "choices (woken ch s) = choices s"
  by (simp_all add: woken_def)

lemma wakeup_woken: "proc_ready s \<Longrightarrow> wakeup (Some ch) s = Ret () (woken ch s)"
  by (simp add: wakeup_each woken_def woken_procs_def each_proc_def)

lemma releasesleep_eq:
  assumes "calm p s"
  shows "releasesleep lk s =
    Ret () (s\<lparr>slocks := (slocks s)(lk := (slocks s lk)\<lparr>slocked := False, spid := 0\<rparr>),
      procs := woken_procs (Some p) (slk_chan lk) (procs s)\<rparr>)"
proof -
  let ?t = "s\<lparr>slocks := (slocks s)(lk := (slocks s lk)\<lparr>slocked := False, spid := 0\<rparr>), hs := acq (slk_lock lk) (hs s)\<rparr>"
  have "proc_ready ?t" using assms by (simp add: proc_ready_def)
  then show ?thesis using assms wakeup_woken [of ?t "slk_chan lk"]
    by (simp add: releasesleep_def kexec lock_rules upd_slk_def upd_order woken_def)
qed

lemma holdingsleep_eq:
  assumes "calm p s"
  shows "holdingsleep lk s = Ret (slocked (slocks s lk) \<and> spid (slocks s lk) = pid (procs s p)) s"
  using assms by (simp add: holdingsleep_def kexec lock_rules mypid_eq)

section \<open>Contended use\<close>

lemma wait_slk_outcome:
  assumes "calm_hart p h" "same_hart E"
  shows "hs s = acq (slk_lock lk) h \<Longrightarrow> length (choices s) < n \<Longrightarrow>
    (\<exists>t. wait_slk n E lk s = Ret () t \<and> hs t = hs s \<and> \<not> slocked (slocks t lk)) \<or>
    (\<exists>t. wait_slk n E lk s = Off t \<and> state (procs t p) = SLEEPING \<and>
      pchan (procs t p) = Some (slk_chan lk) \<and> slocked (slocks t lk))"
proof (induction n arbitrary: s)
  case (Suc n)
  show ?case
  proof (cases "slocked (slocks s lk)")
    case False
    then show ?thesis using Suc.prems by (simp add: kexec)
  next
    case True
    note sl = sleep_eq [OF calm_rules(4) [OF assms(1)] Suc.prems(1) _ slk_lock_neq(1) assms(2), of "slk_chan lk"]
    show ?thesis
    proof (cases "choices s")
      case Nil
      with True sl assms(1) have "wait_slk (Suc n) E lk s = Off (asleep p (slk_chan lk) h s)"
        by (simp add: kexec)
      then show ?thesis using True by (simp add: asleep_def)
    next
      case (Cons c cs)
      let ?u = "E c ((asleep p (slk_chan lk) h s)\<lparr>choices := cs\<rparr>)"
      let ?t = "?u\<lparr>procs := (procs ?u)(p := (procs ?u p)\<lparr>pchan := None\<rparr>), hs := acq (slk_lock lk) h\<rparr>"
      have "wait_slk (Suc n) E lk s = wait_slk n E lk ?t"
        using True sl assms(1) Cons by (simp add: kexec Let_def)
      moreover have "hs ?t = acq (slk_lock lk) h" "length (choices ?t) < n"
        using assms(2) Cons Suc.prems(2) by (simp_all add: same_hart_def)
      ultimately show ?thesis using Suc.IH [of ?t] Suc.prems(1) by simp
    qed
  qed
qed simp


definition slk_ex :: slk_st where
  "slk_ex = (proc_st.extend (sched_ex 0) \<lparr>slocks = (\<lambda>_. \<lparr>slocked = False, sname = [], spid = 0\<rparr>)\<rparr>)\<lparr>hs := hart3\<rparr>"

lemma slk_ex_calm [simp]: "calm 3 slk_ex"
  by (simp add: slk_ex_def)


end
