(* ===== verification/Bio.thy ===== *)
theory Bio
  imports Sleeplock
begin

text \<open>
  \<^verbatim>\<open>kernel/bio.c\<close>: the buffer cache. The buffers are \<^verbatim>\<open>bcache.buf[0..NBUF-1]\<close>; index \<open>NBUF\<close>
  is \<^verbatim>\<open>bcache.head\<close>, and the \<^verbatim>\<open>prev\<close>/\<^verbatim>\<open>next\<close> pointers are indices. \<open>disk\<close> is the medium: the
  contents of every block, and \<open>dwrites\<close> the writes it has completed, in order. A request to the disk driver is modelled by its effect, the transfer
  of one block between the buffer and the medium; an array of \<^verbatim>\<open>BSIZE\<close> bytes is a function from
  offsets to bytes, and a whole-array copy assigns the function.
\<close>

section \<open>State\<close>

definition NBUF :: nat where "NBUF = 30"
definition BSIZE :: nat where "BSIZE = 1024"

abbreviation HEAD :: nat where "HEAD \<equiv> NBUF"

type_synonym block = "nat memory"

record buf =
  valid :: bool
  bdev :: u32
  blockno :: u32
  refcnt :: u32
  bprev :: nat
  bnext :: nat
  bdata :: block

record bio_st = slk_st +
  bufs :: "nat \<Rightarrow> buf"
  disk :: "u32 \<Rightarrow> block"
  dwrites :: "(u32 \<times> block) list"

lemma hs_bufs_order [upd_order]: "s\<lparr>hs := h, bufs := B\<rparr> = s\<lparr>bufs := B, hs := h\<rparr>"
  by simp

definition upd_buf :: "nat \<Rightarrow> (buf \<Rightarrow> buf) \<Rightarrow> ('x bio_st_scheme, unit) kop" where
  "upd_buf b f = modify (\<lambda>s. s\<lparr>bufs := (bufs s)(b := f (bufs s b))\<rparr>)"

section \<open>The LRU list\<close>

definition set_next :: "nat \<Rightarrow> nat \<Rightarrow> (nat \<Rightarrow> buf) \<Rightarrow> nat \<Rightarrow> buf" where
  "set_next b n B = B(b := (B b)\<lparr>bnext := n\<rparr>)"

definition set_prev :: "nat \<Rightarrow> nat \<Rightarrow> (nat \<Rightarrow> buf) \<Rightarrow> nat \<Rightarrow> buf" where
  "set_prev b p B = B(b := (B b)\<lparr>bprev := p\<rparr>)"

text \<open>The assignments of \<^verbatim>\<open>binit\<close> and \<^verbatim>\<open>brelse\<close> that put \<open>b\<close> in front, and those that take it out.\<close>

definition link_front :: "nat \<Rightarrow> (nat \<Rightarrow> buf) \<Rightarrow> nat \<Rightarrow> buf" where
  "link_front b B =
     (let B = set_next b (bnext (B HEAD)) B;
          B = set_prev b HEAD B;
          B = set_prev (bnext (B HEAD)) b B
      in set_next HEAD b B)"

definition unlink :: "nat \<Rightarrow> (nat \<Rightarrow> buf) \<Rightarrow> nat \<Rightarrow> buf" where
  "unlink b B =
     (let B = set_prev (bnext (B b)) (bprev (B b)) B
      in set_next (bprev (B b)) (bnext (B b)) B)"

text \<open>
  Following one kind of link from \<open>b\<close> until the head or a buffer that satisfies \<open>P\<close>; the list has
  NBUF buffers, so NBUF + 1 steps reach the head.
\<close>

primrec scan :: "nat \<Rightarrow> (buf \<Rightarrow> nat) \<Rightarrow> (buf \<Rightarrow> bool) \<Rightarrow> (nat \<Rightarrow> buf) \<Rightarrow> nat \<Rightarrow> nat option" where
  "scan 0 lnk P B b = None"
| "scan (Suc n) lnk P B b =
     (if b = HEAD then None else if P (B b) then Some b else scan n lnk P B (lnk (B b)))"

section \<open>Operations\<close>

definition binit :: "('x bio_st_scheme, unit) kop" where
  "binit =
     seq (initlock BcacheLock ''bcache'') (
     seq (modify (\<lambda>s. s\<lparr>bufs := set_next HEAD HEAD (set_prev HEAD HEAD (bufs s))\<rparr>))
     (kfor (\<lambda>b.
        seq (initsleeplock (BufLk b) ''buffer'')
        (modify (\<lambda>s. s\<lparr>bufs := link_front b (bufs s)\<rparr>))) [0..<NBUF]))"

definition bget :: "'x bio_st_scheme env \<Rightarrow> u32 \<Rightarrow> u32 \<Rightarrow> ('x bio_st_scheme, nat) kop" where
  "bget E dev bn =
     seq (acquire BcacheLock) (
     bind (get bufs) (\<lambda>B.
     case scan (Suc NBUF) bnext (\<lambda>r. bdev r = dev \<and> blockno r = bn) B (bnext (B HEAD)) of
       Some b \<Rightarrow>
         seq (upd_buf b (\<lambda>r. r\<lparr>refcnt := refcnt r + 1\<rparr>)) (
         seq (release BcacheLock) (
         seq (acquiresleep E (BufLk b))
         (ret b)))
     | None \<Rightarrow>
         (case scan (Suc NBUF) bprev (\<lambda>r. refcnt r = 0) B (bprev (B HEAD)) of
            Some b \<Rightarrow>
              seq (upd_buf b (\<lambda>r. r\<lparr>bdev := dev, blockno := bn, valid := False, refcnt := 1\<rparr>)) (
              seq (release BcacheLock) (
              seq (acquiresleep E (BufLk b))
              (ret b)))
          | None \<Rightarrow> panic ''bget: no buffers'')))"

definition disk_rw :: "nat \<Rightarrow> bool \<Rightarrow> ('x bio_st_scheme, unit) kop" where
  "disk_rw b wr =
     (if wr then modify (\<lambda>s. s\<lparr>disk := (disk s)(blockno (bufs s b) := bdata (bufs s b)),
        dwrites := dwrites s @ [(blockno (bufs s b), bdata (bufs s b))]\<rparr>)
      else modify (\<lambda>s. s\<lparr>bufs := (bufs s)(b := (bufs s b)\<lparr>bdata := disk s (blockno (bufs s b))\<rparr>)\<rparr>))"

definition bread :: "'x bio_st_scheme env \<Rightarrow> u32 \<Rightarrow> u32 \<Rightarrow> ('x bio_st_scheme, nat) kop" where
  "bread E dev bn =
     bind (bget E dev bn) (\<lambda>b.
     bind (get (\<lambda>s. valid (bufs s b))) (\<lambda>v.
     seq (kwhen (\<not> v) (seq (disk_rw b False) (upd_buf b (\<lambda>r. r\<lparr>valid := True\<rparr>))))
     (ret b)))"

definition bwrite :: "nat \<Rightarrow> ('x bio_st_scheme, unit) kop" where
  "bwrite b =
     bind (holdingsleep (BufLk b)) (\<lambda>h.
     seq (kwhen (\<not> h) (panic ''bwrite''))
     (disk_rw b True))"

definition brelse :: "nat \<Rightarrow> ('x bio_st_scheme, unit) kop" where
  "brelse b =
     bind (holdingsleep (BufLk b)) (\<lambda>h.
     seq (kwhen (\<not> h) (panic ''brelse'')) (
     seq (releasesleep (BufLk b)) (
     seq (acquire BcacheLock) (
     seq (upd_buf b (\<lambda>r. r\<lparr>refcnt := refcnt r - 1\<rparr>)) (
     bind (get (\<lambda>s. refcnt (bufs s b))) (\<lambda>n.
     seq (kwhen (n = 0) (modify (\<lambda>s. s\<lparr>bufs := link_front b (unlink b (bufs s))\<rparr>)))
     (release BcacheLock)))))))"

definition bpin :: "nat \<Rightarrow> ('x bio_st_scheme, unit) kop" where
  "bpin b =
     seq (acquire BcacheLock) (
     seq (upd_buf b (\<lambda>r. r\<lparr>refcnt := refcnt r + 1\<rparr>))
     (release BcacheLock))"

definition bunpin :: "nat \<Rightarrow> ('x bio_st_scheme, unit) kop" where
  "bunpin b =
     seq (acquire BcacheLock) (
     seq (upd_buf b (\<lambda>r. r\<lparr>refcnt := refcnt r - 1\<rparr>))
     (release BcacheLock))"

section \<open>The list behind the pointers\<close>

fun linked :: "(nat \<Rightarrow> buf) \<Rightarrow> nat list \<Rightarrow> bool" where
  "linked B (x # y # zs) \<longleftrightarrow> bnext (B x) = y \<and> bprev (B y) = x \<and> linked B (y # zs)"
| "linked B _ \<longleftrightarrow> True"

text \<open>\<open>lru B xs\<close>: from the head, the \<^verbatim>\<open>next\<close> links visit exactly the buffers \<open>xs\<close> and return to the
  head, and the \<^verbatim>\<open>prev\<close> links visit them in the opposite order.\<close>

definition lru :: "(nat \<Rightarrow> buf) \<Rightarrow> nat list \<Rightarrow> bool" where
  "lru B xs \<longleftrightarrow> distinct xs \<and> HEAD \<notin> set xs \<and> linked B (HEAD # xs @ [HEAD])"

lemma linked_append: "linked B (xs @ x # ys) \<longleftrightarrow> linked B (xs @ [x]) \<and> linked B (x # ys)"
proof (induction xs)
  case (Cons a xs)
  then show ?case by (cases xs) auto
qed simp

lemma linked_cong:
  assumes "\<And>x. x \<in> set (butlast ys) \<Longrightarrow> bnext (B' x) = bnext (B x)"
    and "\<And>x. x \<in> set (tl ys) \<Longrightarrow> bprev (B' x) = bprev (B x)"
  shows "linked B' ys = linked B ys"
  using assms
proof (induction B ys rule: linked.induct)
  case (1 B x y zs)
  have "linked B' (y # zs) = linked B (y # zs)"
    by (rule "1.IH") (use "1.prems" in \<open>auto split: if_splits\<close>)
  moreover have "bnext (B' x) = bnext (B x)" "bprev (B' y) = bprev (B y)"
    using "1.prems" by auto
  ultimately show ?case by simp
qed simp_all

lemma bnext_link_front:
  "b \<noteq> HEAD \<Longrightarrow> bnext (link_front b B x) =
     (if x = HEAD then b else if x = b then bnext (B HEAD) else bnext (B x))"
  by (simp add: link_front_def Let_def set_next_def set_prev_def)

lemma bprev_link_front:
  "b \<noteq> HEAD \<Longrightarrow> bnext (B HEAD) \<noteq> b \<Longrightarrow> bprev (link_front b B x) =
     (if x = bnext (B HEAD) then b else if x = b then HEAD else bprev (B x))"
  by (simp add: link_front_def Let_def set_next_def set_prev_def)

lemma bnext_unlink:
  "bnext (B b) \<noteq> b \<Longrightarrow> bnext (unlink b B x) = (if x = bprev (B b) then bnext (B b) else bnext (B x))"
  by (simp add: unlink_def Let_def set_next_def set_prev_def)

lemma bprev_unlink:
  "bnext (B b) \<noteq> b \<Longrightarrow> bprev (unlink b B x) = (if x = bnext (B b) then bprev (B b) else bprev (B x))"
  by (simp add: unlink_def Let_def set_next_def set_prev_def)

lemma linked_hd: "linked B (x # ys @ [z]) \<Longrightarrow> bnext (B x) = hd (ys @ [z])"
  by (cases ys) simp_all

lemma linked_last: "linked B (xs @ [y, z]) \<Longrightarrow> bprev (B z) = y"
  by (induction xs rule: rev_induct) (auto simp: linked_append [of B _ _ "[_, _]"] linked_append [of B _ y "[z]"])

lemma lru_link_front:
  assumes "lru B xs" "b \<notin> set xs" "b \<noteq> HEAD"
  shows "lru (link_front b B) (b # xs)"
proof -
  obtain f zs where fz: "xs @ [HEAD] = f # zs" by (cases "xs @ [HEAD]") auto
  have xs: "distinct xs" "HEAD \<notin> set xs" "linked B (HEAD # f # zs)"
    using assms(1) fz by (simp_all add: lru_def)
  have "f \<in> set (xs @ [HEAD])" unfolding fz by simp
  then have f: "bnext (B HEAD) = f" "f \<noteq> b" using xs(3) assms(2,3) by auto
  have "linked (link_front b B) (f # zs) = linked B (f # zs)"
  proof (rule linked_cong)
    fix x assume "x \<in> set (butlast (f # zs))"
    then have "x \<in> set xs" unfolding fz [symmetric] by simp
    then show "bnext (link_front b B x) = bnext (B x)"
      using assms xs(2) by (auto simp: bnext_link_front)
  next
    fix x assume "x \<in> set (tl (f # zs))"
    moreover have "distinct (f # zs)" "b \<notin> set (f # zs)"
      using xs(1,2) assms(2,3) unfolding fz [symmetric] by auto
    ultimately have "x \<noteq> f" "x \<noteq> b" by auto
    then show "bprev (link_front b B x) = bprev (B x)"
      using assms f by (simp add: bprev_link_front)
  qed
  with xs f assms(3) have "linked (link_front b B) (HEAD # b # f # zs)"
    by (simp add: bnext_link_front bprev_link_front)
  then show ?thesis using xs assms fz by (simp add: lru_def)
qed

lemma lru_unlink:
  assumes "lru B (us @ b # vs)"
  shows "lru (unlink b B) (us @ vs)"
proof -
  obtain n rs where R: "vs @ [HEAD] = n # rs" by (cases "vs @ [HEAD]") auto
  obtain ls p where L: "HEAD # us = ls @ [p]" by (cases "HEAD # us" rule: rev_cases) auto
  have d: "distinct (us @ b # vs)" "HEAD \<notin> set (us @ b # vs)"
    using assms by (simp_all add: lru_def)
  have "HEAD # (us @ b # vs) @ [HEAD] = (HEAD # us) @ b # (vs @ [HEAD])" by simp
  also have "\<dots> = ls @ p # b # n # rs" unfolding L R by simp
  finally have l: "linked B (ls @ p # b # n # rs)" using assms by (simp only: lru_def)
  then have p: "bprev (B b) = p" "bnext (B b) = n" "linked B (ls @ [p])" "linked B (n # rs)"
    by (simp_all add: linked_append [of B ls p "b # n # rs"])
  have "n \<in> set (vs @ [HEAD])" "p \<in> set (HEAD # us)" unfolding R L by simp_all
  then have n: "n = HEAD \<or> n \<in> set vs" "p = HEAD \<or> p \<in> set us" by auto
  have "b \<notin> set (vs @ [HEAD])" using d by auto
  then have nb: "n \<noteq> b" unfolding R by auto
  have "linked (unlink b B) (ls @ [p]) = linked B (ls @ [p])"
  proof (rule linked_cong)
    fix x assume "x \<in> set (butlast (ls @ [p]))"
    moreover have "distinct (ls @ [p])" using d unfolding L [symmetric] by simp
    ultimately show "bnext (unlink b B x) = bnext (B x)" using p nb by (auto simp: bnext_unlink)
  next
    fix x assume "x \<in> set (tl (ls @ [p]))"
    then have "x \<in> set us" unfolding L [symmetric] by simp
    then have "x \<noteq> n" using d n(1) by auto
    then show "bprev (unlink b B x) = bprev (B x)" using p nb by (simp add: bprev_unlink)
  qed
  moreover have "linked (unlink b B) (n # rs) = linked B (n # rs)"
  proof (rule linked_cong)
    fix x assume "x \<in> set (butlast (n # rs))"
    then have "x \<in> set vs" unfolding R [symmetric] by simp
    then have "x \<noteq> p" using d n(2) by auto
    then show "bnext (unlink b B x) = bnext (B x)" using p nb by (simp add: bnext_unlink)
  next
    fix x assume "x \<in> set (tl (n # rs))"
    moreover have "distinct (n # rs)" using d unfolding R [symmetric] by auto
    ultimately have "x \<noteq> n" by auto
    then show "bprev (unlink b B x) = bprev (B x)" using p nb by (simp add: bprev_unlink)
  qed
  ultimately have "linked (unlink b B) (ls @ p # n # rs)"
    using p nb by (simp add: linked_append [of _ ls p "n # rs"] bnext_unlink bprev_unlink)
  moreover have "ls @ p # n # rs = (ls @ [p]) @ n # rs" by simp
  then have "ls @ p # n # rs = HEAD # us @ vs @ [HEAD]" unfolding L [symmetric] R [symmetric] by simp
  ultimately have "linked (unlink b B) (HEAD # us @ vs @ [HEAD])" by simp
  then show ?thesis using d by (simp add: lru_def)
qed

lemma scan_next:
  "linked B (xs @ [HEAD]) \<Longrightarrow> HEAD \<notin> set xs \<Longrightarrow> length xs < n \<Longrightarrow>
     scan n bnext P B (hd (xs @ [HEAD])) = List.find (\<lambda>b. P (B b)) xs"
proof (induction xs arbitrary: n)
  case Nil
  then show ?case by (cases n) auto
next
  case (Cons x xs)
  then obtain m where n: "n = Suc m" "length xs < m" by (cases n) auto
  have "bnext (B x) = hd (xs @ [HEAD])" using Cons.prems(1) linked_hd by simp
  moreover have "linked B (xs @ [HEAD])" using Cons.prems(1) by (cases xs) auto
  ultimately show ?case using Cons n by auto
qed

lemma scan_prev:
  "linked B (HEAD # xs) \<Longrightarrow> HEAD \<notin> set xs \<Longrightarrow> length xs < n \<Longrightarrow>
     scan n bprev P B (last (HEAD # xs)) = List.find (\<lambda>b. P (B b)) (rev xs)"
proof (induction xs arbitrary: n rule: rev_induct)
  case Nil
  then show ?case by (cases n) auto
next
  case (snoc x xs)
  then obtain m where n: "n = Suc m" "length xs < m" by (cases n) auto
  obtain ys y where y: "HEAD # xs = ys @ [y]" by (cases "HEAD # xs" rule: rev_cases) auto
  then have "HEAD # xs @ [x] = ys @ [y, x]" by (simp flip: append_Cons)
  then have "linked B (ys @ [y, x])" using snoc.prems(1) by (simp only:)
  then have "bprev (B x) = last (HEAD # xs)" "linked B (HEAD # xs)"
    using y by (simp_all add: linked_append [of B ys y "[x]"])
  then show ?case using snoc n by auto
qed

end
