(* ===== verification/Bcache.thy ===== *)
theory Bcache
  imports Bio
begin

text \<open>
  The correctness of the buffer cache of \<^verbatim>\<open>kernel/bio.c\<close>. \<open>cache p d s C R H\<close> describes what the cache
  presents for a device \<open>d\<close> in a state in which process \<open>p\<close> runs: the contents \<open>C\<close> of every
  block, the reference counts \<open>R\<close> and the owners \<open>H\<close> of the buffer locks. Each operation has a rule that
  says how it changes this view; the locale \<open>block_cache\<close> is the interface the layers above use.
\<close>

section \<open>What the cache presents\<close>

text \<open>
  The abstract view of the cache for a device \<open>d\<close>: the buffer that holds a block, the contents a
  reader of the block sees, the number of references to it and the process that has it locked.
\<close>

definition buf_of :: "u32 \<Rightarrow> (nat \<Rightarrow> buf) \<Rightarrow> u32 \<Rightarrow> nat option" where
  "buf_of d B n = first_idx (\<lambda>b. bdev (B b) = d \<and> blockno (B b) = n) NBUF"

definition content :: "u32 \<Rightarrow> 'x bio_st_scheme \<Rightarrow> u32 \<Rightarrow> block" where
  "content d s n = (case buf_of d (bufs s) n of None \<Rightarrow> disk s n
     | Some b \<Rightarrow> if valid (bufs s b) then bdata (bufs s b) else disk s n)"

definition refs :: "u32 \<Rightarrow> 'x bio_st_scheme \<Rightarrow> u32 \<Rightarrow> nat" where
  "refs d s n = (case buf_of d (bufs s) n of None \<Rightarrow> 0 | Some b \<Rightarrow> unat (refcnt (bufs s b)))"

definition owner :: "u32 \<Rightarrow> 'x bio_st_scheme \<Rightarrow> u32 \<Rightarrow> int option" where
  "owner d s n = (case buf_of d (bufs s) n of None \<Rightarrow> None
     | Some b \<Rightarrow> if slocked (slocks s (BufLk b)) then Some (spid (slocks s (BufLk b))) else None)"

text \<open>
  The invariant: the LRU list holds every buffer once; no block of the device is cached twice; an
  unreferenced buffer of the device is clean; a referenced one belongs to the device and is filled; only a
  referenced one is locked.
\<close>

definition uniq :: "u32 \<Rightarrow> (nat \<Rightarrow> buf) \<Rightarrow> bool" where
  "uniq d B \<longleftrightarrow> (\<forall>b<NBUF. \<forall>c<NBUF. bdev (B b) = d \<and> bdev (B c) = d \<and> blockno (B b) = blockno (B c) \<longrightarrow> b = c)"

definition buf_ok :: "u32 \<Rightarrow> (u32 \<Rightarrow> block) \<Rightarrow> bool \<Rightarrow> buf \<Rightarrow> bool" where
  "buf_ok d D l r \<longleftrightarrow> (if refcnt r = 0 then \<not> l \<and> (valid r \<and> bdev r = d \<longrightarrow> bdata r = D (blockno r))
     else bdev r = d \<and> valid r)"

definition cache_inv :: "u32 \<Rightarrow> 'x bio_st_scheme \<Rightarrow> bool" where
  "cache_inv d s \<longleftrightarrow> (\<exists>xs. lru (bufs s) xs \<and> set xs = {..<NBUF}) \<and> uniq d (bufs s) \<and>
     (\<forall>b<NBUF. buf_ok d (disk s) (slocked (slocks s (BufLk b))) (bufs s b))"

lemma buf_of_Some: "buf_of d B n = Some b \<Longrightarrow> b < NBUF \<and> bdev (B b) = d \<and> blockno (B b) = n"
  by (simp add: buf_of_def first_idx_Some)

lemma buf_of_None: "buf_of d B n = None \<longleftrightarrow> (\<forall>b<NBUF. \<not> (bdev (B b) = d \<and> blockno (B b) = n))"
  by (simp add: buf_of_def first_idx_None)

lemma buf_of_uniq:
  assumes "uniq d B" "b < NBUF" "bdev (B b) = d"
  shows "buf_of d B n = Some b \<longleftrightarrow> blockno (B b) = n"
proof
  assume n: "blockno (B b) = n"
  then obtain c where c: "buf_of d B n = Some c" using assms buf_of_None [of d B n] by fastforce
  then have "c = b" using buf_of_Some [OF c] n assms by (simp add: uniq_def)
  with c show "buf_of d B n = Some b" by simp
qed (simp add: buf_of_Some)

lemma lru_cong:
  assumes "\<And>x. bnext (B' x) = bnext (B x)" "\<And>x. bprev (B' x) = bprev (B x)"
  shows "lru B' xs = lru B xs"
  using linked_cong [of "HEAD # xs @ [HEAD]" B' B] assms by (simp add: lru_def)

lemma lru_length: "lru B xs \<Longrightarrow> set xs = {..<NBUF} \<Longrightarrow> length xs = NBUF"
  using distinct_card [of xs] by (simp add: lru_def)

lemma lru_scan:
  assumes "lru B xs" "set xs = {..<NBUF}"
  shows "scan (Suc NBUF) bnext P B (bnext (B HEAD)) = List.find (\<lambda>b. P (B b)) xs"
    and "scan (Suc NBUF) bprev P B (bprev (B HEAD)) = List.find (\<lambda>b. P (B b)) (rev xs)"
proof -
  have l: "linked B (HEAD # xs @ [HEAD])" "HEAD \<notin> set xs" "length xs < Suc NBUF"
    using assms lru_length [OF assms] by (simp_all add: lru_def)
  have n: "bnext (B HEAD) = hd (xs @ [HEAD])" using linked_hd l(1) by blast
  have "linked B (xs @ [HEAD])" using l(1) by (cases xs) auto
  then show "scan (Suc NBUF) bnext P B (bnext (B HEAD)) = List.find (\<lambda>b. P (B b)) xs"
    unfolding n using l(2,3) by (rule scan_next)
  obtain ys y where y: "HEAD # xs = ys @ [y]" by (cases "HEAD # xs" rule: rev_cases) auto
  then have "linked B (ys @ [y, HEAD])" using l(1) by (metis append.assoc append_Cons append_Nil)
  then have p: "bprev (B HEAD) = last (HEAD # xs)" using linked_last y by (metis last_snoc)
  have "linked B (HEAD # xs)"
    using \<open>linked B (ys @ [y, HEAD])\<close> y by (simp add: linked_append [of B ys y "[HEAD]"])
  then show "scan (Suc NBUF) bprev P B (bprev (B HEAD)) = List.find (\<lambda>b. P (B b)) (rev xs)"
    unfolding p using l(2,3) by (rule scan_prev)
qed

lemma find_uniq:
  assumes "uniq d B" "set xs = {..<NBUF}"
  shows "List.find (\<lambda>b. bdev (B b) = d \<and> blockno (B b) = n) xs = buf_of d B n"
proof (cases "List.find (\<lambda>b. bdev (B b) = d \<and> blockno (B b) = n) xs")
  case None
  then have "buf_of d B n = None" using assms(2) by (auto simp: find_None_iff buf_of_None)
  with None show ?thesis by simp
next
  case (Some b)
  then have "b \<in> set xs" "bdev (B b) = d" "blockno (B b) = n" by (auto simp: find_Some_iff)
  then show ?thesis using Some assms buf_of_uniq [of d B b n] by simp
qed

section \<open>The operations in closed form\<close>

text \<open>The buffer \<^verbatim>\<open>bget\<close> settles on: the one that holds the block, or the least recently used free one.\<close>

definition pick_buf :: "u32 \<Rightarrow> u32 \<Rightarrow> nat list \<Rightarrow> (nat \<Rightarrow> buf) \<Rightarrow> nat option" where
  "pick_buf d n xs B = (case buf_of d B n of Some b \<Rightarrow> Some b
     | None \<Rightarrow> List.find (\<lambda>b. refcnt (B b) = 0) (rev xs))"

definition taken_buf :: "u32 \<Rightarrow> u32 \<Rightarrow> buf \<Rightarrow> buf" where
  "taken_buf d n r = (if bdev r = d \<and> blockno r = n then r\<lparr>refcnt := refcnt r + 1\<rparr>
     else r\<lparr>bdev := d, blockno := n, valid := False, refcnt := 1\<rparr>)"

definition filled :: "(u32 \<Rightarrow> block) \<Rightarrow> buf \<Rightarrow> buf" where
  "filled D r = (if valid r then r else r\<lparr>bdata := D (blockno r), valid := True\<rparr>)"

lemma taken_filled [simp]:
  "bnext (taken_buf d n r) = bnext r" "bprev (taken_buf d n r) = bprev r"
  "bnext (filled D r) = bnext r" "bprev (filled D r) = bprev r"
  "bdev (taken_buf d n r) = d" "blockno (taken_buf d n r) = n" "valid (filled D r)"
  "bdev (filled D r) = bdev r" "blockno (filled D r) = blockno r" "refcnt (filled D r) = refcnt r"
  by (simp_all add: taken_buf_def filled_def)

lemma bget_eq:
  assumes "calm p s" "lru (bufs s) xs" "set xs = {..<NBUF}" "uniq d (bufs s)"
  shows "bget E d n s = (case pick_buf d n xs (bufs s) of None \<Rightarrow> Panic ''bget: no buffers''
    | Some b \<Rightarrow> seq (acquiresleep E (BufLk b)) (ret b)
        (s\<lparr>bufs := (bufs s)(b := taken_buf d n (bufs s b))\<rparr>))"
proof -
  note sc = lru_scan [OF assms(2,3)]
  show ?thesis
  proof (cases "buf_of d (bufs s) n")
    case (Some b)
    then show ?thesis using assms buf_of_Some [OF Some]
      by (simp add: bget_def kexec lock_rules sc find_uniq pick_buf_def upd_buf_def taken_buf_def upd_order
          del: scan.simps)
  next
    case None
    show ?thesis
    proof (cases "List.find (\<lambda>b. refcnt (bufs s b) = 0) (rev xs)")
      case (Some b)
      then have "b < NBUF" using assms(3) by (metis find_Some_iff lessThan_iff nth_mem set_rev)
      then have "\<not> (bdev (bufs s b) = d \<and> blockno (bufs s b) = n)" using None buf_of_None by blast
      then have "taken_buf d n (bufs s b) = (bufs s b)\<lparr>bdev := d, blockno := n, valid := False, refcnt := 1\<rparr>"
        by (simp only: taken_buf_def if_False)
      with None Some assms show ?thesis
        by (simp add: bget_def kexec lock_rules sc find_uniq pick_buf_def upd_buf_def upd_order
          del: scan.simps)
    next
      case None': None
      with None assms show ?thesis
        by (simp add: bget_def kexec lock_rules sc find_uniq pick_buf_def del: scan.simps)
    qed
  qed
qed

lemma bread_eq:
  assumes "calm p s" "lru (bufs s) xs" "set xs = {..<NBUF}" "uniq d (bufs s)"
    and "pick_buf d n xs (bufs s) = Some b" "\<not> slocked (slocks s (BufLk b))"
  shows "bread E d n s = Ret b (locked_by (pid (procs s p)) (BufLk b)
    (s\<lparr>bufs := (bufs s)(b := filled (disk s) (taken_buf d n (bufs s b)))\<rparr>))"
  using assms
  by (simp add: bread_def kexec bget_eq acquiresleep_free disk_rw_def upd_buf_def filled_def
      locked_by_def fun_upd_idem)

definition released_bufs :: "nat \<Rightarrow> (nat \<Rightarrow> buf) \<Rightarrow> nat \<Rightarrow> buf" where
  "released_bufs b B =
     (let B = B(b := (B b)\<lparr>refcnt := refcnt (B b) - 1\<rparr>)
      in if refcnt (B b) = 0 then link_front b (unlink b B) else B)"

lemma brelse_eq:
  assumes "calm p s" "slocked (slocks s (BufLk b))" "spid (slocks s (BufLk b)) = pid (procs s p)"
  shows "brelse b s = Ret () (s\<lparr>slocks := (slocks s)(BufLk b := (slocks s (BufLk b))\<lparr>slocked := False, spid := 0\<rparr>),
      procs := woken_procs (Some p) (ChBufLock b) (procs s), bufs := released_bufs b (bufs s)\<rparr>)"
  using assms
  by (simp add: brelse_def kexec lock_rules holdingsleep_eq releasesleep_eq upd_buf_def released_bufs_def
      Let_def upd_order)

section \<open>The operations on the abstract view\<close>

definition cache ::
  "nat \<Rightarrow> u32 \<Rightarrow> 'x bio_st_scheme \<Rightarrow> (u32 \<Rightarrow> block) \<Rightarrow> (u32 \<Rightarrow> nat) \<Rightarrow> (u32 \<Rightarrow> int option) \<Rightarrow> bool" where
  "cache p d s C R H \<longleftrightarrow> calm p s \<and> cache_inv d s \<and> content d s = C \<and> refs d s = R \<and> owner d s = H"

text \<open>What an operation on the cache leaves alone: everything but the buffers, their locks, the medium
  and the run state of the processes.\<close>

definition bframe :: "'x bio_st_scheme \<Rightarrow> 'x bio_st_scheme \<Rightarrow> bool" where
  "bframe s t \<longleftrightarrow>
     (\<exists>L P B D W. t = s\<lparr>procs := P, slocks := L, bufs := B, disk := D, dwrites := W\<rparr>) \<and>
     (\<forall>i. slocks t (InodeLk i) = slocks s (InodeLk i)) \<and>
     (\<forall>q. (procs t q)\<lparr>state := UNUSED\<rparr> = (procs s q)\<lparr>state := UNUSED\<rparr>)"

lemma bframeI:
  "t = s\<lparr>procs := P, slocks := L, bufs := B, disk := D, dwrites := W\<rparr> \<Longrightarrow>
   (\<And>i. L (InodeLk i) = slocks s (InodeLk i)) \<Longrightarrow>
   (\<And>q. (P q)\<lparr>state := UNUSED\<rparr> = (procs s q)\<lparr>state := UNUSED\<rparr>) \<Longrightarrow> bframe s t"
  unfolding bframe_def by (intro conjI exI) simp_all

lemma bframe_refl [simp]: "bframe s s"
  by (rule bframeI [where P = "procs s" and L = "slocks s" and B = "bufs s" and D = "disk s" and W = "dwrites s"]) simp_all

lemma bframe_trans:
  assumes "bframe s t" "bframe t u"
  shows "bframe s u"
proof -
  obtain L P B D W where t: "t = s\<lparr>procs := P, slocks := L, bufs := B, disk := D, dwrites := W\<rparr>"
    using assms(1) unfolding bframe_def by blast
  obtain L' P' B' D' W' where u: "u = t\<lparr>procs := P', slocks := L', bufs := B', disk := D', dwrites := W'\<rparr>"
    using assms(2) unfolding bframe_def by blast
  show ?thesis
  proof (rule bframeI)
    show "u = s\<lparr>procs := P', slocks := L', bufs := B', disk := D', dwrites := W'\<rparr>"
      using t u by simp
    show "L' (InodeLk i) = slocks s (InodeLk i)" for i
      using assms u unfolding bframe_def by simp
    show "(P' q)\<lparr>state := UNUSED\<rparr> = (procs s q)\<lparr>state := UNUSED\<rparr>" for q
      using assms u unfolding bframe_def by simp
  qed
qed

lemma bframe_pid: "bframe s t \<Longrightarrow> pid (procs t q) = pid (procs s q)"
  unfolding bframe_def by (drule conjunct2, drule conjunct2, drule spec [of _ q], drule arg_cong [of _ _ pid]) simp

lemma buf_of_upd:
  assumes "uniq d B" "b < NBUF" "bdev r = d" "blockno r = n" "buf_of d B n = None \<or> buf_of d B n = Some b"
  shows "uniq d (B(b := r))"
    and "buf_of d (B(b := r)) m = (if m = n then Some b else if buf_of d B m = Some b then None else buf_of d B m)"
proof -
  have o: "c = b" if "c < NBUF" "bdev (B c) = d" "blockno (B c) = n" for c
    using that assms buf_of_uniq [of d B c n] by auto
  show u: "uniq d (B(b := r))"
    using assms(1,3,4) o unfolding uniq_def by (metis fun_upd_other fun_upd_same)
  show "buf_of d (B(b := r)) m = (if m = n then Some b else if buf_of d B m = Some b then None else buf_of d B m)"
  proof (cases "m = n")
    case True
    then show ?thesis using buf_of_uniq [OF u assms(2)] assms(3,4) by simp
  next
    case mn: False
    show ?thesis
    proof (cases "buf_of d B m")
      case None
      then have "buf_of d (B(b := r)) m = None" using mn assms(4) by (auto simp: buf_of_None)
      with None mn show ?thesis by simp
    next
      case (Some c)
      note c = buf_of_Some [OF Some]
      show ?thesis
      proof (cases "c = b")
        case True
        have "buf_of d (B(b := r)) m = None"
          unfolding buf_of_None
        proof (intro allI impI notI)
          fix a assume a: "a < NBUF" "bdev ((B(b := r)) a) = d \<and> blockno ((B(b := r)) a) = m"
          then have "a \<noteq> b" using mn assms(4) by auto
          with a have "bdev (B a) = d" "blockno (B a) = m" by simp_all
          then have "a = b" using a(1) c True assms(1,2) by (simp add: uniq_def)
          with \<open>a \<noteq> b\<close> show False by simp
        qed
        then show ?thesis using True Some mn by simp
      next
        case False
        then have "buf_of d (B(b := r)) m = Some c" using buf_of_uniq [OF u, of c m] c by simp
        then show ?thesis using False Some mn by simp
      qed
    qed
  qed
qed

lemma cacheD:
  assumes "cache p d s C R H" "buf_of d (bufs s) n = Some b"
  shows "b < NBUF" "bdev (bufs s b) = d" "blockno (bufs s b) = n" "R n = unat (refcnt (bufs s b))"
    "H n = (if slocked (slocks s (BufLk b)) then Some (spid (slocks s (BufLk b))) else None)"
    "R n \<noteq> 0 \<Longrightarrow> valid (bufs s b) \<and> bdata (bufs s b) = C n"
proof -
  show b: "b < NBUF" "bdev (bufs s b) = d" "blockno (bufs s b) = n" using buf_of_Some [OF assms(2)] by simp_all
  show R: "R n = unat (refcnt (bufs s b))"
    using assms by (auto simp: cache_def refs_def)
  show "H n = (if slocked (slocks s (BufLk b)) then Some (spid (slocks s (BufLk b))) else None)"
    using assms by (auto simp: cache_def owner_def)
  assume "R n \<noteq> 0"
  then have "refcnt (bufs s b) \<noteq> 0" using R by auto
  moreover have "buf_ok d (disk s) (slocked (slocks s (BufLk b))) (bufs s b)"
    using assms(1) b(1) by (simp add: cache_def cache_inv_def)
  ultimately have v: "valid (bufs s b)" by (simp add: buf_ok_def)
  moreover have "C n = content d s n" using assms(1) by (simp add: cache_def)
  ultimately show "valid (bufs s b) \<and> bdata (bufs s b) = C n" using assms(2) by (simp add: content_def)
qed

lemma cache_buf:
  assumes "cache p d s C R H" "R n \<noteq> 0"
  obtains b where "buf_of d (bufs s) n = Some b"
  using assms by (auto simp: cache_def refs_def split: option.splits)

text \<open>With fewer referenced blocks than buffers some buffer is free.\<close>

lemma spare_buf:
  assumes "cache p d s C R H" "card {m. R m \<noteq> 0} < NBUF"
  shows "\<exists>b<NBUF. refcnt (bufs s b) = 0"
proof (rule ccontr)
  assume "\<not> ?thesis"
  then have r: "refcnt (bufs s b) \<noteq> 0" if "b < NBUF" for b using that by blast
  have i: "cache_inv d s" and R: "refs d s = R" using assms(1) by (simp_all add: cache_def)
  have dv: "bdev (bufs s b) = d" if "b < NBUF" for b
    using i r that by (auto simp: cache_inv_def buf_ok_def)
  have u: "uniq d (bufs s)" using i by (simp add: cache_inv_def)
  have "inj_on (\<lambda>b. blockno (bufs s b)) {..<NBUF}"
    using u dv by (auto simp: inj_on_def uniq_def)
  moreover have "(\<lambda>b. blockno (bufs s b)) ` {..<NBUF} \<subseteq> {m. R m \<noteq> 0}"
  proof (rule image_subsetI, rule CollectI, rule notI)
    fix b assume b: "b \<in> {..<NBUF}" "R (blockno (bufs s b)) = 0"
    have "buf_of d (bufs s) (blockno (bufs s b)) = Some b" using b(1) buf_of_uniq [OF u, of b] dv by simp
    then have "R (blockno (bufs s b)) = unat (refcnt (bufs s b))" using R by (auto simp: refs_def)
    with b r show False by (simp add: unat_eq_zero)
  qed
  ultimately have "NBUF \<le> card {m. R m \<noteq> 0}"
    using card_inj_on_le [of "\<lambda>b. blockno (bufs s b)" "{..<NBUF}" "{m. R m \<noteq> 0}"] by simp
  with assms(2) show False by simp
qed

lemma pick_buf_Some:
  assumes "cache p d s C R H" "set xs = {..<NBUF}" "R n \<noteq> 0 \<or> card {m. R m \<noteq> 0} < NBUF"
  obtains b where "pick_buf d n xs (bufs s) = Some b" "b < NBUF"
    "buf_of d (bufs s) n = Some b \<or> buf_of d (bufs s) n = None \<and> refcnt (bufs s b) = 0"
proof (cases "buf_of d (bufs s) n")
  case (Some b)
  then show ?thesis using that buf_of_Some [OF Some] by (simp add: pick_buf_def)
next
  case None
  then have "R n = 0" using assms(1) by (auto simp: cache_def refs_def)
  with assms have "\<exists>b<NBUF. refcnt (bufs s b) = 0" using spare_buf by blast
  then obtain b where b: "List.find (\<lambda>b. refcnt (bufs s b) = 0) (rev xs) = Some b"
    using assms(2) by (cases "List.find (\<lambda>b. refcnt (bufs s b) = 0) (rev xs)") (auto simp: find_None_iff)
  then obtain i where "i < length (rev xs)" "refcnt (bufs s (rev xs ! i)) = 0" "b = rev xs ! i"
    unfolding find_Some_iff by blast
  then have "b \<in> set (rev xs)" "refcnt (bufs s b) = 0" by (simp_all only: nth_mem)
  with b None that show ?thesis using assms(2) by (simp add: pick_buf_def)
qed

lemma cacheI:
  assumes "calm p s" "lru (bufs s) xs" "set xs = {..<NBUF}" "uniq d (bufs s)"
    and "\<And>b. b < NBUF \<Longrightarrow> buf_ok d (disk s) (slocked (slocks s (BufLk b))) (bufs s b)"
    and "\<And>n. content d s n = C n" "\<And>n. refs d s n = R n" "\<And>n. owner d s n = H n"
  shows "cache p d s C R H"
  using assms by (auto simp: cache_def cache_inv_def fun_eq_iff)

lemma cacheE:
  assumes "cache p d s C R H"
  obtains xs where "calm p s" "lru (bufs s) xs" "set xs = {..<NBUF}" "uniq d (bufs s)"
    "\<And>b. b < NBUF \<Longrightarrow> buf_ok d (disk s) (slocked (slocks s (BufLk b))) (bufs s b)"
    "\<And>n. content d s n = C n" "\<And>n. refs d s n = R n" "\<And>n. owner d s n = H n"
  using assms by (auto simp: cache_def cache_inv_def)

lemma filled_taken_view:
  assumes "uniq d (bufs s)" "b < NBUF"
    and "buf_of d (bufs s) n = Some b \<or> buf_of d (bufs s) n = None \<and> refcnt (bufs s b) = 0"
    and "buf_ok d (disk s) (slocked (slocks s (BufLk b))) (bufs s b)"
  shows "Suc (refs d s n) < 2 ^ 32 \<Longrightarrow>
      unat (refcnt (filled (disk s) (taken_buf d n (bufs s b)))) = Suc (refs d s n)"
    and "bdata (filled (disk s) (taken_buf d n (bufs s b))) = content d s n"
proof -
  have new: "taken_buf d n (bufs s b) = (bufs s b)\<lparr>bdev := d, blockno := n, valid := False, refcnt := 1\<rparr>"
    if "buf_of d (bufs s) n = None"
    using that assms(2) buf_of_None [of d "bufs s" n] unfolding taken_buf_def by (simp only: if_False)
  show "unat (refcnt (filled (disk s) (taken_buf d n (bufs s b)))) = Suc (refs d s n)"
    if "Suc (refs d s n) < 2 ^ 32"
  proof (cases "buf_of d (bufs s) n")
    case None
    then show ?thesis by (simp add: new refs_def)
  next
    case (Some c)
    then have c: "c = b" "bdev (bufs s b) = d" "blockno (bufs s b) = n"
      using assms(3) buf_of_Some [OF Some] by auto
    then show ?thesis using Some that by (simp add: taken_buf_def refs_def unat_word_ariths)
  qed
  show "bdata (filled (disk s) (taken_buf d n (bufs s b))) = content d s n"
  proof (cases "buf_of d (bufs s) n")
    case None
    then show ?thesis by (simp add: new content_def filled_def)
  next
    case (Some c)
    then have "c = b" "bdev (bufs s b) = d" "blockno (bufs s b) = n"
      using assms(3) buf_of_Some [OF Some] by auto
    then show ?thesis using Some by (simp add: taken_buf_def content_def filled_def)
  qed
qed

lemma bread_rule:
  assumes c: "cache p d s C R H" and n: "H n = None" "Suc (R n) < 2 ^ 32"
    and spare: "R n \<noteq> 0 \<or> card {m. R m \<noteq> 0} < NBUF"
  shows "\<exists>b t. bread E d n s = Ret b t \<and> bframe s t \<and> disk t = disk s \<and> dwrites t = dwrites s \<and>
    buf_of d (bufs t) n = Some b \<and> (\<forall>m. R m \<noteq> 0 \<longrightarrow> buf_of d (bufs t) m = buf_of d (bufs s) m) \<and>
    cache p d t C (R(n := Suc (R n))) (H(n := Some (pid (procs s p))))"
proof -
  obtain xs where s: "calm p s" "lru (bufs s) xs" "set xs = {..<NBUF}" "uniq d (bufs s)"
      and ok: "\<And>b. b < NBUF \<Longrightarrow> buf_ok d (disk s) (slocked (slocks s (BufLk b))) (bufs s b)"
      and a: "\<And>n. content d s n = C n" "\<And>n. refs d s n = R n" "\<And>n. owner d s n = H n"
    by (rule cacheE [OF c]) blast
  obtain b where b: "pick_buf d n xs (bufs s) = Some b" "b < NBUF"
      "buf_of d (bufs s) n = Some b \<or> buf_of d (bufs s) n = None \<and> refcnt (bufs s b) = 0"
    using pick_buf_Some [OF c s(3) spare] by blast
  have l: "\<not> slocked (slocks s (BufLk b))"
  proof (cases "buf_of d (bufs s) n = Some b")
    case True
    then show ?thesis using cacheD(5) [OF c True] n(1) by (simp split: if_splits)
  next
    case False
    then show ?thesis using ok [OF b(2)] b(3) by (simp add: buf_ok_def)
  qed
  define r where "r = filled (disk s) (taken_buf d n (bufs s b))"
  define B where "B = (bufs s)(b := r)"
  define t where "t = locked_by (pid (procs s p)) (BufLk b) (s\<lparr>bufs := B\<rparr>)"
  have r: "bdev r = d" "blockno r = n" "bnext r = bnext (bufs s b)" "bprev r = bprev (bufs s b)" "valid r"
    by (simp_all add: r_def)
  have run: "bread E d n s = Ret b t"
    unfolding t_def B_def r_def using bread_eq [OF s b(1) l] .
  have u: "uniq d B" and bo: "\<And>m. buf_of d B m =
      (if m = n then Some b else if buf_of d (bufs s) m = Some b then None else buf_of d (bufs s) m)"
    unfolding B_def using buf_of_upd [OF s(4) b(2) r(1,2)] b(3) by blast+
  have f: "bufs t = B" "disk t = disk s" "dwrites t = dwrites s" "hs t = hs s"
      "slocks t = (slocks s)(BufLk b := (slocks s (BufLk b))\<lparr>slocked := True, spid := pid (procs s p)\<rparr>)"
    by (simp_all add: t_def locked_by_def)
  have rr: "unat (refcnt r) = Suc (R n)" "bdata r = C n"
    using filled_taken_view [OF s(4) b(2,3) ok [OF b(2)]] n(2) a(1,2) [of n] by (simp_all add: r_def)
  have other: "content d s m = disk s m" "refs d s m = 0" "owner d s m = None"
    if m: "m \<noteq> n" "buf_of d (bufs s) m = Some b" for m
  proof -
    have "refcnt (bufs s b) = 0" using b(3) m buf_of_Some [of d "bufs s" n b] buf_of_Some [OF m(2)] by auto
    then show "content d s m = disk s m" "refs d s m = 0" "owner d s m = None"
      using m(2) ok [OF b(2)] buf_of_Some [OF m(2)]
      by (simp_all add: content_def refs_def owner_def buf_ok_def)
  qed
  have "cache p d t C (R(n := Suc (R n))) (H(n := Some (pid (procs s p))))"
  proof (rule cacheI [where xs = xs])
    show "calm p t" using s(1) f by simp
    show "lru (bufs t) xs" using s(2) lru_cong [of B "bufs s" xs] r f by (simp add: B_def)
    show "uniq d (bufs t)" using u f by simp
    show "buf_ok d (disk t) (slocked (slocks t (BufLk c))) (bufs t c)" if "c < NBUF" for c
      using ok [OF that] r rr(1) f by (auto simp: B_def buf_ok_def)
    show "content d t m = C m" for m
      using bo [of m] a(1) [of m] other [of m] rr(2) r(5) f
      by (cases "m = n"; cases "buf_of d (bufs s) m") (auto simp: content_def B_def)
    show "refs d t m = (R(n := Suc (R n))) m" for m
      using bo [of m] a(2) [of m] other [of m] rr(1) f
      by (cases "m = n"; cases "buf_of d (bufs s) m") (auto simp: refs_def B_def)
    show "owner d t m = (H(n := Some (pid (procs s p)))) m" for m
      using bo [of m] a(3) [of m] other [of m] f
      by (cases "m = n"; cases "buf_of d (bufs s) m") (auto simp: owner_def)
  qed (use s(3) in simp)
  moreover have "bframe s t"
    by (rule bframeI [where P = "procs s" and W = "dwrites s" and D = "disk s" and L = "slocks t" and B = B])
      (simp_all add: f(5), simp_all add: t_def locked_by_def)
  moreover have "buf_of d (bufs t) m = buf_of d (bufs s) m" if "R m \<noteq> 0" for m
    using bo [of m] other [of m] a(2) [of m] that f b(3) by (cases "m = n") (auto simp: refs_def)
  ultimately show ?thesis using run f bo [of n] by auto
qed

lemma view_cong:
  assumes "\<And>c. bdev (B' c) = bdev (B c)" "\<And>c. blockno (B' c) = blockno (B c)"
  shows "uniq d B' = uniq d B" "buf_of d B' n = buf_of d B n"
  using assms by (simp_all add: uniq_def buf_of_def)

text \<open>Changing the data or the reference count of a cached block.\<close>

lemma cache_upd:
  assumes c: "cache p d s C R H" and b: "buf_of d (bufs s) n = Some b"
    and r: "bdev r = d" "blockno r = n" "bnext r = bnext (bufs s b)" "bprev r = bprev (bufs s b)" "valid r"
      "buf_ok d (disk s) (slocked (slocks s (BufLk b))) r"
  shows "cache p d (s\<lparr>bufs := (bufs s)(b := r)\<rparr>) (C(n := bdata r)) (R(n := unat (refcnt r))) H"
    and "buf_of d ((bufs s)(b := r)) m = buf_of d (bufs s) m"
proof -
  obtain xs where s: "calm p s" "lru (bufs s) xs" "set xs = {..<NBUF}" "uniq d (bufs s)"
      and ok: "\<And>b. b < NBUF \<Longrightarrow> buf_ok d (disk s) (slocked (slocks s (BufLk b))) (bufs s b)"
      and a: "\<And>n. content d s n = C n" "\<And>n. refs d s n = R n" "\<And>n. owner d s n = H n"
    by (rule cacheE [OF c]) blast
  note bb = buf_of_Some [OF b]
  have v: "uniq d ((bufs s)(b := r)) = uniq d (bufs s)" "\<And>m. buf_of d ((bufs s)(b := r)) m = buf_of d (bufs s) m"
    using bb r by (auto intro!: view_cong)
  show "buf_of d ((bufs s)(b := r)) m = buf_of d (bufs s) m" by (rule v)
  have o: "c \<noteq> b" if "buf_of d (bufs s) m = Some c" "m \<noteq> n" for m c
    using buf_of_Some [OF that(1)] bb that(2) by auto
  show "cache p d (s\<lparr>bufs := (bufs s)(b := r)\<rparr>) (C(n := bdata r)) (R(n := unat (refcnt r))) H"
  proof (rule cacheI [where xs = xs])
    show "lru (bufs (s\<lparr>bufs := (bufs s)(b := r)\<rparr>)) xs"
      using s(2) lru_cong [of "(bufs s)(b := r)" "bufs s" xs] r by simp
    show "content d (s\<lparr>bufs := (bufs s)(b := r)\<rparr>) m = (C(n := bdata r)) m" for m
      using a(1) [of m] b r(5) o [of m]
      by (cases "m = n"; cases "buf_of d (bufs s) m") (auto simp: content_def v)
    show "refs d (s\<lparr>bufs := (bufs s)(b := r)\<rparr>) m = (R(n := unat (refcnt r))) m" for m
      using a(2) [of m] b o [of m]
      by (cases "m = n"; cases "buf_of d (bufs s) m") (auto simp: refs_def v)
    show "owner d (s\<lparr>bufs := (bufs s)(b := r)\<rparr>) m = H m" for m
      using a(3) [of m] by (simp add: owner_def v cong: option.case_cong if_cong)
  qed (use s ok r(6) v in auto)
qed

lemma bframe_bufs: "bframe s (s\<lparr>bufs := B\<rparr>)"
  by (rule bframeI [where P = "procs s" and W = "dwrites s" and D = "disk s" and L = "slocks s" and B = B]) simp_all

lemma set_data_rule:
  assumes c: "cache p d s C R H" and b: "buf_of d (bufs s) n = Some b" "R n \<noteq> 0"
  shows "\<exists>t. upd_buf b (\<lambda>r. r\<lparr>bdata := f (bdata r)\<rparr>) s = Ret () t \<and> bframe s t \<and>
    disk t = disk s \<and> dwrites t = dwrites s \<and> buf_of d (bufs t) = buf_of d (bufs s) \<and> cache p d t (C(n := f (C n))) R H"
proof -
  note D = cacheD [OF c b(1)]
  have rc: "refcnt (bufs s b) \<noteq> 0" using D(4) b(2) by auto
  have v: "valid (bufs s b)" "bdata (bufs s b) = C n" using D(6) b(2) by auto
  have "buf_ok d (disk s) (slocked (slocks s (BufLk b))) ((bufs s b)\<lparr>bdata := f (bdata (bufs s b))\<rparr>)"
    using v rc D(2) by (simp add: buf_ok_def)
  then have "cache p d (s\<lparr>bufs := (bufs s)(b := (bufs s b)\<lparr>bdata := f (bdata (bufs s b))\<rparr>)\<rparr>) (C(n := f (C n))) R H"
      "\<And>m. buf_of d ((bufs s)(b := (bufs s b)\<lparr>bdata := f (bdata (bufs s b))\<rparr>)) m = buf_of d (bufs s) m"
    using cache_upd [OF c b(1), of "(bufs s b)\<lparr>bdata := f (bdata (bufs s b))\<rparr>"] D(1,2,3) v
    by (simp_all add: D(4) [symmetric])
  then show ?thesis by (auto simp: upd_buf_def bframe_bufs)
qed

lemma bpin_rule:
  assumes c: "cache p d s C R H" and b: "buf_of d (bufs s) n = Some b" "R n \<noteq> 0" "Suc (R n) < 2 ^ 32"
  shows "\<exists>t. bpin b s = Ret () t \<and> bframe s t \<and> disk t = disk s \<and> dwrites t = dwrites s \<and>
    buf_of d (bufs t) = buf_of d (bufs s) \<and> cache p d t C (R(n := Suc (R n))) H"
proof -
  note D = cacheD [OF c b(1)]
  let ?r = "(bufs s b)\<lparr>refcnt := refcnt (bufs s b) + 1\<rparr>"
  have u: "unat (refcnt (bufs s b) + 1) = Suc (R n)" using b(3) D(4) by (simp add: unat_word_ariths)
  then have "refcnt (bufs s b) + 1 \<noteq> 0" by (metis nat.distinct(1) unat_0)
  then have "buf_ok d (disk s) (slocked (slocks s (BufLk b))) ?r" using D(2,6) b(2) by (simp add: buf_ok_def)
  then have "cache p d (s\<lparr>bufs := (bufs s)(b := ?r)\<rparr>) C (R(n := Suc (R n))) H"
      "\<And>m. buf_of d ((bufs s)(b := ?r)) m = buf_of d (bufs s) m"
    using cache_upd [OF c b(1), of ?r] D b(2) u by simp_all
  moreover have "calm p s" using c by (simp add: cache_def)
  then have "bpin b s = Ret () (s\<lparr>bufs := (bufs s)(b := ?r)\<rparr>)"
    by (simp add: bpin_def kexec lock_rules upd_buf_def upd_order)
  ultimately show ?thesis by (auto simp: bframe_bufs)
qed

lemma bunpin_rule:
  assumes c: "cache p d s C R H" and b: "buf_of d (bufs s) n = Some b" "1 < R n"
  shows "\<exists>t. bunpin b s = Ret () t \<and> bframe s t \<and> disk t = disk s \<and> dwrites t = dwrites s \<and>
    buf_of d (bufs t) = buf_of d (bufs s) \<and> cache p d t C (R(n := R n - 1)) H"
proof -
  note D = cacheD [OF c b(1)]
  let ?r = "(bufs s b)\<lparr>refcnt := refcnt (bufs s b) - 1\<rparr>"
  have "refcnt (bufs s b) \<noteq> 0" using b(2) D(4) by auto
  then have u: "unat (refcnt (bufs s b) - 1) = R n - 1" using D(4) by (simp add: unat_minus_one)
  then have "refcnt (bufs s b) - 1 \<noteq> 0" using b(2) by (metis less_numeral_extra(3) unat_0 zero_less_diff)
  then have "buf_ok d (disk s) (slocked (slocks s (BufLk b))) ?r" using D(2,6) b(2) by (simp add: buf_ok_def)
  then have "cache p d (s\<lparr>bufs := (bufs s)(b := ?r)\<rparr>) C (R(n := R n - 1)) H"
      "\<And>m. buf_of d ((bufs s)(b := ?r)) m = buf_of d (bufs s) m"
    using cache_upd [OF c b(1), of ?r] D b(2) u by simp_all
  moreover have "calm p s" using c by (simp add: cache_def)
  then have "bunpin b s = Ret () (s\<lparr>bufs := (bufs s)(b := ?r)\<rparr>)"
    by (simp add: bunpin_def kexec lock_rules upd_buf_def upd_order)
  ultimately show ?thesis by (auto simp: bframe_bufs)
qed

lemma bwrite_rule:
  assumes c: "cache p d s C R H" and b: "buf_of d (bufs s) n = Some b" "R n \<noteq> 0" "H n = Some (pid (procs s p))"
  shows "\<exists>t. bwrite b s = Ret () t \<and> bframe s t \<and> disk t = (disk s)(n := C n) \<and>
    dwrites t = dwrites s @ [(n, C n)] \<and> buf_of d (bufs t) = buf_of d (bufs s) \<and> cache p d t C R H"
proof -
  note D = cacheD [OF c b(1)]
  obtain xs where s: "calm p s" "lru (bufs s) xs" "set xs = {..<NBUF}" "uniq d (bufs s)"
      and ok: "\<And>b. b < NBUF \<Longrightarrow> buf_ok d (disk s) (slocked (slocks s (BufLk b))) (bufs s b)"
      and a: "\<And>n. content d s n = C n" "\<And>n. refs d s n = R n" "\<And>n. owner d s n = H n"
    by (rule cacheE [OF c]) blast
  let ?t = "s\<lparr>disk := (disk s)(n := C n), dwrites := dwrites s @ [(n, C n)]\<rparr>"
  have v: "valid (bufs s b)" "bdata (bufs s b) = C n" using D(6) b(2) by auto
  have rc: "refcnt (bufs s b) \<noteq> 0" using D(4) b(2) by auto
  have "bwrite b s = Ret () ?t"
    using D(3,5) b(3) v s(1) by (simp add: bwrite_def kexec holdingsleep_eq disk_rw_def split: if_splits)
  moreover have "bframe s ?t"
    by (rule bframeI [where P = "procs s" and L = "slocks s" and B = "bufs s"]) simp_all
  moreover have "cache p d ?t C R H"
  proof (rule cacheI [where xs = xs])
    show "buf_ok d (disk ?t) (slocked (slocks ?t (BufLk c))) (bufs ?t c)" if "c < NBUF" for c
      using ok [OF that] buf_of_uniq [OF s(4) that, of n] b(1) rc by (auto simp: buf_ok_def)
    show "content d ?t m = C m" for m
      using a(1) [of m] b(1) v by (cases "m = n") (auto simp: content_def split: option.splits)
    show "refs d ?t m = R m" for m using a(2) [of m] by (simp add: refs_def cong: option.case_cong)
    show "owner d ?t m = H m" for m using a(3) [of m] by (simp add: owner_def cong: option.case_cong if_cong)
  qed (use s in auto)
  ultimately show ?thesis by auto
qed

text \<open>Relinking touches nothing but the links.\<close>

lemma set_link_fields:
  "bdev (set_next b n B c) = bdev (B c)" "blockno (set_next b n B c) = blockno (B c)"
  "valid (set_next b n B c) = valid (B c)" "bdata (set_next b n B c) = bdata (B c)"
  "refcnt (set_next b n B c) = refcnt (B c)"
  "bdev (set_prev b n B c) = bdev (B c)" "blockno (set_prev b n B c) = blockno (B c)"
  "valid (set_prev b n B c) = valid (B c)" "bdata (set_prev b n B c) = bdata (B c)"
  "refcnt (set_prev b n B c) = refcnt (B c)"
  by (simp_all add: set_next_def set_prev_def)

lemma relink_fields:
  "bdev (link_front b B c) = bdev (B c)" "blockno (link_front b B c) = blockno (B c)"
  "valid (link_front b B c) = valid (B c)" "bdata (link_front b B c) = bdata (B c)"
  "refcnt (link_front b B c) = refcnt (B c)"
  "bdev (unlink b B c) = bdev (B c)" "blockno (unlink b B c) = blockno (B c)"
  "valid (unlink b B c) = valid (B c)" "bdata (unlink b B c) = bdata (B c)"
  "refcnt (unlink b B c) = refcnt (B c)"
  by (simp_all add: link_front_def unlink_def Let_def set_link_fields)

lemma released_bufs_fields:
  "bdev (released_bufs b B c) = bdev (B c)" "blockno (released_bufs b B c) = blockno (B c)"
  "valid (released_bufs b B c) = valid (B c)" "bdata (released_bufs b B c) = bdata (B c)"
  "refcnt (released_bufs b B c) = (if c = b then refcnt (B b) - 1 else refcnt (B c))"
  by (simp_all add: released_bufs_def Let_def relink_fields)

lemma lru_released:
  assumes "lru B xs" "b \<in> set xs"
  shows "\<exists>ys. lru (released_bufs b B) ys \<and> set ys = set xs \<and> (refcnt (B b) = 1 \<longrightarrow> hd ys = b)"
proof -
  let ?B = "B(b := (B b)\<lparr>refcnt := refcnt (B b) - 1\<rparr>)"
  have l: "lru ?B xs" using assms(1) lru_cong [of ?B B xs] by simp
  show ?thesis
  proof (cases "refcnt (B b) = 1")
    case False
    then show ?thesis using l by (intro exI [of _ xs]) (simp add: released_bufs_def)
  next
    case True
    obtain us vs where x: "xs = us @ b # vs" using assms(2) by (meson split_list)
    then have d: "b \<notin> set (us @ vs)" "b \<noteq> HEAD" using l by (auto simp: lru_def)
    have "lru (unlink b ?B) (us @ vs)" using l x lru_unlink by blast
    then have "lru (link_front b (unlink b ?B)) (b # us @ vs)" using lru_link_front d by blast
    then show ?thesis using True x by (intro exI [of _ "b # us @ vs"]) (auto simp: released_bufs_def)
  qed
qed

lemma woken_procs_fields:
  "pid (woken_procs me ch P q) = pid (P q)" "(woken_procs me ch P q)\<lparr>state := UNUSED\<rparr> = (P q)\<lparr>state := UNUSED\<rparr>"
  by (simp_all add: woken_procs_def map_procs_def wake_proc_def)

lemma brelse_rule:
  assumes c: "cache p d s C R H" and b: "buf_of d (bufs s) n = Some b" "R n \<noteq> 0" "H n = Some (pid (procs s p))"
    and clean: "R n = 1 \<Longrightarrow> C n = disk s n"
  shows "\<exists>t. brelse b s = Ret () t \<and> bframe s t \<and> disk t = disk s \<and> dwrites t = dwrites s \<and>
    buf_of d (bufs t) = buf_of d (bufs s) \<and> cache p d t C (R(n := R n - 1)) (H(n := None))"
proof -
  note D = cacheD [OF c b(1)]
  obtain xs where s: "calm p s" "lru (bufs s) xs" "set xs = {..<NBUF}" "uniq d (bufs s)"
      and ok: "\<And>b. b < NBUF \<Longrightarrow> buf_ok d (disk s) (slocked (slocks s (BufLk b))) (bufs s b)"
      and a: "\<And>n. content d s n = C n" "\<And>n. refs d s n = R n" "\<And>n. owner d s n = H n"
    by (rule cacheE [OF c]) blast
  define t where "t = s\<lparr>slocks := (slocks s)(BufLk b := (slocks s (BufLk b))\<lparr>slocked := False, spid := 0\<rparr>),
      procs := woken_procs (Some p) (ChBufLock b) (procs s), bufs := released_bufs b (bufs s)\<rparr>"
  have f: "bufs t = released_bufs b (bufs s)" "disk t = disk s" "dwrites t = dwrites s" "hs t = hs s"
      "slocks t = (slocks s)(BufLk b := (slocks s (BufLk b))\<lparr>slocked := False, spid := 0\<rparr>)"
    by (simp_all add: t_def)
  have "slocked (slocks s (BufLk b))" "spid (slocks s (BufLk b)) = pid (procs s p)"
    using D(5) b(3) by (simp_all split: if_splits)
  then have run: "brelse b s = Ret () t" unfolding t_def using brelse_eq [OF s(1)] by blast
  have fr: "bframe s t"
    by (rule bframeI [where P = "woken_procs (Some p) (ChBufLock b) (procs s)" and W = "dwrites s" and D = "disk s"
          and L = "slocks t" and B = "bufs t"]) (simp_all add: f(5) woken_procs_fields, simp add: t_def)
  obtain ys where ys: "lru (released_bufs b (bufs s)) ys" "set ys = {..<NBUF}"
    using lru_released [OF s(2), of b] D(1) s(3) by auto
  have v: "uniq d (released_bufs b (bufs s))" "buf_of d (released_bufs b (bufs s)) m = buf_of d (bufs s) m" for m
    using view_cong [of "released_bufs b (bufs s)" "bufs s" d] s(4) by (simp_all add: released_bufs_fields)
  have o: "c \<noteq> b" if "buf_of d (bufs s) m = Some c" "m \<noteq> n" for m c
    using buf_of_Some [OF that(1)] D(3) that(2) by auto
  have rc: "refcnt (bufs s b) \<noteq> 0" using D(4) b(2) by auto
  then have u: "unat (refcnt (bufs s b) - 1) = R n - 1" using D(4) by (simp add: unat_minus_one)
  have vb: "valid (bufs s b)" "bdata (bufs s b) = C n" using D(6) b(2) by auto
  have cl: "bdata (bufs s b) = disk s n" if "refcnt (bufs s b) - 1 = 0"
    using that u b(2) clean vb(2) by simp
  have "cache p d t C (R(n := R n - 1)) (H(n := None))"
  proof (rule cacheI [where xs = ys])
    show "buf_ok d (disk t) (slocked (slocks t (BufLk c))) (bufs t c)" if "c < NBUF" for c
    proof (cases "c = b")
      case True
      then show ?thesis using cl D(2,3) vb(1) by (simp add: buf_ok_def f released_bufs_fields)
    next
      case False
      then show ?thesis using ok [OF that] by (simp add: buf_ok_def f released_bufs_fields)
    qed
    show "content d t m = C m" for m
      using a(1) [of m] by (simp add: content_def v f released_bufs_fields cong: option.case_cong if_cong)
    show "refs d t m = (R(n := R n - 1)) m" for m
      using a(2) [of m] b(1) u o [of m]
      by (cases "m = n"; cases "buf_of d (bufs s) m") (auto simp: refs_def v f released_bufs_fields)
    show "owner d t m = (H(n := None)) m" for m
      using a(3) [of m] b(1) o [of m]
      by (cases "m = n"; cases "buf_of d (bufs s) m") (auto simp: owner_def v f)
  qed (use s ys f v in auto)
  with run fr v f show ?thesis by auto
qed

section \<open>The interface of the cache\<close>

text \<open>
  What the layers above rely on. \<open>view s C R H\<close> says what the cache presents in \<open>s\<close>; \<open>rd\<close>, \<open>upd\<close>,
  \<open>wr\<close> and \<open>rel\<close> stand for \<^verbatim>\<open>bread\<close>, an assignment to the data of a buffer, \<^verbatim>\<open>bwrite\<close> and \<^verbatim>\<open>brelse\<close>.
\<close>

locale block_cache =
  fixes view :: "'s \<Rightarrow> (u32 \<Rightarrow> block) \<Rightarrow> (u32 \<Rightarrow> nat) \<Rightarrow> (u32 \<Rightarrow> int option) \<Rightarrow> bool"
    and at :: "'s \<Rightarrow> u32 \<Rightarrow> nat option"
    and me :: "'s \<Rightarrow> int"
    and medium :: "'s \<Rightarrow> u32 \<Rightarrow> block"
    and history :: "'s \<Rightarrow> (u32 \<times> block) list"
    and frame :: "'s \<Rightarrow> 's \<Rightarrow> bool"
    and data :: "nat \<Rightarrow> 's \<Rightarrow> block"
    and rd :: "u32 \<Rightarrow> ('s, nat) kop"
    and upd :: "nat \<Rightarrow> (block \<Rightarrow> block) \<Rightarrow> ('s, unit) kop"
    and wr :: "nat \<Rightarrow> ('s, unit) kop"
    and rel :: "nat \<Rightarrow> ('s, unit) kop"
  assumes view_data: "view s C R H \<Longrightarrow> at s n = Some b \<Longrightarrow> R n \<noteq> 0 \<Longrightarrow> data b s = C n"
    and view_clean: "view s C R H \<Longrightarrow> R n = 0 \<Longrightarrow> C n = medium s n"
    and frame_trans: "frame s t \<Longrightarrow> frame t u \<Longrightarrow> frame s u"
    and frame_me: "frame s t \<Longrightarrow> me t = me s"
    and rd_rule: "view s C R H \<Longrightarrow> H n = None \<Longrightarrow> Suc (R n) < 2 ^ 32 \<Longrightarrow>
      R n \<noteq> 0 \<or> card {m. R m \<noteq> 0} < NBUF \<Longrightarrow>
      \<exists>b t. rd n s = Ret b t \<and> frame s t \<and> medium t = medium s \<and> history t = history s \<and> at t n = Some b \<and>
        (\<forall>m. R m \<noteq> 0 \<longrightarrow> at t m = at s m) \<and> view t C (R(n := Suc (R n))) (H(n := Some (me s)))"
    and upd_rule: "view s C R H \<Longrightarrow> at s n = Some b \<Longrightarrow> R n \<noteq> 0 \<Longrightarrow>
      \<exists>t. upd b f s = Ret () t \<and> frame s t \<and> medium t = medium s \<and> history t = history s \<and> at t = at s \<and>
        view t (C(n := f (C n))) R H"
    and wr_rule: "view s C R H \<Longrightarrow> at s n = Some b \<Longrightarrow> R n \<noteq> 0 \<Longrightarrow> H n = Some (me s) \<Longrightarrow>
      \<exists>t. wr b s = Ret () t \<and> frame s t \<and> medium t = (medium s)(n := C n) \<and>
        history t = history s @ [(n, C n)] \<and> at t = at s \<and> view t C R H"
    and rel_rule: "view s C R H \<Longrightarrow> at s n = Some b \<Longrightarrow> R n \<noteq> 0 \<Longrightarrow> H n = Some (me s) \<Longrightarrow>
      (R n = 1 \<Longrightarrow> C n = medium s n) \<Longrightarrow>
      \<exists>t. rel b s = Ret () t \<and> frame s t \<and> medium t = medium s \<and> history t = history s \<and> at t = at s \<and>
        view t C (R(n := R n - 1)) (H(n := None))"
begin

text \<open>Reading a block and releasing it: the client sees the contents, and the view is unchanged.\<close>

lemma read_block:
  assumes v: "view s C R H" and n: "H n = None" "Suc (R n) < 2 ^ 32" "R n \<noteq> 0 \<or> card {m. R m \<noteq> 0} < NBUF"
  shows "\<exists>t. frame s t \<and> medium t = medium s \<and> history t = history s \<and> view t C R H \<and>
    (\<forall>k. bind (rd n) (\<lambda>b. bind (get (data b)) (\<lambda>x. seq (rel b) (k x))) s = k (C n) t)"
proof -
  obtain b t where t: "rd n s = Ret b t" "frame s t" "medium t = medium s" "history t = history s" "at t n = Some b"
      and vt: "view t C (R(n := Suc (R n))) (H(n := Some (me s)))"
    using rd_rule [OF v n] by blast
  have "\<exists>u. rel b t = Ret () u \<and> frame t u \<and> medium u = medium t \<and> history u = history t \<and> at u = at t \<and>
      view u C ((R(n := Suc (R n)))(n := (R(n := Suc (R n))) n - 1)) ((H(n := Some (me s)))(n := None))"
    by (rule rel_rule [OF vt t(5)]) (use view_clean [OF v] frame_me [OF t(2)] t(3) in auto)
  then obtain u where u: "rel b t = Ret () u" "frame t u" "medium u = medium t" "history u = history t"
      "view u C R H" using n(1) by (auto simp: fun_upd_idem)
  have "data b t = C n" using view_data [OF vt t(5)] by simp
  with t u show ?thesis using frame_trans [OF t(2) u(2)]
    by (intro exI [of _ u]) (simp add: bind_Ret seq_Ret)
qed

text \<open>Writing a block through to the medium.\<close>

lemma write_block:
  assumes v: "view s C R H" and n: "H n = None" "Suc (R n) < 2 ^ 32" "R n \<noteq> 0 \<or> card {m. R m \<noteq> 0} < NBUF"
  shows "\<exists>t. bind (rd n) (\<lambda>b. seq (upd b f) (seq (wr b) (rel b))) s = Ret () t \<and> frame s t \<and>
    medium t = (medium s)(n := f (C n)) \<and> history t = history s @ [(n, f (C n))] \<and> view t (C(n := f (C n))) R H"
proof -
  obtain b t where t: "rd n s = Ret b t" "frame s t" "medium t = medium s" "history t = history s" "at t n = Some b"
      and vt: "view t C (R(n := Suc (R n))) (H(n := Some (me s)))"
    using rd_rule [OF v n] by blast
  obtain u where u: "upd b f t = Ret () u" "frame t u" "medium u = medium t" "history u = history t" "at u = at t"
      and vu: "view u (C(n := f (C n))) (R(n := Suc (R n))) (H(n := Some (me s)))"
    using upd_rule [OF vt t(5)] by auto
  have mu: "me u = me s" using frame_me [OF t(2)] frame_me [OF u(2)] by simp
  have au: "at u n = Some b" using t(5) u(5) by simp
  obtain w where w: "wr b u = Ret () w" "frame u w" "medium w = (medium u)(n := f (C n))"
      "history w = history u @ [(n, f (C n))]" "at w = at u"
      and vw: "view w (C(n := f (C n))) (R(n := Suc (R n))) (H(n := Some (me s)))"
    using wr_rule [OF vu au] mu by auto
  have "\<exists>x. rel b w = Ret () x \<and> frame w x \<and> medium x = medium w \<and> history x = history w \<and> at x = at w \<and>
      view x (C(n := f (C n))) ((R(n := Suc (R n)))(n := (R(n := Suc (R n))) n - 1)) ((H(n := Some (me s)))(n := None))"
    by (rule rel_rule [OF vw]) (use au w(3,5) mu frame_me [OF w(2)] in auto)
  then obtain x where x: "rel b w = Ret () x" "frame w x" "medium x = medium w" "history x = history w"
      "view x (C(n := f (C n))) R H" using n(1) by (auto simp: fun_upd_idem)
  have "frame s x" by (rule frame_trans [OF frame_trans [OF frame_trans [OF t(2) u(2)] w(2)] x(2)])
  with t(1,3,4) u(1,3,4) w(1,3,4) x(1,3,4,5) show ?thesis by (intro exI [of _ x]) (simp add: bind_Ret seq_Ret)
qed

end

lemma cache_clean:
  assumes "cache p d s C R H" "R n = 0"
  shows "C n = disk s n"
proof (cases "buf_of d (bufs s) n")
  case None
  then have "content d s n = disk s n" by (simp add: content_def)
  with assms(1) show ?thesis by (auto simp: cache_def)
next
  case (Some b)
  note D = cacheD [OF assms(1) Some]
  have "refcnt (bufs s b) = 0" using D(4) assms(2) by (simp add: unat_eq_zero)
  moreover have "buf_ok d (disk s) (slocked (slocks s (BufLk b))) (bufs s b)"
    using assms(1) D(1) by (simp add: cache_def cache_inv_def)
  ultimately have "content d s n = disk s n" using Some D(2,3) by (simp add: content_def buf_ok_def)
  with assms(1) show ?thesis by (auto simp: cache_def)
qed

interpretation bc: block_cache "cache p d" "\<lambda>s. buf_of d (bufs s)" "\<lambda>s. pid (procs s p)" disk dwrites bframe
  "\<lambda>b s. bdata (bufs s b)" "bread E d" "\<lambda>b f. upd_buf b (\<lambda>r. r\<lparr>bdata := f (bdata r)\<rparr>)" bwrite brelse
proof (unfold_locales, goal_cases)
  case 1
  then show ?case by (rule cacheD(6) [THEN conjunct2])
next
  case 2
  then show ?case by (rule cache_clean)
next
  case 3
  then show ?case by (rule bframe_trans)
next
  case 4
  then show ?case by (rule bframe_pid)
next
  case 5
  then show ?case by (rule bread_rule)
next
  case 6
  then show ?case by (rule set_data_rule)
next
  case 7
  then show ?case by (rule bwrite_rule)
next
  case 8
  then show ?case by (rule brelse_rule)
qed

section \<open>Initialisation\<close>

definition empty_ring :: "(nat \<Rightarrow> buf) \<Rightarrow> nat \<Rightarrow> buf" where
  "empty_ring B = set_next HEAD HEAD (set_prev HEAD HEAD B)"

lemma empty_ring_fields:
  "bdev (empty_ring B c) = bdev (B c)" "blockno (empty_ring B c) = blockno (B c)"
  "valid (empty_ring B c) = valid (B c)" "bdata (empty_ring B c) = bdata (B c)"
  "refcnt (empty_ring B c) = refcnt (B c)"
  by (simp_all add: empty_ring_def set_link_fields)

lemma lru_fold_link:
  "n \<le> NBUF \<Longrightarrow> lru (fold link_front [0..<n] (empty_ring B)) (rev [0..<n])"
proof (induction n)
  case 0
  then show ?case by (simp add: lru_def empty_ring_def set_next_def set_prev_def)
next
  case (Suc n)
  then show ?case using lru_link_front [of _ "rev [0..<n]" n] by simp
qed

lemma fold_link_fields:
  "bdev (fold link_front bs B c) = bdev (B c)" "blockno (fold link_front bs B c) = blockno (B c)"
  "valid (fold link_front bs B c) = valid (B c)" "bdata (fold link_front bs B c) = bdata (B c)"
  "refcnt (fold link_front bs B c) = refcnt (B c)"
  by (induction bs arbitrary: B) (simp_all add: relink_fields)

definition init_lk :: "lock \<Rightarrow> string \<Rightarrow> harts \<Rightarrow> harts" where
  "init_lk lk nm h = h\<lparr>locks := (locks h)(lk := (locks h lk)\<lparr>lname := nm, locked := False, lcpu := None\<rparr>)\<rparr>"

lemma initlock_eq: "initlock lk nm s = Ret () (s\<lparr>hs := init_lk lk nm (hs s)\<rparr>)"
  by (simp add: initlock_def upd_lock_def init_lk_def)

definition init_buf :: "nat \<Rightarrow> 'x bio_st_scheme \<Rightarrow> 'x bio_st_scheme" where
  "init_buf b s = s\<lparr>hs := init_lk (BufSleepLk b) ''sleep lock'' (hs s),
     slocks := (slocks s)(BufLk b := (slocks s (BufLk b))\<lparr>sname := ''buffer'', slocked := False, spid := 0\<rparr>),
     bufs := link_front b (bufs s)\<rparr>"

lemma fold_init_buf:
  "bufs (fold init_buf bs s) = fold link_front bs (bufs s)" "disk (fold init_buf bs s) = disk s"
  "slocked (slocks (fold init_buf bs s) (BufLk b)) = (b \<notin> set bs \<and> slocked (slocks s (BufLk b)))"
  by (induction bs arbitrary: s) (auto simp: init_buf_def)

lemma binit_eq:
  "binit s = Ret () (fold init_buf [0..<NBUF]
     (s\<lparr>hs := init_lk BcacheLock ''bcache'' (hs s), bufs := empty_ring (bufs s)\<rparr>))"
proof -
  have "(\<lambda>b. seq (initsleeplock (BufLk b) ''buffer'') (modify (\<lambda>s. s\<lparr>bufs := link_front b (bufs s)\<rparr>))) b t =
      Ret () (init_buf b t)" for b and t :: "'a bio_st_scheme"
    by (simp add: initsleeplock_def kexec initlock_eq upd_slk_def init_buf_def)
  then have "kfor (\<lambda>b. seq (initsleeplock (BufLk b) ''buffer'') (modify (\<lambda>s. s\<lparr>bufs := link_front b (bufs s)\<rparr>))) bs t =
      Ret () (fold init_buf bs t)" for bs and t :: "'a bio_st_scheme"
    by (intro kfor_fold [where I = "\<lambda>_. True"]) simp_all
  then show ?thesis by (simp add: binit_def kexec initlock_eq empty_ring_def)
qed

lemma zeroed_cache_inv:
  assumes "lru (bufs s) xs" "set xs = {..<NBUF}" "\<And>b. b < NBUF \<Longrightarrow> \<not> slocked (slocks s (BufLk b))"
    and "\<And>b. b < NBUF \<Longrightarrow> bdev (bufs s b) \<noteq> d \<and> refcnt (bufs s b) = 0"
  shows "cache_inv d s" "content d s = disk s" "refs d s = (\<lambda>_. 0)" "owner d s = (\<lambda>_. None)"
proof -
  have "buf_of d (bufs s) n = None" for n using assms(4) by (simp add: buf_of_None)
  then show "content d s = disk s" "refs d s = (\<lambda>_. 0)" "owner d s = (\<lambda>_. None)"
    by (simp_all add: fun_eq_iff content_def refs_def owner_def)
  show "cache_inv d s" using assms by (auto simp: cache_inv_def uniq_def buf_ok_def)
qed

lemma find_first_split:
  "List.find P xs = Some b \<Longrightarrow> \<exists>ys zs. xs = ys @ b # zs \<and> P b \<and> (\<forall>y\<in>set ys. \<not> P y)"
proof (induction xs)
  case (Cons x xs)
  show ?case
  proof (cases "P x")
    case True
    then show ?thesis using Cons.prems by (intro exI [of _ "[]"] exI [of _ xs]) simp
  next
    case False
    with Cons obtain ys zs where "xs = ys @ b # zs" "P b" "\<forall>y\<in>set ys. \<not> P y" by auto
    then show ?thesis using False by (intro exI [of _ "x # ys"] exI [of _ zs]) simp
  qed
qed simp

section \<open>Properties\<close>

text \<open>\<^verbatim>\<open>binit\<close> establishes the invariant of the buffer cache for every device but device 0: from
  zeroed buffers it builds the LRU ring with buffer NBUF-1 first, no buffer locked or referenced, and a
  reader of any block would see the disk.\<close>

theorem binit_spec:
  assumes "\<And>b. b < NBUF \<Longrightarrow> bdev (bufs s b) = 0 \<and> refcnt (bufs s b) = 0" "d \<noteq> 0"
  shows "\<exists>t. binit s = Ret () t \<and> lru (bufs t) (rev [0..<NBUF]) \<and> cache_inv d t \<and>
    content d t = disk s \<and> refs d t = (\<lambda>_. 0) \<and> owner d t = (\<lambda>_. None)"
proof -
  let ?t = "fold init_buf [0..<NBUF] (s\<lparr>hs := init_lk BcacheLock ''bcache'' (hs s), bufs := empty_ring (bufs s)\<rparr>)"
  have l: "lru (bufs ?t) (rev [0..<NBUF])" by (simp add: fold_init_buf lru_fold_link)
  have "set (rev [0..<NBUF]) = {..<NBUF}" by auto
  moreover have "\<not> slocked (slocks ?t (BufLk b))" if "b < NBUF" for b using that by (simp add: fold_init_buf)
  moreover have "bdev (bufs ?t b) \<noteq> d \<and> refcnt (bufs ?t b) = 0" if "b < NBUF" for b
    using assms(1) [OF that] assms(2) by (simp add: fold_init_buf fold_link_fields empty_ring_fields)
  ultimately have "cache_inv d ?t" "content d ?t = disk ?t" "refs d ?t = (\<lambda>_. 0)" "owner d ?t = (\<lambda>_. None)"
    using zeroed_cache_inv [OF l, of d] by blast+
  with l show ?thesis by (simp add: binit_eq fold_init_buf)
qed

definition buf0 :: buf where
  "buf0 = \<lparr>valid = False, bdev = 0, blockno = 0, refcnt = 0, bprev = 0, bnext = 0, bdata = (\<lambda>_. 0)\<rparr>"

text \<open>An example: an initialised cache over a disk whose block \<open>n\<close> is filled with the byte \<open>n\<close>.\<close>

definition bio_ex :: bio_st where
  "bio_ex = slk_st.extend slk_ex \<lparr>bufs = fold link_front [0..<NBUF] (empty_ring (\<lambda>_. buf0)),
     disk = (\<lambda>n _. ucast n), dwrites = []\<rparr>"

lemma bio_ex_lru: "lru (bufs bio_ex) (rev [0..<NBUF])"
  by (simp add: bio_ex_def slk_st.defs lru_fold_link)

lemma bio_ex_fields: "bdev (bufs bio_ex b) = 0" "refcnt (bufs bio_ex b) = 0" "slocked (slocks bio_ex k) = False"
    "disk bio_ex = (\<lambda>n _. ucast n)" "calm 3 bio_ex"
  using slk_ex_calm
  by (simp_all add: bio_ex_def slk_st.defs fold_link_fields empty_ring_fields buf0_def slk_ex_def proc_st.defs del: slk_ex_calm)

lemma bio_ex_cache: "d \<noteq> 0 \<Longrightarrow> cache 3 d bio_ex (\<lambda>n _. ucast n) (\<lambda>_. 0) (\<lambda>_. None)"
  using zeroed_cache_inv [OF bio_ex_lru, of d] by (simp add: bio_ex_fields cache_def atLeast0LessThan)

theorem binit_spec_witness:
  "\<exists>t. binit bio_ex = Ret () t \<and> cache_inv 1 t \<and> content 1 t = (\<lambda>n _. ucast n)"
  using binit_spec [of bio_ex 1] by (auto simp: bio_ex_fields)

text \<open>C2: \<^verbatim>\<open>bread\<close> returns a locked buffer that holds exactly what the cache presents for the block: the
  data of the buffer that caches it, or else the disk. It takes one reference, keeps the invariant, and
  changes the contents, references and lock of no other block, even when it recycles a buffer.\<close>

theorem bread_coherent:
  assumes "cache p d s C R H" "H n = None" "Suc (R n) < 2 ^ 32" "R n \<noteq> 0 \<or> card {m. R m \<noteq> 0} < NBUF"
  shows "\<exists>b t. bread E d n s = Ret b t \<and> bdata (bufs t b) = C n \<and> valid (bufs t b) \<and>
    bdev (bufs t b) = d \<and> blockno (bufs t b) = n \<and> disk t = disk s \<and>
    cache p d t C (R(n := Suc (R n))) (H(n := Some (pid (procs s p))))"
proof -
  obtain b t where t: "bread E d n s = Ret b t" "disk t = disk s" "buf_of d (bufs t) n = Some b"
      and v: "cache p d t C (R(n := Suc (R n))) (H(n := Some (pid (procs s p))))"
    using bread_rule [OF assms] by blast
  then show ?thesis using cacheD [OF v t(3)] by auto
qed

theorem bread_coherent_witness:
  "\<exists>b t. bread (\<lambda>_ u. u) 1 45 bio_ex = Ret b t \<and> bdata (bufs t b) = (\<lambda>_. 45)"
  using bread_coherent [OF bio_ex_cache [of 1], where n = 45 and E = "\<lambda>_ u. u"] by (auto simp: NBUF_def)

text \<open>C30: On a miss \<^verbatim>\<open>bread\<close> recycles the least recently used buffer that nobody references: every
  buffer behind it in the list is in use. It panics exactly when all buffers are in use.\<close>

theorem bread_miss:
  assumes "cache p d s C R H" "lru (bufs s) xs" "set xs = {..<NBUF}" "buf_of d (bufs s) n = None"
  shows "if \<exists>b<NBUF. refcnt (bufs s b) = 0
    then \<exists>us b vs t. xs = us @ b # vs \<and> refcnt (bufs s b) = 0 \<and> (\<forall>v\<in>set vs. refcnt (bufs s v) \<noteq> 0) \<and>
      bread E d n s = Ret b t
    else bread E d n s = Panic ''bget: no buffers''"
proof -
  have s: "calm p s" "uniq d (bufs s)" using assms(1) by (simp_all add: cache_def cache_inv_def)
  have pb: "pick_buf d n xs (bufs s) = List.find (\<lambda>b. refcnt (bufs s b) = 0) (rev xs)"
    using assms(4) by (simp add: pick_buf_def)
  show ?thesis
  proof (cases "List.find (\<lambda>b. refcnt (bufs s b) = 0) (rev xs)")
    case None
    then have "\<not> (\<exists>b<NBUF. refcnt (bufs s b) = 0)" using assms(3) by (auto simp: find_None_iff)
    then show ?thesis using None pb bget_eq [OF s(1) assms(2,3) s(2), of E n] by (simp add: bread_def kexec)
  next
    case (Some b)
    then obtain ys zs where y: "rev xs = ys @ b # zs" "refcnt (bufs s b) = 0" "\<forall>v\<in>set ys. refcnt (bufs s v) \<noteq> 0"
      using find_first_split [OF Some] by blast
    have "xs = rev (ys @ b # zs)" by (simp only: y(1) [symmetric] rev_rev_ident)
    then have x: "xs = rev zs @ b # rev ys" by simp
    then have b: "b < NBUF" using assms(3) by auto
    have "buf_ok d (disk s) (slocked (slocks s (BufLk b))) (bufs s b)"
      using assms(1) b by (simp add: cache_def cache_inv_def)
    then have "\<not> slocked (slocks s (BufLk b))" using y(2) by (simp add: buf_ok_def)
    then have "\<exists>t. bread E d n s = Ret b t" using bread_eq [OF s(1) assms(2,3) s(2), of n b E] pb Some by simp
    moreover have "\<forall>v\<in>set (rev ys). refcnt (bufs s v) \<noteq> 0" using y(3) by simp
    ultimately have "\<exists>us b vs t. xs = us @ b # vs \<and> refcnt (bufs s b) = 0 \<and> (\<forall>v\<in>set vs. refcnt (bufs s v) \<noteq> 0) \<and>
      bread E d n s = Ret b t" using x y(2) by blast
    moreover have "\<exists>b<NBUF. refcnt (bufs s b) = 0" using b y(2) by blast
    ultimately show ?thesis by simp
  qed
qed

theorem bread_miss_witness: "\<exists>t. bread (\<lambda>_ u. u) 1 45 bio_ex = Ret 0 t"
proof -
  define xs where "xs = rev [0..<NBUF]"
  have n: "buf_of 1 (bufs bio_ex) 45 = None" by (simp add: buf_of_None bio_ex_fields)
  have z: "\<exists>b<NBUF. refcnt (bufs bio_ex b) = 0" by (intro exI [of _ 0]) (simp add: bio_ex_fields NBUF_def)
  have xs: "lru (bufs bio_ex) xs" "set xs = {..<NBUF}" unfolding xs_def using bio_ex_lru by auto
  have "(1 :: u32) \<noteq> 0" by simp
  then have "\<exists>us b vs t. xs = us @ b # vs \<and> refcnt (bufs bio_ex b) = 0 \<and>
      (\<forall>v\<in>set vs. refcnt (bufs bio_ex v) \<noteq> 0) \<and> bread (\<lambda>_ u. u) 1 45 bio_ex = Ret b t"
    using bread_miss [OF bio_ex_cache [of 1] xs n, where E = "\<lambda>_ u. u"] z by (simp only: if_True not_False_eq_True simp_thms)
  then obtain us b vs t where b: "xs = us @ b # vs" "\<forall>v\<in>set vs. refcnt (bufs bio_ex v) \<noteq> 0"
      "bread (\<lambda>_ u. u) 1 45 bio_ex = Ret b t" by blast
  then have "set vs = {}" by (auto simp: bio_ex_fields)
  then have "b = last xs" using b(1) by simp
  moreover have "0 < NBUF" by (simp add: NBUF_def)
  ultimately have "b = 0" by (simp add: xs_def last_rev)
  with b show ?thesis by blast
qed

end
