(* ===== verification/Log.thy ===== *)
theory Log
  imports Bcache
begin

text \<open>
  \<^verbatim>\<open>kernel/log.c\<close>: the redo log. The state adds the fields of \<^verbatim>\<open>struct log\<close>; the header block on disk is
  the array of 32-bit words \<^verbatim>\<open>n, block[0], block[1], ...\<close> of \<^verbatim>\<open>struct logheader\<close>.
\<close>

section \<open>State\<close>

definition MAXOPBLOCKS :: nat where "MAXOPBLOCKS = 10"
definition LOGSIZE :: nat where "LOGSIZE = MAXOPBLOCKS * 3"

record superblock =
  sb_magic :: u32
  sb_size :: u32
  sb_nblocks :: u32
  sb_ninodes :: u32
  sb_nlog :: u32
  sb_logstart :: u32
  sb_inodestart :: u32
  sb_bmapstart :: u32

record log_st = bio_st +
  log_start :: int
  log_size :: int
  outstanding :: int
  committing :: bool
  log_dev :: u32
  lh_n :: int
  lh_block :: "nat \<Rightarrow> u32"

text \<open>
  A loop \<^verbatim>\<open>for(i = 0; c(i); i++) body(i)\<close> over the elements of an array of \<open>k\<close> elements: an iteration
  beyond the last element accesses memory outside the array.
\<close>

primrec kupto :: "nat \<Rightarrow> ('s \<Rightarrow> nat \<Rightarrow> bool) \<Rightarrow> (nat \<Rightarrow> ('s, unit) kop) \<Rightarrow> nat \<Rightarrow> ('s, unit) kop" where
  "kupto 0 c body i = bind (get (\<lambda>s. c s i)) (\<lambda>b. kwhen b undef)"
| "kupto (Suc k) c body i =
     bind (get (\<lambda>s. c s i)) (\<lambda>b. kwhen b (seq (body i) (kupto k c body (Suc i))))"

definition for_logged :: "(nat \<Rightarrow> ('x log_st_scheme, unit) kop) \<Rightarrow> ('x log_st_scheme, unit) kop" where
  "for_logged body = kupto LOGSIZE (\<lambda>s i. int i < lh_n s) body 0"

section \<open>Operations\<close>

text \<open>\<^verbatim>\<open>log.start + tail + 1\<close>, as a block number.\<close>

definition log_slot :: "'x log_st_scheme \<Rightarrow> nat \<Rightarrow> u32" where
  "log_slot s i = word_of_int (log_start s + int i + 1)"

definition log_head :: "'x log_st_scheme \<Rightarrow> u32" where
  "log_head s = word_of_int (log_start s)"

text \<open>\<^verbatim>\<open>memmove(b->data, c->data, BSIZE)\<close>\<close>

definition copy_data :: "nat \<Rightarrow> nat \<Rightarrow> ('x bio_st_scheme, unit) kop" where
  "copy_data b c =
     bind (get (\<lambda>s. bdata (bufs s c))) (\<lambda>v. upd_buf b (\<lambda>r. r\<lparr>bdata := (\<lambda>_. v) (bdata r)\<rparr>))"

definition install_block :: "'x log_st_scheme env \<Rightarrow> bool \<Rightarrow> nat \<Rightarrow> ('x log_st_scheme, unit) kop" where
  "install_block E recovering tail =
       bind (get log_dev) (\<lambda>dev.
       bind (get (\<lambda>s. log_slot s tail)) (\<lambda>n.
       bind (bread E dev n) (\<lambda>lbuf.
       bind (get log_dev) (\<lambda>dev.
       bind (get (\<lambda>s. lh_block s tail)) (\<lambda>m.
       bind (bread E dev m) (\<lambda>dbuf.
       seq (copy_data dbuf lbuf) (
       seq (bwrite dbuf) (
       seq (kwhen (\<not> recovering) (bunpin dbuf)) (
       seq (brelse lbuf)
       (brelse dbuf))))))))))"

definition install_trans :: "'x log_st_scheme env \<Rightarrow> bool \<Rightarrow> ('x log_st_scheme, unit) kop" where
  "install_trans E recovering = for_logged (install_block E recovering)"

definition set_lh_n :: "int \<Rightarrow> ('x log_st_scheme, unit) kop" where
  "set_lh_n n = modify (\<lambda>s. s\<lparr>lh_n := n\<rparr>)"

definition set_lh_block :: "nat \<Rightarrow> u32 \<Rightarrow> ('x log_st_scheme, unit) kop" where
  "set_lh_block i b = modify (\<lambda>s. s\<lparr>lh_block := (lh_block s)(i := b)\<rparr>)"

definition read_head :: "'x log_st_scheme env \<Rightarrow> ('x log_st_scheme, unit) kop" where
  "read_head E =
     bind (get log_dev) (\<lambda>dev.
     bind (get log_head) (\<lambda>n.
     bind (bread E dev n) (\<lambda>b.
     seq (bind (get (\<lambda>s. load32 (bdata (bufs s b)) 0)) (\<lambda>n. set_lh_n (sint n))) (
     seq (for_logged (\<lambda>i. bind (get (\<lambda>s. load32 (bdata (bufs s b)) (4 + 4 * i))) (set_lh_block i)))
     (brelse b)))))"

definition write_head :: "'x log_st_scheme env \<Rightarrow> ('x log_st_scheme, unit) kop" where
  "write_head E =
     bind (get log_dev) (\<lambda>dev.
     bind (get log_head) (\<lambda>n.
     bind (bread E dev n) (\<lambda>b.
     seq (bind (get lh_n) (\<lambda>n. upd_buf b (\<lambda>r. r\<lparr>bdata := (\<lambda>v. store32 v 0 (word_of_int n)) (bdata r)\<rparr>))) (
     seq (for_logged (\<lambda>i. bind (get (\<lambda>s. lh_block s i)) (\<lambda>m.
            upd_buf b (\<lambda>r. r\<lparr>bdata := (\<lambda>v. store32 v (4 + 4 * i) m) (bdata r)\<rparr>)))) (
     seq (bwrite b)
     (brelse b))))))"

definition recover_from_log :: "'x log_st_scheme env \<Rightarrow> ('x log_st_scheme, unit) kop" where
  "recover_from_log E =
     seq (read_head E) (
     seq (install_trans E True) (
     seq (set_lh_n 0)
     (write_head E)))"

definition initlog :: "'x log_st_scheme env \<Rightarrow> u32 \<Rightarrow> superblock \<Rightarrow> ('x log_st_scheme, unit) kop" where
  "initlog E dev sb =
     seq (kwhen (4 + 4 * LOGSIZE \<ge> BSIZE) (panic ''initlog: too big logheader'')) (
     seq (initlock LogLock ''log'') (
     seq (modify (\<lambda>s. s\<lparr>log_start := sint (sb_logstart sb)\<rparr>)) (
     seq (modify (\<lambda>s. s\<lparr>log_size := sint (sb_nlog sb)\<rparr>)) (
     seq (modify (\<lambda>s. s\<lparr>log_dev := dev\<rparr>))
     (recover_from_log E)))))"

text \<open>The loop of \<^verbatim>\<open>begin_op\<close>; every turn but the last consumes a choice.\<close>

primrec begin_loop :: "nat \<Rightarrow> 'x log_st_scheme env \<Rightarrow> ('x log_st_scheme, unit) kop" where
  "begin_loop 0 E = spin"
| "begin_loop (Suc k) E =
     bind (get committing) (\<lambda>c.
     if c then seq (sleep E ChLog LogLock) (begin_loop k E)
     else bind (get (\<lambda>s. lh_n s + (outstanding s + 1) * int MAXOPBLOCKS > int LOGSIZE)) (\<lambda>full.
       if full then seq (sleep E ChLog LogLock) (begin_loop k E)
       else seq (modify (\<lambda>s. s\<lparr>outstanding := outstanding s + 1\<rparr>)) (release LogLock)))"

definition begin_op :: "'x log_st_scheme env \<Rightarrow> ('x log_st_scheme, unit) kop" where
  "begin_op E =
     seq (acquire LogLock) (
     bind (get (\<lambda>s. Suc (length (choices s)))) (\<lambda>fuel.
     begin_loop fuel E))"

definition log_block :: "'x log_st_scheme env \<Rightarrow> nat \<Rightarrow> ('x log_st_scheme, unit) kop" where
  "log_block E tail =
       bind (get log_dev) (\<lambda>dev.
       bind (get (\<lambda>s. log_slot s tail)) (\<lambda>n.
       bind (bread E dev n) (\<lambda>to.
       bind (get log_dev) (\<lambda>dev.
       bind (get (\<lambda>s. lh_block s tail)) (\<lambda>m.
       bind (bread E dev m) (\<lambda>from.
       seq (copy_data to from) (
       seq (bwrite to) (
       seq (brelse from)
       (brelse to)))))))))"

definition write_log :: "'x log_st_scheme env \<Rightarrow> ('x log_st_scheme, unit) kop" where
  "write_log E = for_logged (log_block E)"

definition commit :: "'x log_st_scheme env \<Rightarrow> ('x log_st_scheme, unit) kop" where
  "commit E =
     bind (get lh_n) (\<lambda>n.
     kwhen (n > 0) (
       seq (write_log E) (
       seq (write_head E) (
       seq (install_trans E False) (
       seq (set_lh_n 0)
       (write_head E))))))"

definition end_op :: "'x log_st_scheme env \<Rightarrow> ('x log_st_scheme, unit) kop" where
  "end_op E =
     seq (acquire LogLock) (
     seq (modify (\<lambda>s. s\<lparr>outstanding := outstanding s - 1\<rparr>)) (
     bind (get committing) (\<lambda>c.
     seq (kwhen c (panic ''log.committing'')) (
     bind (get outstanding) (\<lambda>out.
     bind (if out = 0 then seq (modify (\<lambda>s. s\<lparr>committing := True\<rparr>)) (ret True)
           else seq (wakeup (Some ChLog)) (ret False)) (\<lambda>do_commit.
     seq (release LogLock) (
     kwhen do_commit (
       seq (commit E) (
       seq (acquire LogLock) (
       seq (modify (\<lambda>s. s\<lparr>committing := False\<rparr>)) (
       seq (wakeup (Some ChLog))
       (release LogLock))))))))))))"

text \<open>The index at which the absorption loop of \<^verbatim>\<open>log_write\<close> stops.\<close>

definition log_index :: "u32 \<Rightarrow> 'x log_st_scheme \<Rightarrow> nat" where
  "log_index n s = (case first_idx (\<lambda>i. lh_block s i = n) (nat (lh_n s)) of Some i \<Rightarrow> i | None \<Rightarrow> nat (lh_n s))"

definition log_write :: "nat \<Rightarrow> ('x log_st_scheme, unit) kop" where
  "log_write b =
     seq (acquire LogLock) (
     bind (get (\<lambda>s. lh_n s \<ge> int LOGSIZE \<or> lh_n s \<ge> log_size s - 1)) (\<lambda>big.
     seq (kwhen big (panic ''too big a transaction'')) (
     bind (get outstanding) (\<lambda>out.
     seq (kwhen (out < 1) (panic ''log_write outside of trans'')) (
     bind (get (\<lambda>s. blockno (bufs s b))) (\<lambda>n.
     bind (get (log_index n)) (\<lambda>i.
     seq (set_lh_block i n) (
     bind (get lh_n) (\<lambda>m.
     seq (kwhen (int i = m) (seq (bpin b) (set_lh_n (m + 1))))
     (release LogLock))))))))))"

end
