(* ===== verification/Txn.thy ===== *)
theory Txn
  imports Log
begin

text \<open>
  The correctness of the redo log of \<^verbatim>\<open>kernel/log.c\<close>. The rules of this theory follow one transaction over
  the abstract view of the buffer cache: \<^verbatim>\<open>write_log\<close>, \<^verbatim>\<open>write_head\<close>, \<^verbatim>\<open>install_trans\<close>, \<^verbatim>\<open>commit\<close> and
  \<^verbatim>\<open>recover_from_log\<close> each perform a known list of disk writes. From them follows atomicity: a crash
  after any number of the writes of a commit loses either all or none of the transaction.
\<close>

section \<open>Loops over the logged blocks\<close>

lemma kupto_rule:
  assumes "\<And>i s. i < n \<Longrightarrow> I i s \<Longrightarrow> \<exists>t. body i s = Ret () t \<and> I (Suc i) t"
    and "\<And>i s. I i s \<Longrightarrow> c s i \<longleftrightarrow> i < n"
  shows "I i s \<Longrightarrow> i \<le> n \<Longrightarrow> n \<le> k + i \<Longrightarrow> \<exists>t. kupto k c body i s = Ret () t \<and> I n t"
proof (induction k arbitrary: i s)
  case 0
  then show ?case using assms(2) [of i s] by (simp add: kexec)
next
  case (Suc k)
  show ?case
  proof (cases "i < n")
    case True
    then obtain t where t: "body i s = Ret () t" "I (Suc i) t" using assms(1) Suc.prems(1) by blast
    then obtain u where "kupto k c body (Suc i) t = Ret () u" "I n u" using Suc.IH [of "Suc i" t] Suc.prems True by auto
    then show ?thesis using t assms(2) [OF Suc.prems(1)] True by (simp add: kexec)
  next
    case False
    then show ?thesis using assms(2) [OF Suc.prems(1)] Suc.prems by (auto simp: kexec)
  qed
qed

lemma for_logged_rule:
  assumes "\<And>i s. i < n \<Longrightarrow> I i s \<Longrightarrow> \<exists>t. body i s = Ret () t \<and> I (Suc i) t"
    and "\<And>i s. I i s \<Longrightarrow> lh_n s = int n" and "I 0 s" "n \<le> LOGSIZE"
  shows "\<exists>t. for_logged body s = Ret () t \<and> I n t"
  unfolding for_logged_def by (rule kupto_rule [where I = I and n = n]) (use assms in auto)

lemma bframe_log:
  assumes "bframe s t"
  shows "log_start t = log_start s" "log_size t = log_size s" "outstanding t = outstanding s"
    "committing t = committing s" "log_dev t = log_dev s" "lh_n t = lh_n s" "lh_block t = lh_block s"
  using assms unfolding bframe_def by auto

lemma bframe_slots: "bframe s t \<Longrightarrow> log_slot t = log_slot s" "bframe s t \<Longrightarrow> log_head t = log_head s"
  by (simp_all add: log_slot_def log_head_def bframe_log fun_eq_iff)

section \<open>Copying one block\<close>

lemma copy_data_rule:
  assumes "cache p d s C R H" "buf_of d (bufs s) n = Some b" "R n \<noteq> 0" "buf_of d (bufs s) m = Some c" "R m \<noteq> 0"
  shows "\<exists>t. copy_data b c s = Ret () t \<and> bframe s t \<and> disk t = disk s \<and> dwrites t = dwrites s \<and>
    buf_of d (bufs t) = buf_of d (bufs s) \<and> cache p d t (C(n := C m)) R H"
  using set_data_rule [OF assms(1-3), of "\<lambda>_. C m"] cacheD(6) [OF assms(1,4,5)]
  by (simp add: copy_data_def kexec)

lemma card_upd_le: "card {x. (R(n := k)) x \<noteq> 0} \<le> Suc (card {x :: u32. R x \<noteq> (0::nat)})"
proof -
  have "{x. (R(n := k)) x \<noteq> 0} \<subseteq> insert n {x. R x \<noteq> 0}" by auto
  then have "card {x. (R(n := k)) x \<noteq> 0} \<le> card (insert n {x. R x \<noteq> 0})" by (rule card_mono [rotated]) simp
  also have "\<dots> \<le> Suc (card {x. R x \<noteq> 0})" by (rule card_insert_le_m1) simp_all
  finally show ?thesis .
qed

text \<open>Two blocks held at once: reading \<open>n\<close>, then \<open>m\<close>.\<close>

lemma bread_two:
  assumes c: "cache p d s C R H" and ne: "n \<noteq> m" and h: "H n = None" "H m = None"
    and r: "Suc (R n) < 2 ^ 32" "Suc (R m) < 2 ^ 32" and sp: "card {x. R x \<noteq> 0} < NBUF"
    and sp2: "R m \<noteq> 0 \<or> Suc (card {x. R x \<noteq> 0}) < NBUF"
  obtains b t c u where "bread E d n s = Ret b t" "bframe s t" "bread E d m t = Ret c u" "bframe s u"
    "disk u = disk s" "dwrites u = dwrites s" "buf_of d (bufs u) n = Some b" "buf_of d (bufs u) m = Some c"
    "cache p d u C (R(n := Suc (R n), m := Suc (R m))) (H(n := Some (pid (procs u p)), m := Some (pid (procs u p))))"
proof -
  obtain b t where t: "bread E d n s = Ret b t" "bframe s t" "disk t = disk s" "dwrites t = dwrites s"
      "buf_of d (bufs t) n = Some b"
      and ct: "cache p d t C (R(n := Suc (R n))) (H(n := Some (pid (procs s p))))"
    using bread_rule [OF c h(1) r(1)] sp by blast
  have sp3: "(R(n := Suc (R n))) m \<noteq> 0 \<or> card {x. (R(n := Suc (R n))) x \<noteq> 0} < NBUF"
  proof (cases "R m = 0")
    case True
    then have "Suc (card {x. R x \<noteq> 0}) < NBUF" using sp2 by blast
    with card_upd_le [of R n "Suc (R n)"] show ?thesis by linarith
  qed (simp add: ne [symmetric])
  have hm: "(H(n := Some (pid (procs s p)))) m = None" "Suc ((R(n := Suc (R n))) m) < 2 ^ 32"
    using ne h(2) r(2) by simp_all
  obtain c u where u: "bread E d m t = Ret c u" "bframe t u" "disk u = disk t" "dwrites u = dwrites t"
      "buf_of d (bufs u) m = Some c" "\<forall>x. (R(n := Suc (R n))) x \<noteq> 0 \<longrightarrow> buf_of d (bufs u) x = buf_of d (bufs t) x"
      and cu: "cache p d u C ((R(n := Suc (R n)))(m := Suc ((R(n := Suc (R n))) m)))
        ((H(n := Some (pid (procs s p))))(m := Some (pid (procs t p))))"
    using bread_rule [OF ct hm sp3] by blast
  have "buf_of d (bufs u) n = Some b" using u(6) [THEN spec, of n] t(5) by simp
  moreover have "pid (procs u p) = pid (procs s p)" "pid (procs t p) = pid (procs s p)"
    using bframe_pid [OF t(2)] bframe_pid [OF u(2)] by simp_all
  ultimately show ?thesis using that t u cu bframe_trans [OF t(2) u(2)] ne by simp
qed

text \<open>Releasing two held blocks, \<open>m\<close> first.\<close>

lemma brelse_two:
  assumes c: "cache p d s C R H" and ne: "n \<noteq> m"
    and b: "buf_of d (bufs s) n = Some b" "buf_of d (bufs s) m = Some c"
    and h: "H n = Some (pid (procs s p))" "H m = Some (pid (procs s p))" and r: "R n \<noteq> 0" "R m \<noteq> 0"
    and cl: "R n = 1 \<Longrightarrow> C n = disk s n" "R m = 1 \<Longrightarrow> C m = disk s m"
  shows "\<exists>t. seq (brelse c) (brelse b) s = Ret () t \<and> bframe s t \<and> disk t = disk s \<and> dwrites t = dwrites s \<and>
    cache p d t C (R(n := R n - 1, m := R m - 1)) (H(n := None, m := None))"
proof -
  obtain t where t: "brelse c s = Ret () t" "bframe s t" "disk t = disk s" "dwrites t = dwrites s"
      "buf_of d (bufs t) = buf_of d (bufs s)" and ct: "cache p d t C (R(m := R m - 1)) (H(m := None))"
    using brelse_rule [OF c b(2) r(2) h(2) cl(2)] by blast
  have p: "pid (procs t p) = pid (procs s p)" using bframe_pid [OF t(2)] .
  have "\<exists>u. brelse b t = Ret () u \<and> bframe t u \<and> disk u = disk t \<and> dwrites u = dwrites t \<and>
      buf_of d (bufs u) = buf_of d (bufs t) \<and> cache p d u C ((R(m := R m - 1))(n := (R(m := R m - 1)) n - 1)) ((H(m := None))(n := None))"
    by (rule brelse_rule [OF ct]) (use ne b r h cl p t in auto)
  then obtain u where u: "brelse b t = Ret () u" "bframe t u" "disk u = disk t" "dwrites u = dwrites t"
      "cache p d u C ((R(m := R m - 1))(n := R n - 1)) ((H(m := None))(n := None))" using ne by auto
  then show ?thesis using t bframe_trans [OF t(2) u(2)] ne
    by (intro exI [of _ u]) (simp add: seq_Ret fun_upd_twist)
qed

lemma log_block_rule:
  assumes c: "cache p d s C R H" "log_dev s = d" and nm: "log_slot s i = n" "lh_block s i = m" "n \<noteq> m"
    and h: "H n = None" "H m = None" and r: "Suc (R n) < 2 ^ 32" "Suc (R m) < 2 ^ 32" "R m \<noteq> 0"
    and sp: "card {x. R x \<noteq> 0} < NBUF"
  shows "\<exists>t. log_block E i s = Ret () t \<and> bframe s t \<and> disk t = (disk s)(n := C m) \<and>
    dwrites t = dwrites s @ [(n, C m)] \<and> cache p d t (C(n := C m)) R H"
proof -
  obtain b t c u where b: "bread E d n s = Ret b t" "bframe s t" "bread E d m t = Ret c u" "bframe s u"
      "disk u = disk s" "dwrites u = dwrites s" "buf_of d (bufs u) n = Some b" "buf_of d (bufs u) m = Some c"
      and cu: "cache p d u C (R(n := Suc (R n), m := Suc (R m))) (H(n := Some (pid (procs u p)), m := Some (pid (procs u p))))"
    using bread_two [OF c(1) nm(3) h r(1,2) sp] r(3) by blast
  obtain v where v: "copy_data b c u = Ret () v" "bframe u v" "disk v = disk u" "dwrites v = dwrites u"
      "buf_of d (bufs v) = buf_of d (bufs u)"
      and cv: "cache p d v (C(n := C m)) (R(n := Suc (R n), m := Suc (R m))) (H(n := Some (pid (procs u p)), m := Some (pid (procs u p))))"
    using copy_data_rule [OF cu b(7) _ b(8)] nm(3) by auto
  have pv: "pid (procs v p) = pid (procs u p)" using bframe_pid [OF v(2)] .
  obtain w where w: "bwrite b v = Ret () w" "bframe v w" "disk w = (disk v)(n := C m)"
      "dwrites w = dwrites v @ [(n, C m)]" "buf_of d (bufs w) = buf_of d (bufs v)"
      and cw: "cache p d w (C(n := C m)) (R(n := Suc (R n), m := Suc (R m))) (H(n := Some (pid (procs u p)), m := Some (pid (procs u p))))"
    using bwrite_rule [OF cv, of n b] b(7) v(5) pv nm(3) by auto
  have pw: "pid (procs w p) = pid (procs u p)" using bframe_pid [OF w(2)] pv by simp
  have "\<exists>x. seq (brelse c) (brelse b) w = Ret () x \<and> bframe w x \<and> disk x = disk w \<and> dwrites x = dwrites w \<and>
      cache p d x (C(n := C m)) ((R(n := Suc (R n), m := Suc (R m)))(n := (R(n := Suc (R n), m := Suc (R m))) n - 1,
        m := (R(n := Suc (R n), m := Suc (R m))) m - 1))
        ((H(n := Some (pid (procs u p)), m := Some (pid (procs u p))))(n := None, m := None))"
    by (rule brelse_two [OF cw nm(3)]) (use b v w pw nm(3) r(3) in auto)
  then obtain x where x: "seq (brelse c) (brelse b) w = Ret () x" "bframe w x" "disk x = disk w" "dwrites x = dwrites w"
      "cache p d x (C(n := C m)) R H"
    using nm(3) h by (auto simp: fun_upd_twist [of n m] fun_upd_idem)
  have "log_block E i s = Ret () x"
    using b(1,3) v(1) w(1) x(1) c(2) nm bframe_log [OF b(2)]
    by (simp add: log_block_def bind_Ret seq_Ret)
  moreover have "bframe s x" by (rule bframe_trans [OF bframe_trans [OF bframe_trans [OF b(4) v(2)] w(2)] x(2)])
  ultimately show ?thesis using b(5,6) v(3,4) w(3,4) x(3,4,5) by simp
qed

lemma install_block_rule:
  assumes c: "cache p d s C R H" "log_dev s = d" and nm: "log_slot s i = n" "lh_block s i = m" "n \<noteq> m"
    and h: "H n = None" "H m = None" and r: "Suc (R n) < 2 ^ 32" "Suc (R m) < 2 ^ 32" "rec \<or> R m \<noteq> 0"
    and sp: "card {x. R x \<noteq> 0} < NBUF" "R m \<noteq> 0 \<or> Suc (card {x. R x \<noteq> 0}) < NBUF"
  shows "\<exists>t. install_block E rec i s = Ret () t \<and> bframe s t \<and> disk t = (disk s)(m := C n) \<and>
    dwrites t = dwrites s @ [(m, C n)] \<and> cache p d t (C(m := C n)) (if rec then R else R(m := R m - 1)) H"
proof -
  obtain b t c u where b: "bread E d n s = Ret b t" "bframe s t" "bread E d m t = Ret c u" "bframe s u"
      "disk u = disk s" "dwrites u = dwrites s" "buf_of d (bufs u) n = Some b" "buf_of d (bufs u) m = Some c"
      and cu: "cache p d u C (R(n := Suc (R n), m := Suc (R m))) (H(n := Some (pid (procs u p)), m := Some (pid (procs u p))))"
    using bread_two [OF c(1) nm(3) h r(1,2) sp] by blast
  obtain v where v: "copy_data c b u = Ret () v" "bframe u v" "disk v = disk u" "dwrites v = dwrites u"
      "buf_of d (bufs v) = buf_of d (bufs u)"
      and cv: "cache p d v (C(m := C n)) (R(n := Suc (R n), m := Suc (R m))) (H(n := Some (pid (procs u p)), m := Some (pid (procs u p))))"
    using copy_data_rule [OF cu b(8) _ b(7)] nm(3) by auto
  have pv: "pid (procs v p) = pid (procs u p)" using bframe_pid [OF v(2)] .
  obtain w where w: "bwrite c v = Ret () w" "bframe v w" "disk w = (disk v)(m := C n)"
      "dwrites w = dwrites v @ [(m, C n)]" "buf_of d (bufs w) = buf_of d (bufs v)"
      and cw: "cache p d w (C(m := C n)) (R(n := Suc (R n), m := Suc (R m))) (H(n := Some (pid (procs u p)), m := Some (pid (procs u p))))"
    using bwrite_rule [OF cv, of m c] b(8) v(5) pv nm(3) by auto
  define k where "k = (if rec then Suc (R m) else R m)"
  obtain x where x: "kwhen (\<not> rec) (bunpin c) w = Ret () x" "bframe w x" "disk x = disk w" "dwrites x = dwrites w"
      "buf_of d (bufs x) = buf_of d (bufs w)"
      and cx: "cache p d x (C(m := C n)) (R(n := Suc (R n), m := k)) (H(n := Some (pid (procs u p)), m := Some (pid (procs u p))))"
  proof (cases rec)
    case True
    with cw that [of w] show ?thesis by (simp add: k_def)
  next
    case False
    have "\<exists>x. bunpin c w = Ret () x \<and> bframe w x \<and> disk x = disk w \<and> dwrites x = dwrites w \<and>
        buf_of d (bufs x) = buf_of d (bufs w) \<and>
        cache p d x (C(m := C n)) ((R(n := Suc (R n), m := Suc (R m)))(m := (R(n := Suc (R n), m := Suc (R m))) m - 1))
          (H(n := Some (pid (procs u p)), m := Some (pid (procs u p))))"
      by (rule bunpin_rule [OF cw]) (use b(8) v(5) w(5) r(3) False in auto)
    with False that show ?thesis by (auto simp: k_def)
  qed
  have px: "pid (procs x p) = pid (procs u p)" using bframe_pid [OF w(2)] bframe_pid [OF x(2)] pv by simp
  have "k \<noteq> 0" using r(3) by (auto simp: k_def)
  have "\<exists>y. seq (brelse b) (brelse c) x = Ret () y \<and> bframe x y \<and> disk y = disk x \<and> dwrites y = dwrites x \<and>
      cache p d y (C(m := C n)) ((R(n := Suc (R n), m := k))(m := (R(n := Suc (R n), m := k)) m - 1,
        n := (R(n := Suc (R n), m := k)) n - 1))
        ((H(n := Some (pid (procs u p)), m := Some (pid (procs u p))))(m := None, n := None))"
    by (rule brelse_two [OF cx nm(3) [symmetric]])
      (use b(5,7,8) v(3,5) w(3,5) x(3,5) px nm(3) \<open>k \<noteq> 0\<close> cache_clean [OF c(1), of n] in auto)
  moreover have "(R(n := Suc (R n), m := k))(m := (R(n := Suc (R n), m := k)) m - 1, n := (R(n := Suc (R n), m := k)) n - 1) =
      (if rec then R else R(m := R m - 1))"
    using nm(3) by (auto simp: fun_eq_iff k_def)
  moreover have "(H(n := Some (pid (procs u p)), m := Some (pid (procs u p))))(m := None, n := None) = H"
    using nm(3) h by (auto simp: fun_eq_iff)
  ultimately obtain y where y: "seq (brelse b) (brelse c) x = Ret () y" "bframe x y" "disk y = disk x" "dwrites y = dwrites x"
      "cache p d y (C(m := C n)) (if rec then R else R(m := R m - 1)) H" by auto
  have "install_block E rec i s = Ret () y"
    using b(1,3) v(1) w(1) x(1) y(1) c(2) nm bframe_log [OF b(2)]
    by (simp add: install_block_def bind_Ret seq_Ret del: kwhen_app)
  moreover have "bframe s y"
    by (rule bframe_trans [OF bframe_trans [OF bframe_trans [OF bframe_trans [OF b(4) v(2)] w(2)] x(2)] y(2)])
  ultimately show ?thesis using b(5,6) v(3,4) w(3,4) x(3,4) y(3,4,5) by simp
qed

section \<open>The header block\<close>

definition put_blocks :: "(nat \<Rightarrow> u32) \<Rightarrow> nat \<Rightarrow> block \<Rightarrow> block" where
  "put_blocks bl n v = fold (\<lambda>i v. store32 v (4 + 4 * i) (bl i)) [0..<n] v"

definition head_block :: "(nat \<Rightarrow> u32) \<Rightarrow> nat \<Rightarrow> block \<Rightarrow> block" where
  "head_block bl n v = put_blocks bl n (store32 v 0 (of_nat n))"

lemma load32_store32_other:
  fixes m :: "nat memory"
  assumes "b + 4 \<le> a \<or> a + 4 \<le> b"
  shows "load32 (store32 m a v) b = load32 m b"
  using assms by (simp add: mem_defs load_store_disjoint_nat)

lemma put_blocks_Suc: "put_blocks bl (Suc n) v = store32 (put_blocks bl n v) (4 + 4 * n) (bl n)"
  by (simp add: put_blocks_def)

lemma put_blocks_load:
  "i < n \<Longrightarrow> load32 (put_blocks bl n v) (4 + 4 * i) = bl i"
  "load32 (put_blocks bl n v) 0 = load32 v 0"
proof (induction n)
  case (Suc n)
  {
    case 1
    with Suc show ?case by (cases "i = n") (simp_all add: put_blocks_Suc load32_store32_other)
  next
    case 2
    with Suc show ?case by (simp add: put_blocks_Suc load32_store32_other)
  }
qed (simp_all add: put_blocks_def)

lemma head_block_load:
  "load32 (head_block bl n v) 0 = of_nat n"
  "i < n \<Longrightarrow> load32 (head_block bl n v) (4 + 4 * i) = bl i"
  by (simp_all add: head_block_def put_blocks_load)

lemma sint_log_count: "n \<le> LOGSIZE \<Longrightarrow> sint (of_nat n :: u32) = int n"
  by (simp add: LOGSIZE_def MAXOPBLOCKS_def sint_of_nat_small)

lemma write_head_rule:
  fixes s :: "'x log_st_scheme"
  assumes c: "cache p d s C R H" "log_dev s = d" "log_head s = h" and n: "lh_n s = int n" "n \<le> LOGSIZE"
    and h: "H h = None" "Suc (R h) < 2 ^ 32" and sp: "R h \<noteq> 0 \<or> card {x. R x \<noteq> 0} < NBUF"
  shows "\<exists>t. write_head E s = Ret () t \<and> bframe s t \<and> disk t = (disk s)(h := head_block (lh_block s) n (C h)) \<and>
    dwrites t = dwrites s @ [(h, head_block (lh_block s) n (C h))] \<and>
    cache p d t (C(h := head_block (lh_block s) n (C h))) R H"
proof -
  let ?R = "R(h := Suc (R h))" and ?H = "H(h := Some (pid (procs s p)))" and ?v = "store32 (C h) 0 (of_nat n)"
  obtain b t where t: "bread E d h s = Ret b t" "bframe s t" "disk t = disk s" "dwrites t = dwrites s"
      "buf_of d (bufs t) h = Some b" and ct: "cache p d t C ?R ?H"
    using bread_rule [OF c(1) h sp] by blast
  obtain u where u: "upd_buf b (\<lambda>r. r\<lparr>bdata := (\<lambda>v. store32 v 0 (word_of_int (int n))) (bdata r)\<rparr>) t = Ret () u" "bframe t u"
      "disk u = disk t" "dwrites u = dwrites t" "buf_of d (bufs u) = buf_of d (bufs t)"
      and cu: "cache p d u (C(h := ?v)) ?R ?H"
    using set_data_rule [OF ct t(5), of "\<lambda>v. store32 v 0 (word_of_int (int n))"] by auto
  let ?body = "\<lambda>i. bind (get (\<lambda>s :: 'x log_st_scheme. lh_block s i)) (\<lambda>m.
            upd_buf b (\<lambda>r. r\<lparr>bdata := (\<lambda>v. store32 v (4 + 4 * i) m) (bdata r)\<rparr>))"
  let ?I = "\<lambda>i x. bframe u x \<and> disk x = disk u \<and> dwrites x = dwrites u \<and> buf_of d (bufs x) h = Some b \<and>
      cache p d x (C(h := put_blocks (lh_block s) i ?v)) ?R ?H"
  have fu: "lh_n u = int n" "lh_block u = lh_block s" using bframe_log [OF t(2)] bframe_log [OF u(2)] n(1) by simp_all
  have "\<exists>w. for_logged ?body u = Ret () w \<and> ?I n w"
  proof (rule for_logged_rule [where I = ?I, OF _ _ _ n(2)])
    fix i x assume "i < n" and x: "?I i x"
    have "lh_block x = lh_block s" using bframe_log(7) x fu by metis
    moreover obtain w where "upd_buf b (\<lambda>r. r\<lparr>bdata := (\<lambda>v. store32 v (4 + 4 * i) (lh_block s i)) (bdata r)\<rparr>) x = Ret () w"
        "bframe x w" "disk w = disk x" "dwrites w = dwrites x" "buf_of d (bufs w) = buf_of d (bufs x)"
        "cache p d w (C(h := put_blocks (lh_block s) (Suc i) ?v)) ?R ?H"
      using set_data_rule [of p d x "C(h := put_blocks (lh_block s) i ?v)" ?R ?H h b "\<lambda>v. store32 v (4 + 4 * i) (lh_block s i)"] x
      by (auto simp: put_blocks_Suc)
    ultimately show "\<exists>w. ?body i x = Ret () w \<and> ?I (Suc i) w" using x bframe_trans by (auto simp: bind_Ret)
  next
    show "lh_n x = int n" if "?I i x" for i x using bframe_log(6) that fu by metis
    show "?I 0 u" using cu u t by (simp add: put_blocks_def)
  qed
  then obtain w where w: "for_logged ?body u = Ret () w" and Iw: "?I n w" by blast
  have pw: "pid (procs w p) = pid (procs s p)"
    using bframe_pid [OF t(2)] bframe_pid [OF u(2)] bframe_pid Iw by metis
  have cw: "cache p d w (C(h := head_block (lh_block s) n (C h))) ?R ?H" using Iw by (simp add: head_block_def)
  obtain x where x: "bwrite b w = Ret () x" "bframe w x" "disk x = (disk w)(h := head_block (lh_block s) n (C h))"
      "dwrites x = dwrites w @ [(h, head_block (lh_block s) n (C h))]" "buf_of d (bufs x) = buf_of d (bufs w)"
      and cx: "cache p d x (C(h := head_block (lh_block s) n (C h))) ?R ?H"
    using bwrite_rule [OF cw, of h b] Iw pw by auto
  have "\<exists>y. brelse b x = Ret () y \<and> bframe x y \<and> disk y = disk x \<and> dwrites y = dwrites x \<and>
      buf_of d (bufs y) = buf_of d (bufs x) \<and> cache p d y (C(h := head_block (lh_block s) n (C h))) (?R(h := ?R h - 1)) (?H(h := None))"
    by (rule brelse_rule [OF cx]) (use Iw x pw bframe_pid [OF x(2)] in auto)
  then obtain y where y: "brelse b x = Ret () y" "bframe x y" "disk y = disk x" "dwrites y = dwrites x"
      "cache p d y (C(h := head_block (lh_block s) n (C h))) R H" using h(1) by (auto simp: fun_upd_idem)
  have "write_head E s = Ret () y"
    using t(1) u(1) w x(1) y(1) c n bframe_log [OF t(2)] by (simp add: write_head_def bind_Ret seq_Ret)
  moreover have "bframe s y" using bframe_trans t(2) u(2) Iw x(2) y(2) by metis
  ultimately show ?thesis using t(3,4) u(3,4) Iw x(3,4) y(3,4,5) by simp
qed

section \<open>Sequences of disk writes\<close>

definition apply_writes :: "('a \<times> 'b) list \<Rightarrow> ('a \<Rightarrow> 'b) \<Rightarrow> 'a \<Rightarrow> 'b" where
  "apply_writes ws D = fold (\<lambda>(n, v) D. D(n := v)) ws D"

lemma apply_writes_simps [simp]:
  "apply_writes [] D = D" "apply_writes ((n, v) # ws) D = apply_writes ws (D(n := v))"
  "apply_writes (ws @ ws') D = apply_writes ws' (apply_writes ws D)"
  by (simp_all add: apply_writes_def)

lemma apply_writes_other: "n \<notin> fst ` set ws \<Longrightarrow> apply_writes ws D n = D n"
  by (induction ws arbitrary: D) auto

lemma apply_writes_map:
  "inj_on f {..<n} \<Longrightarrow> i < n \<Longrightarrow> apply_writes (map (\<lambda>i. (f i, g i)) [0..<n]) D (f i) = g i"
proof (induction n)
  case (Suc n)
  show ?case
  proof (cases "i = n")
    case False
    then have "f i \<noteq> f n" using Suc.prems by (auto simp: inj_on_def)
    moreover have "inj_on f {..<n}" using Suc.prems(1) by (rule inj_on_subset) auto
    ultimately show ?thesis using Suc.IH Suc.prems(2) False by simp
  qed simp
qed simp

lemma apply_writes_notin:
  "\<forall>i<n. f i \<noteq> x \<Longrightarrow> apply_writes (map (\<lambda>i. (f i, g i)) [0..<n]) D x = D x"
  by (rule apply_writes_other) auto

lemma apply_writes_Suc:
  "apply_writes (map (\<lambda>i. (f i, g i)) [0..<Suc n]) D = (apply_writes (map (\<lambda>i. (f i, g i)) [0..<n]) D)(f n := g n)"
  by simp

section \<open>Transactions\<close>

text \<open>The log area is the header block and one block for each slot. The logged blocks are distinct, lie outside the
  log area and have a slot each.\<close>

definition log_slots :: "'x log_st_scheme \<Rightarrow> nat" where
  "log_slots s = min LOGSIZE (nat (log_size s - 1))"

definition log_area :: "'x log_st_scheme \<Rightarrow> u32 set" where
  "log_area s = insert (log_head s) (log_slot s ` {..<log_slots s})"

definition txn_ok :: "'x log_st_scheme \<Rightarrow> nat \<Rightarrow> bool" where
  "txn_ok s n \<longleftrightarrow> lh_n s = int n \<and> n \<le> log_slots s \<and> inj_on (lh_block s) {..<n} \<and>
     (\<forall>i<n. lh_block s i \<notin> log_area s)"

lemma log_slots_le: "n \<le> log_slots s \<Longrightarrow> n \<le> LOGSIZE"
  by (simp add: log_slots_def)

lemma word_of_int_inj:
  assumes "(word_of_int (a + int i) :: u32) = word_of_int (a + int j)" "i \<le> LOGSIZE" "j \<le> LOGSIZE"
  shows "i = j"
proof -
  have "(of_nat i :: u32) = of_nat j" using assms(1) by simp
  then have "unat (of_nat i :: u32) = unat (of_nat j :: u32)" by simp
  then show ?thesis using assms(2,3) by (simp add: unat_of_nat_small LOGSIZE_def MAXOPBLOCKS_def)
qed

lemma log_slot_eq: "log_slot s i = word_of_int (log_start s + int (Suc i))"
  by (simp add: log_slot_def)

lemma log_head_eq: "log_head s = word_of_int (log_start s + int 0)"
  by (simp add: log_head_def)

lemma log_slot_inj: "log_slot s i = log_slot s j \<Longrightarrow> i < LOGSIZE \<Longrightarrow> j < LOGSIZE \<Longrightarrow> i = j"
  unfolding log_slot_eq by (drule word_of_int_inj) simp_all

lemma log_slot_head: "i < LOGSIZE \<Longrightarrow> log_slot s i \<noteq> log_head s"
  unfolding log_slot_eq log_head_eq by (rule notI, drule word_of_int_inj) simp_all

lemma inj_log_slot: "n \<le> LOGSIZE \<Longrightarrow> inj_on (log_slot s) {..<n}"
  using log_slot_inj [of s] by (auto simp: inj_on_def)

lemma txn_okD:
  assumes "txn_ok s n" "i < n"
  shows "j < n \<Longrightarrow> lh_block s i \<noteq> log_slot s j" "lh_block s i \<noteq> log_head s" "i < LOGSIZE"
  using assms log_slots_le [of n s] by (auto simp: txn_ok_def log_area_def)

lemma bframe_txn:
  assumes "bframe s t"
  shows "txn_ok t n = txn_ok s n"
  by (simp only: txn_ok_def log_area_def log_slots_def bframe_log [OF assms] bframe_slots [OF assms])

text \<open>The processes hold no buffer of the log or of the transaction; counters are far from overflow.\<close>

definition quiet :: "(u32 \<Rightarrow> nat) \<Rightarrow> (u32 \<Rightarrow> int option) \<Rightarrow> bool" where
  "quiet R H \<longleftrightarrow> (\<forall>x. Suc (R x) < 2 ^ 32 \<and> H x = None)"

lemma write_log_rule:
  assumes c: "cache p d s C R H" "log_dev s = d" and t: "txn_ok s n" and q: "quiet R H"
    and r: "\<And>i. i < n \<Longrightarrow> R (lh_block s i) \<noteq> 0" and sp: "card {x. R x \<noteq> 0} < NBUF"
  defines "ws \<equiv> map (\<lambda>i. (log_slot s i, C (lh_block s i))) [0..<n]"
  shows "\<exists>t. write_log E s = Ret () t \<and> bframe s t \<and> disk t = apply_writes ws (disk s) \<and>
    dwrites t = dwrites s @ ws \<and> cache p d t (apply_writes ws C) R H"
proof -
  define W where "W i = map (\<lambda>i. (log_slot s i, C (lh_block s i))) [0..<i]" for i
  let ?I = "\<lambda>i x. bframe s x \<and> disk x = apply_writes (W i) (disk s) \<and> dwrites x = dwrites s @ W i \<and>
      cache p d x (apply_writes (W i) C) R H"
  have "\<exists>t. for_logged (log_block E) s = Ret () t \<and> ?I n t"
  proof (rule for_logged_rule [where I = ?I])
    fix i x assume i: "i < n" and x: "?I i x"
    let ?m = "lh_block s i"
    have "log_slot x = log_slot s" "lh_block x = lh_block s" "log_dev x = d"
      using x bframe_log [of s x] bframe_slots [of s x] c(2) by simp_all
    moreover have m: "apply_writes (W i) C ?m = C ?m"
      unfolding W_def
    proof (rule apply_writes_notin, intro allI impI)
      show "log_slot s j \<noteq> ?m" if "j < i" for j using txn_okD(1) [OF t i, of j] that i by simp
    qed
    ultimately obtain y where "log_block E i x = Ret () y" "bframe x y"
        "disk y = (disk x)(log_slot s i := C ?m)" "dwrites y = dwrites x @ [(log_slot s i, C ?m)]"
        "cache p d y ((apply_writes (W i) C)(log_slot s i := C ?m)) R H"
      using log_block_rule [of p d x "apply_writes (W i) C" R H i "log_slot s i" ?m E] x q r [OF i] sp
        txn_okD(1) [OF t i i] by (auto simp: quiet_def)
    then show "\<exists>y. log_block E i x = Ret () y \<and> ?I (Suc i) y"
      using x bframe_trans [of s x y] by (auto simp: W_def)
  next
    show "lh_n x = int n" if "?I i x" for i x using that t bframe_log(6) [of s x] by (simp add: txn_ok_def)
    show "?I 0 s" using c(1) by (simp add: W_def)
    show "n \<le> LOGSIZE" using t log_slots_le by (auto simp: txn_ok_def)
  qed
  then show ?thesis by (simp add: write_log_def ws_def W_def)
qed

text \<open>The reference counts after installing the first \<open>i\<close> blocks.\<close>

definition unpinned :: "bool \<Rightarrow> (nat \<Rightarrow> u32) \<Rightarrow> nat \<Rightarrow> (u32 \<Rightarrow> nat) \<Rightarrow> u32 \<Rightarrow> nat" where
  "unpinned rec bl i R = (if rec then R else (\<lambda>x. if x \<in> bl ` {..<i} then R x - 1 else R x))"

lemma unpinned_Suc:
  assumes "inj_on bl {..<n}" "i < n"
  shows "unpinned rec bl i R (bl i) = R (bl i)"
    "(if rec then unpinned rec bl i R else (unpinned rec bl i R)(bl i := unpinned rec bl i R (bl i) - 1)) =
       unpinned rec bl (Suc i) R"
proof -
  have "bl i \<noteq> bl j" if "j < i" for j
    using inj_onD [OF assms(1), of i j] assms(2) that by auto
  then have "bl i \<notin> bl ` {..<i}" by auto
  then show "unpinned rec bl i R (bl i) = R (bl i)"
    "(if rec then unpinned rec bl i R else (unpinned rec bl i R)(bl i := unpinned rec bl i R (bl i) - 1)) =
       unpinned rec bl (Suc i) R"
    by (auto simp: unpinned_def fun_eq_iff lessThan_Suc)
qed

lemma unpinned_le: "unpinned rec bl i R x \<le> R x"
  by (simp add: unpinned_def)

lemma card_unpinned: "card {x :: u32. unpinned rec bl i R x \<noteq> 0} \<le> card {x. R x \<noteq> 0}"
proof (rule card_mono)
  show "{x. unpinned rec bl i R x \<noteq> 0} \<subseteq> {x. R x \<noteq> 0}"
    using unpinned_le [of rec bl i R] by (auto simp: Collect_mono_iff) (metis le_zero_eq not_gr_zero)
qed simp

lemma quiet_unpinned: "quiet R H \<Longrightarrow> quiet (unpinned rec bl i R) H"
  unfolding quiet_def using unpinned_le [of rec bl i R] by (meson Suc_le_mono le_less_trans)

lemma install_trans_rule:
  assumes c: "cache p d s C R H" "log_dev s = d" and t: "txn_ok s n" and q: "quiet R H"
    and r: "\<And>i. i < n \<Longrightarrow> rec \<or> R (lh_block s i) \<noteq> 0" and sp: "card {x. R x \<noteq> 0} < NBUF"
    and sp2: "rec \<Longrightarrow> Suc (card {x. R x \<noteq> 0}) < NBUF"
  defines "ws \<equiv> map (\<lambda>i. (lh_block s i, C (log_slot s i))) [0..<n]"
  shows "\<exists>t. install_trans E rec s = Ret () t \<and> bframe s t \<and> disk t = apply_writes ws (disk s) \<and>
    dwrites t = dwrites s @ ws \<and> cache p d t (apply_writes ws C) (unpinned rec (lh_block s) n R) H"
proof -
  define W where "W i = map (\<lambda>i. (lh_block s i, C (log_slot s i))) [0..<i]" for i
  define U where "U i = unpinned rec (lh_block s) i R" for i
  let ?I = "\<lambda>i x. bframe s x \<and> disk x = apply_writes (W i) (disk s) \<and> dwrites x = dwrites s @ W i \<and>
      cache p d x (apply_writes (W i) C) (U i) H"
  have inj: "inj_on (lh_block s) {..<n}" using t by (simp add: txn_ok_def)
  have "\<exists>t. for_logged (install_block E rec) s = Ret () t \<and> ?I n t"
  proof (rule for_logged_rule [where I = ?I])
    fix i x assume i: "i < n" and x: "?I i x"
    let ?m = "lh_block s i" and ?n = "log_slot s i"
    have f: "log_slot x = log_slot s" "lh_block x = lh_block s" "log_dev x = d"
      using x bframe_log [of s x] bframe_slots [of s x] c(2) by simp_all
    have m: "apply_writes (W i) C ?n = C ?n"
      unfolding W_def
    proof (rule apply_writes_notin, intro allI impI)
      show "lh_block s j \<noteq> ?n" if "j < i" for j using txn_okD(1) [OF t, of j i] that i by simp
    qed
    have u: "U i ?m = R ?m" "(if rec then U i else (U i)(?m := U i ?m - 1)) = U (Suc i)"
      unfolding U_def by (rule unpinned_Suc [OF inj i])+
    have "quiet (U i) H" unfolding U_def using q by (rule quiet_unpinned)
    then have qu: "H ?n = None" "H ?m = None" "Suc (U i ?n) < 2 ^ 32" "Suc (U i ?m) < 2 ^ 32"
      unfolding quiet_def by blast+
    have cu: "card {x. U i x \<noteq> 0} < NBUF" unfolding U_def using card_unpinned sp by (rule le_less_trans)
    have "U i ?m \<noteq> 0 \<or> Suc (card {x. U i x \<noteq> 0}) < NBUF"
      using r [OF i] sp2 u(1) by (cases rec) (simp_all add: U_def unpinned_def)
    then have "\<exists>y. install_block E rec i x = Ret () y \<and> bframe x y \<and>
        disk y = (disk x)(?m := apply_writes (W i) C ?n) \<and> dwrites y = dwrites x @ [(?m, apply_writes (W i) C ?n)] \<and>
        cache p d y ((apply_writes (W i) C)(?m := apply_writes (W i) C ?n)) (if rec then U i else (U i)(?m := U i ?m - 1)) H"
      by (intro install_block_rule)
        (use cu qu u(1) r [OF i] txn_okD(1) [OF t i i, symmetric] f x in simp_all)
    then obtain y where "install_block E rec i x = Ret () y" "bframe x y"
        "disk y = (disk x)(?m := C ?n)" "dwrites y = dwrites x @ [(?m, C ?n)]"
        "cache p d y ((apply_writes (W i) C)(?m := C ?n)) (U (Suc i)) H"
      unfolding m u(2) by blast
    then show "\<exists>y. install_block E rec i x = Ret () y \<and> ?I (Suc i) y"
      using x bframe_trans [of s x y] by (auto simp: W_def)
  next
    show "lh_n x = int n" if "?I i x" for i x using that t bframe_log(6) [of s x] by (simp add: txn_ok_def)
    show "?I 0 s" using c(1) by (simp add: W_def U_def unpinned_def)
    show "n \<le> LOGSIZE" using t log_slots_le by (auto simp: txn_ok_def)
  qed
  then show ?thesis by (simp add: install_trans_def ws_def W_def U_def)
qed

lemma log_upd_view:
  "content d (s\<lparr>lh_n := k\<rparr>) = content d s" "refs d (s\<lparr>lh_n := k\<rparr>) = refs d s" "owner d (s\<lparr>lh_n := k\<rparr>) = owner d s"
  "cache_inv d (s\<lparr>lh_n := k\<rparr>) = cache_inv d s"
  "content d (s\<lparr>lh_block := B\<rparr>) = content d s" "refs d (s\<lparr>lh_block := B\<rparr>) = refs d s" "owner d (s\<lparr>lh_block := B\<rparr>) = owner d s"
  "cache_inv d (s\<lparr>lh_block := B\<rparr>) = cache_inv d s"
  by (simp_all add: fun_eq_iff content_def refs_def owner_def cache_inv_def cong: option.case_cong if_cong)

lemma cache_log_upd [simp]:
  "cache p d (s\<lparr>lh_n := k\<rparr>) C R H = cache p d s C R H"
  "cache p d (s\<lparr>lh_block := B\<rparr>) C R H = cache p d s C R H"
  by (simp_all add: cache_def log_upd_view)

section \<open>Commit and recovery\<close>

lemma bframe_lh_n: "bframe s t \<Longrightarrow> bframe (s\<lparr>lh_n := k\<rparr>) (t\<lparr>lh_n := k\<rparr>)"
proof -
  assume f: "bframe s t"
  then obtain L P B D W where t: "t = s\<lparr>procs := P, slocks := L, bufs := B, disk := D, dwrites := W\<rparr>"
    unfolding bframe_def by blast
  show ?thesis
    by (rule bframeI [where P = P and L = L and B = B and D = D and W = W])
      (use f t in \<open>simp_all add: bframe_def\<close>)
qed

text \<open>The writes of a commit: the new contents to the log, the header (the commit point), the new
  contents to their home locations, the cleared header.\<close>

definition commit_writes :: "'x log_st_scheme \<Rightarrow> (u32 \<Rightarrow> block) \<Rightarrow> nat \<Rightarrow> (u32 \<times> block) list" where
  "commit_writes s C n =
     (let hb = head_block (lh_block s) n (C (log_head s))
      in map (\<lambda>i. (log_slot s i, C (lh_block s i))) [0..<n] @ [(log_head s, hb)] @
         map (\<lambda>i. (lh_block s i, C (lh_block s i))) [0..<n] @ [(log_head s, store32 hb 0 0)])"

lemma commit_rule:
  fixes s :: "'x log_st_scheme"
  assumes c: "cache p d s C R H" "log_dev s = d" and t: "txn_ok s n" "0 < n" and q: "quiet R H"
    and r: "\<And>i. i < n \<Longrightarrow> R (lh_block s i) \<noteq> 0" and sp: "card {x. R x \<noteq> 0} < NBUF"
  shows "\<exists>t. commit E s = Ret () t \<and> bframe (s\<lparr>lh_n := 0\<rparr>) t \<and> disk t = apply_writes (commit_writes s C n) (disk s) \<and>
    dwrites t = dwrites s @ commit_writes s C n \<and>
    cache p d t (apply_writes (commit_writes s C n) C) (unpinned False (lh_block s) n R) H"
proof -
  let ?h = "log_head s" and ?bl = "lh_block s" and ?U = "unpinned False (lh_block s) n R"
  define hb where "hb = head_block ?bl n (C ?h)"
  define W where "W = map (\<lambda>i. (log_slot s i, C (?bl i))) [0..<n]"
  define V where "V = map (\<lambda>i. (?bl i, C (?bl i))) [0..<n]"
  have n: "n \<le> LOGSIZE" "lh_n s = int n" "inj_on ?bl {..<n}" using t(1) log_slots_le [of n s] by (simp_all add: txn_ok_def)
  have sh: "log_slot s i \<noteq> ?h" if "i < n" for i using log_slot_head [of i s] that n(1) by simp
  obtain t1 where t1: "write_log E s = Ret () t1" "bframe s t1" "disk t1 = apply_writes W (disk s)"
      "dwrites t1 = dwrites s @ W" and c1: "cache p d t1 (apply_writes W C) R H"
    using write_log_rule [OF c t(1) q r sp] unfolding W_def by blast
  note f1 = bframe_log [OF t1(2)] bframe_slots [OF t1(2)]
  have Wh: "apply_writes W C ?h = C ?h" unfolding W_def
    by (rule apply_writes_notin) (simp add: sh)
  have Ws: "apply_writes W C (log_slot s i) = C (?bl i)" if "i < n" for i
    unfolding W_def by (rule apply_writes_map [OF inj_log_slot [OF n(1)] that])
  have qh: "H ?h = None" "Suc (R ?h) < 2 ^ 32" "Suc (?U ?h) < 2 ^ 32"
    using q quiet_unpinned [OF q] unfolding quiet_def by blast+
  obtain t2 where t2: "write_head E t1 = Ret () t2" "bframe t1 t2" "disk t2 = (disk t1)(?h := hb)"
      "dwrites t2 = dwrites t1 @ [(?h, hb)]" and c2: "cache p d t2 ((apply_writes W C)(?h := hb)) R H"
    using write_head_rule [OF c1 _ _ _ n(1) _ _ disjI2 [OF sp], of ?h E] c(2) n(2) f1 qh Wh by (auto simp: hb_def)
  have b2: "bframe s t2" by (rule bframe_trans [OF t1(2) t2(2)])
  note f2 = bframe_log [OF b2] bframe_slots [OF b2]
  have V2: "map (\<lambda>i. (lh_block t2 i, ((apply_writes W C)(?h := hb)) (log_slot t2 i))) [0..<n] = V"
    unfolding V_def by (rule map_cong) (use Ws sh in \<open>simp_all add: f2\<close>)
  have "\<exists>t. install_trans E False t2 = Ret () t \<and> bframe t2 t \<and> disk t = apply_writes V (disk t2) \<and>
      dwrites t = dwrites t2 @ V \<and> cache p d t (apply_writes V ((apply_writes W C)(?h := hb))) (unpinned False (lh_block t2) n R) H"
    unfolding V2 [symmetric]
    by (rule install_trans_rule [OF c2]) (use f2 c(2) bframe_txn [OF b2] t(1) q r sp in simp_all)
  then obtain t3 where t3: "install_trans E False t2 = Ret () t3" "bframe t2 t3" "disk t3 = apply_writes V (disk t2)"
      "dwrites t3 = dwrites t2 @ V" and c3: "cache p d t3 (apply_writes V ((apply_writes W C)(?h := hb))) ?U H"
    unfolding f2 by blast
  have b3: "bframe s t3" by (rule bframe_trans [OF b2 t3(2)])
  note f3 = bframe_log [OF b3] bframe_slots [OF b3]
  let ?t4 = "t3\<lparr>lh_n := 0\<rparr>"
  have f4: "log_head ?t4 = ?h" "log_dev ?t4 = d" "lh_n ?t4 = int 0"
    using f3 c(2) by (simp_all add: log_head_def)
  have Vh: "apply_writes V ((apply_writes W C)(?h := hb)) ?h = hb"
    unfolding V_def by (subst apply_writes_notin) (simp_all add: txn_okD(2) [OF t(1)])
  have spU: "?U ?h \<noteq> 0 \<or> card {x. ?U x \<noteq> 0} < NBUF" using card_unpinned sp le_less_trans by blast
  have c4: "cache p d ?t4 (apply_writes V ((apply_writes W C)(?h := hb))) ?U H" using c3 by simp
  obtain t5 where t5: "write_head E ?t4 = Ret () t5" "bframe ?t4 t5" "disk t5 = (disk ?t4)(?h := store32 hb 0 0)"
      "dwrites t5 = dwrites ?t4 @ [(?h, store32 hb 0 0)]"
      and c5: "cache p d t5 ((apply_writes V ((apply_writes W C)(?h := hb)))(?h := store32 hb 0 0)) ?U H"
    using write_head_rule [OF c4 f4(2,1,3) _ qh(1,3) spU, of E] Vh
    by (auto simp: head_block_def put_blocks_def)
  have cw: "commit_writes s C n = W @ [(?h, hb)] @ V @ [(?h, store32 hb 0 0)]"
    by (simp add: commit_writes_def Let_def hb_def W_def V_def)
  have "commit E s = Ret () t5"
    using t(2) n(2) t1(1) t2(1) t3(1) t5(1) by (simp add: commit_def set_lh_n_def bind_Ret seq_Ret seq_case)
  moreover have "bframe (s\<lparr>lh_n := 0\<rparr>) t5" using bframe_trans [OF bframe_lh_n [OF b3] t5(2)] .
  ultimately show ?thesis
    using t1(3,4) t2(3,4) t3(3,4) t5(3,4) c5 unfolding cw by (intro exI [of _ t5]) simp
qed

text \<open>Updating the in-memory header while a buffer is held.\<close>

lemma lh_upd_fields [simp]:
  "bufs (s\<lparr>lh_n := k\<rparr>) = bufs s" "bufs (s\<lparr>lh_block := B\<rparr>) = bufs s"
  "disk (s\<lparr>lh_n := k\<rparr>) = disk s" "disk (s\<lparr>lh_block := B\<rparr>) = disk s"
  "procs (s\<lparr>lh_n := k\<rparr>) = procs s" "procs (s\<lparr>lh_block := B\<rparr>) = procs s"
  "dwrites (s\<lparr>lh_n := k\<rparr>) = dwrites s" "dwrites (s\<lparr>lh_block := B\<rparr>) = dwrites s"
  "log_slot (s\<lparr>lh_n := k\<rparr>) = log_slot s" "log_slot (s\<lparr>lh_block := B\<rparr>) = log_slot s"
  "log_head (s\<lparr>lh_n := k\<rparr>) = log_head s" "log_head (s\<lparr>lh_block := B\<rparr>) = log_head s"
  by (simp_all add: log_slot_def log_head_def fun_eq_iff)

lemma read_loop:
  fixes s :: "'x log_st_scheme"
  assumes "lh_n s = int n" "n \<le> LOGSIZE"
  shows "for_logged (\<lambda>i. bind (get (\<lambda>s. load32 (bdata (bufs s b)) (4 + 4 * i))) (set_lh_block i)) s =
    Ret () (s\<lparr>lh_block := (\<lambda>i. if i < n then load32 (bdata (bufs s b)) (4 + 4 * i) else lh_block s i)\<rparr>)"
proof -
  let ?f = "\<lambda>k i. if i < k then load32 (bdata (bufs s b)) (4 + 4 * i) else lh_block s i"
  let ?body = "\<lambda>i. bind (get (\<lambda>s. load32 (bdata (bufs s b)) (4 + 4 * i))) (set_lh_block i)"
  have "\<exists>t. for_logged ?body s = Ret () t \<and> t = s\<lparr>lh_block := ?f n\<rparr>"
  proof (rule for_logged_rule [where I = "\<lambda>k t. t = s\<lparr>lh_block := ?f k\<rparr>"])
    fix i and t :: "'x log_st_scheme" assume "i < n" and t: "t = s\<lparr>lh_block := ?f i\<rparr>"
    have "(?f i)(i := load32 (bdata (bufs s b)) (4 + 4 * i)) = ?f (Suc i)" by (auto simp: fun_eq_iff less_Suc_eq)
    then show "\<exists>u. ?body i t = Ret () u \<and> u = s\<lparr>lh_block := ?f (Suc i)\<rparr>"
      using t by (simp add: bind_Ret set_lh_block_def)
  qed (use assms in simp_all)
  then show ?thesis by simp
qed

lemma read_head_rule:
  fixes s :: "'x log_st_scheme"
  assumes c: "cache p d s C R H" "log_dev s = d" "log_head s = h"
    and n: "sint (load32 (C h) 0) = int n" "n \<le> LOGSIZE"
    and h: "H h = None" "Suc (R h) < 2 ^ 32" and sp: "R h \<noteq> 0 \<or> card {x. R x \<noteq> 0} < NBUF"
  shows "\<exists>t B. read_head E s = Ret () t \<and> bframe (s\<lparr>lh_n := int n, lh_block := B\<rparr>) t \<and> disk t = disk s \<and>
    dwrites t = dwrites s \<and> cache p d t C R H \<and> (\<forall>i<n. B i = load32 (C h) (4 + 4 * i))"
proof -
  let ?R = "R(h := Suc (R h))" and ?H = "H(h := Some (pid (procs s p)))"
  obtain b t where t: "bread E d h s = Ret b t" "bframe s t" "disk t = disk s" "dwrites t = dwrites s"
      "buf_of d (bufs t) h = Some b" and ct: "cache p d t C ?R ?H"
    using bread_rule [OF c(1) h sp] by blast
  have v: "bdata (bufs t b) = C h" using cacheD(6) [OF ct t(5)] by simp
  define B where "B = (\<lambda>i. if i < n then load32 (C h) (4 + 4 * i) else lh_block t i)"
  define u where "u = t\<lparr>lh_n := int n, lh_block := B\<rparr>"
  have loop: "for_logged (\<lambda>i. bind (get (\<lambda>s. load32 (bdata (bufs s b)) (4 + 4 * i))) (set_lh_block i)) (t\<lparr>lh_n := int n\<rparr>) = Ret () u"
    using read_loop [of "t\<lparr>lh_n := int n\<rparr>" n b] n(2) v by (simp add: u_def B_def cong: if_cong)
  have cu: "cache p d u C ?R ?H" using ct by (simp add: u_def)
  have "\<exists>y. brelse b u = Ret () y \<and> bframe u y \<and> disk y = disk u \<and> dwrites y = dwrites u \<and>
      buf_of d (bufs y) = buf_of d (bufs u) \<and> cache p d y C (?R(h := ?R h - 1)) (?H(h := None))"
    by (rule brelse_rule [OF cu])
      (use t bframe_pid [OF t(2), of p] cache_clean [OF c(1), of h] in \<open>simp_all add: u_def\<close>)
  then obtain y where y: "brelse b u = Ret () y" "bframe u y" "disk y = disk u" "dwrites y = dwrites u"
      "cache p d y C R H" using h(1) by (auto simp: fun_upd_idem)
  have "read_head E s = Ret () y"
    using t(1) c n(1) v loop y(1) by (simp add: read_head_def bind_Ret seq_Ret set_lh_n_def)
  moreover have "bframe (s\<lparr>lh_n := int n, lh_block := B\<rparr>) u"
  proof -
    obtain L P X D W where x: "t = s\<lparr>procs := P, slocks := L, bufs := X, disk := D, dwrites := W\<rparr>"
      using t(2) unfolding bframe_def by blast
    show ?thesis
      by (rule bframeI [where P = P and L = L and B = X and D = D and W = W])
        (use t(2) x in \<open>simp_all add: bframe_def u_def\<close>)
  qed
  then have "bframe (s\<lparr>lh_n := int n, lh_block := B\<rparr>) y" using y(2) by (rule bframe_trans)
  moreover have "\<forall>i<n. B i = load32 (C h) (4 + 4 * i)" by (simp add: B_def)
  ultimately show ?thesis using y(3,4,5) t(3,4) by (intro exI [of _ y] exI [of _ B]) (simp add: u_def)
qed

text \<open>The writes of a recovery from a medium with contents \<open>C\<close> whose header lists \<open>n\<close> blocks.\<close>

definition recover_writes :: "'x log_st_scheme \<Rightarrow> (u32 \<Rightarrow> block) \<Rightarrow> nat \<Rightarrow> (u32 \<times> block) list" where
  "recover_writes s C n =
     map (\<lambda>i. (load32 (C (log_head s)) (4 + 4 * i), C (log_slot s i))) [0..<n] @
     [(log_head s, store32 (C (log_head s)) 0 0)]"

lemma recover_rule:
  fixes s :: "'x log_st_scheme"
  assumes c: "cache p d s C R H" "log_dev s = d"
    and n: "sint (load32 (C (log_head s)) 0) = int n" "n \<le> log_slots s"
    and w: "inj_on (\<lambda>i. load32 (C (log_head s)) (4 + 4 * i)) {..<n}"
      "\<forall>i<n. load32 (C (log_head s)) (4 + 4 * i) \<notin> log_area s"
    and q: "quiet R H" and sp: "Suc (card {x. R x \<noteq> 0}) < NBUF"
  shows "\<exists>t. recover_from_log E s = Ret () t \<and> lh_n t = 0 \<and> disk t = apply_writes (recover_writes s C n) (disk s) \<and>
    dwrites t = dwrites s @ recover_writes s C n \<and> cache p d t (apply_writes (recover_writes s C n) C) R H"
proof -
  let ?h = "log_head s"
  have qh: "H ?h = None" "Suc (R ?h) < 2 ^ 32" using q unfolding quiet_def by blast+
  have sp1: "card {x. R x \<noteq> 0} < NBUF" using sp by simp
  obtain t1 B where t1: "read_head E s = Ret () t1" "bframe (s\<lparr>lh_n := int n, lh_block := B\<rparr>) t1" "disk t1 = disk s"
      "dwrites t1 = dwrites s" and c1: "cache p d t1 C R H" and B: "\<forall>i<n. B i = load32 (C ?h) (4 + 4 * i)"
    using read_head_rule [OF c refl n(1) log_slots_le [OF n(2)] qh disjI2 [OF sp1]] by blast
  note f1 = bframe_log [OF t1(2)] bframe_slots [OF t1(2)]
  have l1: "log_slots t1 = log_slots s" "log_slot t1 = log_slot s" "log_head t1 = ?h" "lh_block t1 = B" "lh_n t1 = int n" "log_dev t1 = d"
    using f1 c(2) by (simp_all add: log_slots_def)
  have "inj_on B {..<n}" using w(1) B by (simp add: inj_on_def)
  then have tx: "txn_ok t1 n" using n(2) w(2) B by (simp add: txn_ok_def log_area_def l1)
  let ?W = "map (\<lambda>i. (load32 (C ?h) (4 + 4 * i), C (log_slot s i))) [0..<n]"
  have W: "map (\<lambda>i. (lh_block t1 i, C (log_slot t1 i))) [0..<n] = ?W" by (rule map_cong) (simp_all add: l1 B)
  obtain t2 where t2: "install_trans E True t1 = Ret () t2" "bframe t1 t2" "disk t2 = apply_writes ?W (disk t1)"
      "dwrites t2 = dwrites t1 @ ?W" and c2: "cache p d t2 (apply_writes ?W C) R H"
    using install_trans_rule [OF c1 l1(6) tx q _ sp1 sp, of True E] unfolding W by (auto simp: unpinned_def)
  let ?t3 = "t2\<lparr>lh_n := 0\<rparr>"
  have l3: "log_dev ?t3 = d" "log_head ?t3 = ?h" "lh_n ?t3 = int 0"
    using bframe_log [OF t2(2)] bframe_slots [OF t2(2)] l1 by simp_all
  have c3: "cache p d ?t3 (apply_writes ?W C) R H" using c2 by simp
  have Wh: "apply_writes ?W C ?h = C ?h"
    by (rule apply_writes_notin) (use w(2) in \<open>auto simp: log_area_def\<close>)
  obtain t4 where t4: "write_head E ?t3 = Ret () t4" "bframe ?t3 t4" "disk t4 = (disk ?t3)(?h := store32 (C ?h) 0 0)"
      "dwrites t4 = dwrites ?t3 @ [(?h, store32 (C ?h) 0 0)]"
      and c4: "cache p d t4 ((apply_writes ?W C)(?h := store32 (C ?h) 0 0)) R H"
    using write_head_rule [OF c3 l3 _ qh disjI2 [OF sp1], of E] Wh
    by (auto simp: head_block_def put_blocks_def)
  have "recover_from_log E s = Ret () t4"
    using t1(1) t2(1) t4(1) by (simp add: recover_from_log_def seq_Ret set_lh_n_def seq_case)
  moreover have "lh_n t4 = 0" using bframe_log(6) [OF t4(2)] by simp
  ultimately show ?thesis using t1(3,4) t2(3,4) t4(3,4) c4
    by (intro exI [of _ t4]) (simp add: recover_writes_def)
qed

section \<open>Crashes\<close>

lemma apply_writes_image:
  "apply_writes (map (\<lambda>i. (f i, g (f i))) [0..<n]) D x = (if x \<in> f ` {..<n} then g x else D x)"
  by (induction n) (auto simp: lessThan_Suc)

text \<open>\<open>recoverable s D m D'\<close>: the header on the medium \<open>D\<close> lists \<open>m\<close> distinct blocks outside the log, and
  recovery turns the blocks outside the log into \<open>D'\<close>.\<close>

definition recoverable :: "'x log_st_scheme \<Rightarrow> (u32 \<Rightarrow> block) \<Rightarrow> nat \<Rightarrow> (u32 \<Rightarrow> block) \<Rightarrow> bool" where
  "recoverable s D m D' \<longleftrightarrow> sint (load32 (D (log_head s)) 0) = int m \<and> m \<le> log_slots s \<and>
     inj_on (\<lambda>i. load32 (D (log_head s)) (4 + 4 * i)) {..<m} \<and>
     (\<forall>i<m. load32 (D (log_head s)) (4 + 4 * i) \<notin> log_area s) \<and>
     (\<forall>x. x \<notin> log_area s \<longrightarrow> apply_writes (recover_writes s D m) D x = D' x)"

lemma recoverable_clear:
  assumes "load32 (D (log_head s)) 0 = 0" "\<And>x. x \<notin> log_area s \<Longrightarrow> D x = D' x"
  shows "recoverable s D 0 D'"
  using assms by (auto simp: recoverable_def recover_writes_def log_area_def)

definition committed :: "'x log_st_scheme \<Rightarrow> nat \<Rightarrow> (u32 \<Rightarrow> block) \<Rightarrow> (u32 \<Rightarrow> block) \<Rightarrow> u32 \<Rightarrow> block" where
  "committed s n C D x = (if x \<in> lh_block s ` {..<n} then C x else D x)"

lemma slots_in_area: "n \<le> log_slots s \<Longrightarrow> i < n \<Longrightarrow> log_slot s i \<in> log_area s"
  by (auto simp: log_area_def)

lemma slots_out: "n \<le> log_slots s \<Longrightarrow> x \<notin> log_area s \<Longrightarrow> \<forall>i<n. log_slot s i \<noteq> x"
  by (auto simp: log_area_def)

lemma crash_before:
  assumes "txn_ok s n" "load32 (D (log_head s)) 0 = 0" "k \<le> n"
  shows "recoverable s (apply_writes (take k (map (\<lambda>i. (log_slot s i, g i)) [0..<n])) D) 0 D"
proof -
  let ?D = "apply_writes (take k (map (\<lambda>i. (log_slot s i, g i)) [0..<n])) D"
  have t: "take k (map (\<lambda>i. (log_slot s i, g i)) [0..<n]) = map (\<lambda>i. (log_slot s i, g i)) [0..<k]"
    using assms(3) by (simp add: take_map)
  have n: "n \<le> log_slots s" "n \<le> LOGSIZE" using assms(1) log_slots_le [of n s] by (simp_all add: txn_ok_def)
  have o: "?D x = D x" if "\<forall>i<k. log_slot s i \<noteq> x" for x unfolding t using that by (rule apply_writes_notin)
  have "log_slot s i \<noteq> log_head s" if "i < k" for i using log_slot_head [of i s] that n assms(3) by simp
  then have "?D (log_head s) = D (log_head s)" by (intro o) blast
  moreover have "?D x = D x" if "x \<notin> log_area s" for x
    using that n assms(3) by (intro o slots_out) simp_all
  ultimately show ?thesis using assms(2) by (intro recoverable_clear) simp_all
qed

lemma crash_after:
  fixes C D :: "u32 \<Rightarrow> block"
  assumes tx: "txn_ok s n" and j: "j \<le> n"
  defines "hb \<equiv> head_block (lh_block s) n (C (log_head s))"
  defines "D1 \<equiv> (apply_writes (map (\<lambda>i. (log_slot s i, C (lh_block s i))) [0..<n]) D)(log_head s := hb)"
  defines "D2 \<equiv> apply_writes (map (\<lambda>i. (lh_block s i, C (lh_block s i))) [0..<j]) D1"
  shows "recoverable s D2 n (committed s n C D)" "D2 (log_head s) = hb"
    "x \<notin> log_area s \<Longrightarrow> D2 x = committed s j C D x"
proof -
  let ?h = "log_head s" and ?bl = "lh_block s"
  have n: "n \<le> log_slots s" "inj_on ?bl {..<n}" "n \<le> LOGSIZE" and out: "\<And>i. i < n \<Longrightarrow> ?bl i \<notin> log_area s"
    using tx log_slots_le [of n s] by (simp_all add: txn_ok_def)
  have D2: "D2 x = (if x \<in> ?bl ` {..<j} then C x else D1 x)" for x unfolding D2_def by (rule apply_writes_image)
  have h: "?h \<in> log_area s" by (simp add: log_area_def)
  have nj: "y \<notin> ?bl ` {..<j}" if "y \<in> log_area s" for y using that out j by auto
  show D2h: "D2 ?h = hb" using nj [OF h] by (simp add: D2 D1_def)
  have sl: "D2 (log_slot s i) = C (?bl i)" if "i < n" for i
    using nj [OF slots_in_area [OF n(1) that]] log_slot_head [of i s] that n(3)
      apply_writes_map [OF inj_log_slot [OF n(3)] that] by (simp add: D2 D1_def)
  have o: "D1 x = D x" if "x \<notin> log_area s" for x
    unfolding D1_def using that h apply_writes_notin [OF slots_out [OF n(1) that]] by auto
  then show "x \<notin> log_area s \<Longrightarrow> D2 x = committed s j C D x" by (simp add: D2 committed_def)
  have bl: "load32 hb (4 + 4 * i) = ?bl i" if "i < n" for i using that by (simp add: hb_def head_block_load)
  have W: "map (\<lambda>i. (load32 hb (4 + 4 * i), D2 (log_slot s i))) [0..<n] = map (\<lambda>i. (?bl i, C (?bl i))) [0..<n]"
    by (rule map_cong) (simp_all add: bl sl)
  have "apply_writes (recover_writes s D2 n) D2 x = committed s n C D x" if x: "x \<notin> log_area s" for x
  proof -
    have "x \<noteq> ?h" using x h by auto
    then have "apply_writes (recover_writes s D2 n) D2 x = (if x \<in> ?bl ` {..<n} then C x else D2 x)"
      by (simp add: recover_writes_def D2h W apply_writes_image)
    moreover have "x \<notin> ?bl ` {..<n} \<Longrightarrow> x \<notin> ?bl ` {..<j}" using j by auto
    ultimately show ?thesis using o [OF x] by (simp add: committed_def D2)
  qed
  then show "recoverable s D2 n (committed s n C D)"
    using n out bl unfolding recoverable_def D2h
    by (simp add: hb_def head_block_load sint_log_count inj_on_def)
qed

lemma crash_disk:
  assumes tx: "txn_ok s n" and h0: "load32 (D (log_head s)) 0 = 0" and k: "k \<le> length (commit_writes s C n)"
  shows "\<exists>m. recoverable s (apply_writes (take k (commit_writes s C n)) D) m (if k \<le> n then D else committed s n C D)"
proof -
  let ?h = "log_head s" and ?W = "map (\<lambda>i. (log_slot s i, C (lh_block s i))) [0..<n]"
  let ?V = "map (\<lambda>i. (lh_block s i, C (lh_block s i))) [0..<n]" and ?hb = "head_block (lh_block s) n (C (log_head s))"
  have ws: "commit_writes s C n = ?W @ (?h, ?hb) # ?V @ [(?h, store32 ?hb 0 0)]" by (simp add: commit_writes_def Let_def)
  show ?thesis
  proof (cases "k \<le> n")
    case True
    then have "take k (commit_writes s C n) = take k ?W" by (simp add: ws)
    then show ?thesis using crash_before [where D = D and g = "\<lambda>i. C (lh_block s i)", OF tx h0 True] True by auto
  next
    case False
    then obtain j where j: "k = Suc (n + j)" by (metis add_Suc_right less_imp_Suc_add not_le)
    let ?j = "min j n" and ?D1 = "(apply_writes ?W D)(?h := ?hb)"
    let ?D2 = "apply_writes (map (\<lambda>i. (lh_block s i, C (lh_block s i))) [0..<?j]) ?D1"
    note a = crash_after [OF tx min.cobounded2 [of j n], where C = C and D = D]
    show ?thesis
    proof (cases "j \<le> n")
      case True
      then have "take k (commit_writes s C n) = ?W @ (?h, ?hb) # map (\<lambda>i. (lh_block s i, C (lh_block s i))) [0..<?j]"
        using j by (simp add: ws take_map)
      then show ?thesis using a(1) False by auto
    next
      case all: False
      have "length (commit_writes s C n) = Suc (Suc (n + n))" by (simp add: ws)
      with all k j have "j = Suc n" by simp
      then have tk: "take k (commit_writes s C n) = ?W @ (?h, ?hb) # ?V @ [(?h, store32 ?hb 0 0)]" using j by (simp add: ws)
      have "apply_writes (take k (commit_writes s C n)) D = ?D2(?h := store32 ?hb 0 0)" using all by (simp add: tk)
      moreover have "recoverable s (?D2(?h := store32 ?hb 0 0)) 0 (committed s n C D)"
      proof (rule recoverable_clear)
        fix x assume "x \<notin> log_area s"
        moreover from this have "x \<noteq> ?h" by (auto simp: log_area_def)
        ultimately show "(?D2(?h := store32 ?hb 0 0)) x = committed s n C D x" using a(3) [of x] all by simp
      qed simp
      ultimately show ?thesis using False by auto
    qed
  qed
qed

section \<open>Beginning an operation\<close>

lemma hs_log_order [upd_order]:
  "s\<lparr>hs := h, outstanding := k\<rparr> = s\<lparr>outstanding := k, hs := h\<rparr>"
  "s\<lparr>hs := h, committing := c\<rparr> = s\<lparr>committing := c, hs := h\<rparr>"
  "s\<lparr>hs := h, lh_n := k\<rparr> = s\<lparr>lh_n := k, hs := h\<rparr>"
  "s\<lparr>hs := h, lh_block := B\<rparr> = s\<lparr>lh_block := B, hs := h\<rparr>"
  by simp_all

definition log_full :: "'x log_st_scheme \<Rightarrow> bool" where
  "log_full s \<longleftrightarrow> committing s \<or> lh_n s + (outstanding s + 1) * int MAXOPBLOCKS > int LOGSIZE"

lemma begin_loop_Suc:
  "begin_loop (Suc k) E s = (if log_full s then seq (sleep E ChLog LogLock) (begin_loop k E) s
     else seq (modify (\<lambda>s. s\<lparr>outstanding := outstanding s + 1\<rparr>)) (release LogLock) s)"
  by (simp add: kexec log_full_def)

lemma begin_loop_outcome:
  fixes s :: "'x log_st_scheme"
  assumes "calm_hart p h" "same_hart E"
  shows "hs s = acq LogLock h \<Longrightarrow> length (choices s) < n \<Longrightarrow>
    (\<exists>t. begin_loop n E s = Ret () t \<and> hs t = h \<and> \<not> committing t \<and>
      lh_n t + outstanding t * int MAXOPBLOCKS \<le> int LOGSIZE) \<or>
    (\<exists>t. begin_loop n E s = Off t \<and> state (procs t p) = SLEEPING \<and> pchan (procs t p) = Some ChLog \<and> log_full t)"
proof (induction n arbitrary: s)
  case (Suc n)
  show ?case
  proof (cases "log_full s")
    case False
    then have "begin_loop (Suc n) E s = Ret () (s\<lparr>outstanding := outstanding s + 1, hs := h\<rparr>)"
      unfolding begin_loop_Suc using Suc.prems(1) assms(1) by (simp add: kexec lock_rules upd_order)
    then show ?thesis using False by (simp add: log_full_def)
  next
    case True
    have ll: "LogLock \<noteq> ProcLock p" by simp
    note sl = sleep_eq [OF calm_rules(4) [OF assms(1)] Suc.prems(1) _ ll assms(2), of ChLog]
    show ?thesis
    proof (cases "choices s")
      case Nil
      with True sl assms(1) have "begin_loop (Suc n) E s = Off (asleep p ChLog h s)"
        unfolding begin_loop_Suc by (simp add: kexec)
      moreover have "log_full (asleep p ChLog h s)" using True by (simp add: log_full_def asleep_def)
      ultimately show ?thesis by (simp add: asleep_def)
    next
      case (Cons c cs)
      let ?u = "E c ((asleep p ChLog h s)\<lparr>choices := cs\<rparr>)"
      let ?t = "?u\<lparr>procs := (procs ?u)(p := (procs ?u p)\<lparr>pchan := None\<rparr>), hs := acq LogLock h\<rparr>"
      have "begin_loop (Suc n) E s = begin_loop n E ?t"
        unfolding begin_loop_Suc using True sl assms(1) Cons by (simp add: kexec Let_def)
      moreover have "hs ?t = acq LogLock h" "length (choices ?t) < n"
        using assms(2) Cons Suc.prems(2) by (simp_all add: same_hart_def)
      ultimately show ?thesis using Suc.IH [of ?t] by simp
    qed
  qed
qed simp

section \<open>Recording a write\<close>

lemma log_index_eq:
  assumes "lh_n s = int n"
  shows "m \<notin> lh_block s ` {..<n} \<Longrightarrow> log_index m s = n"
    "m \<in> lh_block s ` {..<n} \<Longrightarrow> log_index m s < n \<and> lh_block s (log_index m s) = m"
proof -
  show "m \<notin> lh_block s ` {..<n} \<Longrightarrow> log_index m s = n"
    using assms first_idx_None [of "\<lambda>i. lh_block s i = m" n] by (auto simp: log_index_def)
  assume "m \<in> lh_block s ` {..<n}"
  then obtain i where "first_idx (\<lambda>i. lh_block s i = m) n = Some i"
    using first_idx_None [of "\<lambda>i. lh_block s i = m" n] by (cases "first_idx (\<lambda>i. lh_block s i = m) n") auto
  moreover from this have "i < n" "lh_block s i = m" by (simp_all add: first_idx_Some)
  ultimately show "log_index m s < n \<and> lh_block s (log_index m s) = m"
    using assms by (simp add: log_index_def)
qed

lemma log_index_hs [simp]: "log_index m (s\<lparr>hs := h\<rparr>) = log_index m s"
  by (simp add: log_index_def cong: option.case_cong)

lemma log_write_eq:
  fixes s :: "'x log_st_scheme"
  assumes "calm p s" "lh_n s = int n" "blockno (bufs s b) = m"
  shows "log_write b s =
    (if n \<ge> LOGSIZE \<or> int n \<ge> log_size s - 1 then Panic ''too big a transaction''
     else if outstanding s < 1 then Panic ''log_write outside of trans''
     else if m \<in> lh_block s ` {..<n} then Ret () s
     else Ret () (s\<lparr>bufs := (bufs s)(b := (bufs s b)\<lparr>refcnt := refcnt (bufs s b) + 1\<rparr>),
       lh_block := (lh_block s)(n := m), lh_n := int n + 1\<rparr>))"
proof (cases "m \<in> lh_block s ` {..<n}")
  case True
  let ?i = "log_index m s"
  have i: "?i < n" "lh_block s ?i = m" using log_index_eq(2) [OF assms(2) True] by simp_all
  have "(lh_block s)(?i := m) = lh_block s" using i by auto
  then show ?thesis using assms True i(1)
    by (simp add: log_write_def kexec lock_rules set_lh_block_def upd_order)
next
  case False
  show ?thesis using assms False log_index_eq(1) [OF assms(2) False]
    by (simp add: log_write_def kexec lock_rules set_lh_block_def set_lh_n_def bpin_def upd_buf_def upd_order)
qed

lemma log_write_rule:
  assumes "cache p d s C R H" "buf_of d (bufs s) m = Some b" "R m \<noteq> 0" "Suc (R m) < 2 ^ 32"
    and "txn_ok s n" "m \<notin> log_area s" "n < LOGSIZE" "int n < log_size s - 1" "outstanding s \<ge> 1"
  shows "\<exists>t n'. log_write b s = Ret () t \<and> txn_ok t n' \<and> n' \<le> Suc n \<and>
    lh_block t ` {..<n'} = insert m (lh_block s ` {..<n}) \<and>
    (\<exists>B K. t = s\<lparr>bufs := B, lh_block := K, lh_n := int n'\<rparr>) \<and> buf_of d (bufs t) = buf_of d (bufs s) \<and>
    cache p d t C (if m \<in> lh_block s ` {..<n} then R else R(m := Suc (R m))) H"
proof -
  have c: "calm p s" and n: "lh_n s = int n" using assms(1,5) by (simp_all add: cache_def txn_ok_def)
  have bn: "blockno (bufs s b) = m" using cacheD(3) [OF assms(1,2)] .
  let ?B = "(bufs s)(b := (bufs s b)\<lparr>refcnt := refcnt (bufs s b) + 1\<rparr>)"
  let ?t = "s\<lparr>bufs := ?B, lh_block := (lh_block s)(n := m), lh_n := int (Suc n)\<rparr>"
  have "bpin b s = Ret () (s\<lparr>bufs := ?B\<rparr>)" using c by (simp add: bpin_def kexec lock_rules upd_buf_def upd_order)
  then have "cache p d (s\<lparr>bufs := ?B\<rparr>) C (R(m := Suc (R m))) H" "buf_of d ?B = buf_of d (bufs s)"
    using bpin_rule [OF assms(1-4)] by auto
  then have ct: "cache p d ?t C (R(m := Suc (R m))) H" "buf_of d (bufs ?t) = buf_of d (bufs s)" by simp_all
  show ?thesis
  proof (cases "m \<in> lh_block s ` {..<n}")
    case True
    have ex: "\<exists>B K. s = s\<lparr>bufs := B, lh_block := K, lh_n := int n\<rparr>"
      using n by (intro exI [of _ "bufs s"] exI [of _ "lh_block s"]) simp
    have "log_write b s = Ret () s" using log_write_eq [OF c n bn] assms(7-9) True by simp
    with assms(1,5) True ex show ?thesis by (intro exI [of _ s] exI [of _ n] conjI) (simp_all add: insert_absorb)
  next
    case False
    have a: "log_area ?t = log_area s" "log_slots ?t = log_slots s"
      by (simp_all add: log_area_def log_head_def log_slot_def log_slots_def)
    have "inj_on ((lh_block s)(n := m)) {..<Suc n}"
      using assms(5) False by (auto simp: txn_ok_def inj_on_def less_Suc_eq image_iff)
    then have "txn_ok ?t (Suc n)" using assms(5-8) unfolding txn_ok_def a by (auto simp: less_Suc_eq log_slots_def)
    moreover have "lh_block ?t ` {..<Suc n} = insert m (lh_block s ` {..<n})" by (auto simp: lessThan_Suc)
    moreover have "log_write b s = Ret () ?t" using log_write_eq [OF c n bn] assms(7-9) False by simp
    ultimately show ?thesis using ct False by (intro exI [of _ ?t] exI [of _ "Suc n"] conjI exI) (rule refl | simp)+
  qed
qed

section \<open>Properties\<close>

text \<open>C1: Crash safety of a commit. The commit of a transaction of \<open>n\<close> blocks performs \<open>2 n + 2\<close> disk writes.
  If the machine stops after the first \<open>k\<close> of them and reboots, recovery runs to completion, and
  every block outside the log then has its old contents when \<open>k \<le> n\<close>, and otherwise the contents of the
  transaction if it was logged and its old contents if not: all of the transaction or nothing.\<close>

theorem commit_crash_atomic:
  assumes "cache p d s C R H" "log_dev s = d" "txn_ok s n" "0 < n" "quiet R H"
    and "\<And>i. i < n \<Longrightarrow> R (lh_block s i) \<noteq> 0" "card {x. R x \<noteq> 0} < NBUF"
    and "load32 (disk s (log_head s)) 0 = 0"
    and "k \<le> length (commit_writes s C n)" "disk u = apply_writes (take k (commit_writes s C n)) (disk s)"
    and "cache p' d u (disk u) (\<lambda>_. 0) (\<lambda>_. None)" "log_dev u = d" "log_start u = log_start s" "log_size u = log_size s"
  shows "\<exists>t v. commit E s = Ret () t \<and> dwrites t = dwrites s @ commit_writes s C n \<and>
    recover_from_log F u = Ret () v \<and>
    (\<forall>x. x \<notin> log_area s \<longrightarrow> disk v x =
      (if k \<le> n then disk s x else if x \<in> lh_block s ` {..<n} then C x else disk s x))"
proof -
  obtain t where t: "commit E s = Ret () t" "dwrites t = dwrites s @ commit_writes s C n"
    using commit_rule [OF assms(1-7)] by blast
  have sl: "log_slot u = log_slot s" "log_head u = log_head s" "log_area u = log_area s" "log_slots u = log_slots s"
    using assms(13,14) by (simp_all add: log_slot_def log_head_def log_area_def log_slots_def fun_eq_iff)
  obtain m where m: "recoverable s (disk u) m (if k \<le> n then disk s else committed s n C (disk s))"
    using crash_disk [where D = "disk s", OF assms(3,8,9)] unfolding assms(10) by blast
  have rw: "recover_writes u (disk u) m = recover_writes s (disk u) m" by (simp add: recover_writes_def sl)
  obtain v where v: "recover_from_log F u = Ret () v" "disk v = apply_writes (recover_writes s (disk u) m) (disk u)"
    using recover_rule [OF assms(11,12), of m F] m by (auto simp: sl rw recoverable_def quiet_def NBUF_def)
  have "disk v x = (if k \<le> n then disk s x else if x \<in> lh_block s ` {..<n} then C x else disk s x)"
    if "x \<notin> log_area s" for x
    using m that by (simp add: recoverable_def v(2) committed_def)
  with t v(1) show ?thesis by blast
qed

text \<open>An example transaction: block 45 cached in buffer 0 with new contents, logged at block 3.\<close>

definition log_ex :: log_st where
  "log_ex = bio_st.extend (bio_ex\<lparr>bufs := (bufs bio_ex)(0 := (bufs bio_ex 0)\<lparr>bdev := 1, blockno := 45, valid := True,
       refcnt := 1, bdata := (\<lambda>_. 7)\<rparr>), disk := (disk bio_ex)(2 := (\<lambda>_. 0))\<rparr>)
     \<lparr>log_start = 2, log_size = 30, outstanding = 1, committing = False, log_dev = 1, lh_n = 1, lh_block = (\<lambda>_. 45)\<rparr>"

definition log_boot :: "(u32 \<Rightarrow> block) \<Rightarrow> log_st" where
  "log_boot D = bio_st.extend (bio_ex\<lparr>disk := D\<rparr>)
     \<lparr>log_start = 2, log_size = 30, outstanding = 0, committing = False, log_dev = 1, lh_n = 0, lh_block = (\<lambda>_. 0)\<rparr>"

lemma bio_st_extend_fields [simp]:
  "hs (bio_st.extend s x) = hs s" "bufs (bio_st.extend s x) = bufs s" "disk (bio_st.extend s x) = disk s"
  "slocks (bio_st.extend s x) = slocks s" "procs (bio_st.extend s x) = procs s"
  by (simp_all add: bio_st.defs)

lemma log_boot_cache: "cache 3 1 (log_boot D) D (\<lambda>_. 0) (\<lambda>_. None)"
  using zeroed_cache_inv [of "log_boot D" "rev [0..<NBUF]" 1] bio_ex_lru bio_ex_fields
  by (simp add: cache_def log_boot_def atLeast0LessThan)

lemma log_ex_bufs:
  "bufs log_ex = (bufs bio_ex)(0 := (bufs bio_ex 0)\<lparr>bdev := 1, blockno := 45, valid := True, refcnt := 1, bdata := (\<lambda>_. 7)\<rparr>)"
  "slocks log_ex = slocks bio_ex" "hs log_ex = hs bio_ex"
  by (simp_all add: log_ex_def)

lemma log_ex_view: "uniq 1 (bufs log_ex)" "buf_of 1 (bufs log_ex) m = (if m = 45 then Some 0 else None)"
proof -
  have N: "0 < NBUF" by (simp add: NBUF_def)
  have u0: "uniq 1 (bufs bio_ex)" and b0: "\<And>m. buf_of 1 (bufs bio_ex) m = None"
    by (simp_all add: uniq_def buf_of_None bio_ex_fields)
  let ?r = "(bufs bio_ex 0)\<lparr>bdev := 1, blockno := 45, valid := True, refcnt := 1, bdata := (\<lambda>_. 7)\<rparr>"
  show "uniq 1 (bufs log_ex)" "buf_of 1 (bufs log_ex) m = (if m = 45 then Some 0 else None)"
    unfolding log_ex_bufs using buf_of_upd [OF u0 N, of ?r 45] b0 by simp_all
qed

lemma log_ex_buf: "buf_of 1 (bufs log_ex) 45 = Some 0"
  by (simp add: log_ex_view)

lemma log_ex_cache:
  "cache 3 1 log_ex ((disk log_ex)(45 := (\<lambda>_. 7))) ((\<lambda>_. 0)(45 := 1)) (\<lambda>_. None)"
proof -
  note B = log_ex_bufs and bo = log_ex_view(2)
  have r0: "bufs log_ex 0 = (bufs bio_ex 0)\<lparr>bdev := 1, blockno := 45, valid := True, refcnt := 1, bdata := (\<lambda>_. 7)\<rparr>"
    by (simp add: B)
  show ?thesis
  proof (rule cacheI [where xs = "rev [0..<NBUF]"])
    show "calm 3 log_ex" by (simp add: B bio_ex_fields)
    show "lru (bufs log_ex) (rev [0..<NBUF])"
      using bio_ex_lru lru_cong [of "bufs log_ex" "bufs bio_ex" "rev [0..<NBUF]"] by (simp add: B)
    show "buf_ok 1 (disk log_ex) (slocked (slocks log_ex (BufLk b))) (bufs log_ex b)" for b
      by (simp add: B buf_ok_def bio_ex_fields)
    show "content 1 log_ex m = ((disk log_ex)(45 := (\<lambda>_. 7))) m" for m by (simp add: content_def bo r0)
    show "refs 1 log_ex m = ((\<lambda>_. 0)(45 := 1)) m" for m by (simp add: refs_def bo r0)
    show "owner 1 log_ex m = None" for m by (simp add: owner_def bo B(2) bio_ex_fields)
  qed (use log_ex_view(1) in auto)
qed

lemma log_ex_fields:
  "lh_n log_ex = 1" "lh_block log_ex = (\<lambda>_. 45)" "log_head log_ex = 2" "log_dev log_ex = 1" "log_start log_ex = 2"
  "disk log_ex = (disk bio_ex)(2 := (\<lambda>_. 0))" "log_size log_ex = 30"
  by (simp_all add: log_ex_def log_head_def) (simp_all add: bio_st.defs)

lemma log_ex_area: "45 \<notin> log_area log_ex"
proof -
  have "log_slot log_ex i \<noteq> 45" if "i < LOGSIZE" for i
  proof
    assume "log_slot log_ex i = 45"
    then have "(of_nat i :: u32) = 42" by (simp add: log_slot_def log_ex_fields)
    then have "unat (of_nat i :: u32) = 42" by simp
    then show False using that by (simp add: unat_of_nat_small LOGSIZE_def MAXOPBLOCKS_def)
  qed
  then show ?thesis by (auto simp: log_area_def log_slots_def log_ex_fields)
qed

lemma log_ex_txn: "txn_ok log_ex 1"
  using log_ex_area by (simp add: txn_ok_def log_slots_def log_ex_fields LOGSIZE_def MAXOPBLOCKS_def inj_on_def)

theorem commit_crash_atomic_witness:
  "\<exists>t v. commit (\<lambda>_ u. u) log_ex = Ret () t \<and>
     recover_from_log (\<lambda>_ u. u) (log_boot (apply_writes (take 2 (commit_writes log_ex ((disk log_ex)(45 := (\<lambda>_. 7))) 1)) (disk log_ex))) = Ret () v \<and>
     disk v 45 = (\<lambda>_. 7)"
proof -
  let ?C = "(disk log_ex)(45 := (\<lambda>_. 7))"
  let ?u = "log_boot (apply_writes (take 2 (commit_writes log_ex ?C 1)) (disk log_ex))"
  have u: "disk ?u = apply_writes (take 2 (commit_writes log_ex ?C 1)) (disk log_ex)" "log_dev ?u = 1" "log_start ?u = log_start log_ex"
      "log_size ?u = log_size log_ex"
    by (simp_all add: log_boot_def log_ex_fields) (simp_all add: bio_st.defs)
  let ?R = "(\<lambda>_. 0)(45 := 1) :: u32 \<Rightarrow> nat"
  have cu: "cache 3 1 ?u (disk ?u) (\<lambda>_. 0) (\<lambda>_. None)" unfolding u(1) by (rule log_boot_cache)
  have "{x. ?R x \<noteq> 0} = {45}" by auto
  then have sp: "card {x. ?R x \<noteq> 0} < NBUF" by (simp add: NBUF_def)
  have hd: "load32 (disk log_ex (log_head log_ex)) 0 = 0" by (simp add: log_ex_fields) code_simp
  have len: "2 \<le> length (commit_writes log_ex ?C 1)" by (simp add: commit_writes_def Let_def)
  have q: "quiet ?R (\<lambda>_. None)" by (simp add: quiet_def)
  have pin: "?R (lh_block log_ex i) \<noteq> 0" for i by (simp add: log_ex_fields)
  obtain t v where "commit (\<lambda>_ u. u) log_ex = Ret () t" "recover_from_log (\<lambda>_ u. u) ?u = Ret () v"
      "\<forall>x. x \<notin> log_area log_ex \<longrightarrow> disk v x =
        (if 2 \<le> (1::nat) then disk log_ex x else if x \<in> lh_block log_ex ` {..<1} then ?C x else disk log_ex x)"
    using commit_crash_atomic [OF log_ex_cache log_ex_fields(4) log_ex_txn zero_less_one q pin sp hd len u(1) cu u(2-4),
        of "\<lambda>_ u. u" "\<lambda>_ u. u"] by blast
  then show ?thesis using log_ex_area by (auto simp: log_ex_fields)
qed



text \<open>C32: \<^verbatim>\<open>log_write\<close> adds the block of a referenced buffer to the transaction exactly once: a block already
  logged is absorbed, a new one is appended to the header and pinned in the cache; the transaction
  stays well formed and no contents change. The call panics when the log is full (from 29 blocks on, with the
  30-block log that mkfs makes) or when no operation is outstanding.\<close>

theorem log_write_spec:
  assumes "cache p d s C R H" "buf_of d (bufs s) m = Some b" "R m \<noteq> 0" "Suc (R m) < 2 ^ 32"
    and "txn_ok s n" "m \<notin> log_area s"
  shows "if n \<ge> LOGSIZE \<or> int n \<ge> log_size s - 1 then log_write b s = Panic ''too big a transaction''
    else if outstanding s < 1 then log_write b s = Panic ''log_write outside of trans''
    else \<exists>t n'. log_write b s = Ret () t \<and> txn_ok t n' \<and>
      lh_block t ` {..<n'} = insert m (lh_block s ` {..<n}) \<and>
      cache p d t C (if m \<in> lh_block s ` {..<n} then R else R(m := Suc (R m))) H"
proof -
  have c: "calm p s" and n: "lh_n s = int n" using assms(1,5) by (simp_all add: cache_def txn_ok_def)
  have bn: "blockno (bufs s b) = m" using cacheD(3) [OF assms(1,2)] .
  show ?thesis
  proof (cases "n \<ge> LOGSIZE \<or> int n \<ge> log_size s - 1 \<or> outstanding s < 1")
    case True
    then show ?thesis using log_write_eq [OF c n bn] by auto
  next
    case False
    then have "n < LOGSIZE" "int n < log_size s - 1" "outstanding s \<ge> 1" by auto
    from log_write_rule [OF assms this] False show ?thesis by auto
  qed
qed

theorem log_write_spec_witness:
  "\<exists>t n. log_write 0 log_ex = Ret () t \<and> txn_ok t n \<and> lh_block t ` {..<n} = {45}"
proof -
  have R: "((\<lambda>_. 0)(45 := 1)) 45 \<noteq> (0::nat)" "Suc (((\<lambda>_. 0)(45 := 1)) 45) < 2 ^ 32" by simp_all
  have f: "log_size log_ex = 30" "outstanding log_ex = 1" by (simp_all add: log_ex_def bio_st.defs)
  have "\<exists>t n'. log_write 0 log_ex = Ret () t \<and> txn_ok t n' \<and> lh_block t ` {..<n'} = insert 45 (lh_block log_ex ` {..<1})"
    using log_write_spec [OF log_ex_cache log_ex_buf R log_ex_txn log_ex_area]
    by (simp add: f LOGSIZE_def MAXOPBLOCKS_def) blast
  then show ?thesis by (simp add: log_ex_fields lessThan_Suc)
qed


end
