(* ===== verification/Fs.thy ===== *)
theory Fs
  imports Txn
begin

text \<open>
  \<^verbatim>\<open>kernel/fs.c\<close>: the block allocator, the inode table, file contents, directories and path names, with
  \<^verbatim>\<open>either_copyout\<close> and \<^verbatim>\<open>either_copyin\<close> of \<^verbatim>\<open>kernel/proc.c\<close>.

  A \<^verbatim>\<open>struct inode *\<close> is an index into \<^verbatim>\<open>itable.inode[]\<close>, a null pointer is \<open>None\<close>. A path is the list of
  its bytes without the terminating NUL; a name buffer of DIRSIZ bytes is a byte memory. The
  destination of a read is user memory, kernel memory, or a local variable of the caller: in the
  last case the bytes are part of the result.
\<close>

section \<open>State and layout\<close>

definition FSMAGIC :: u32 where "FSMAGIC = 0x10203040"
definition ROOTDEV :: u32 where "ROOTDEV = 1"
definition ROOTINO :: u32 where "ROOTINO = 1"
definition NINODE :: nat where "NINODE = 50"
definition NDIRECT :: nat where "NDIRECT = 12"
definition NINDIRECT :: nat where "NINDIRECT = 256"
definition MAXFILE :: nat where "MAXFILE = NDIRECT + NINDIRECT"
definition IPB :: nat where "IPB = 16"
definition BPB :: nat where "BPB = 8192"
definition DIRSIZ :: nat where "DIRSIZ = 14"
definition DIRENT :: nat where "DIRENT = 16"

definition T_DIR :: u16 where "T_DIR = 1"
definition T_FILE :: u16 where "T_FILE = 2"
definition T_DEVICE :: u16 where "T_DEVICE = 3"

record inode =
  idev :: u32
  inum :: u32
  iref :: int
  ivalid :: bool
  itype :: u16
  imajor :: u16
  iminor :: u16
  nlink :: u16
  isize :: u32
  addrs :: "nat \<Rightarrow> u32"

record stat =
  st_dev :: u32
  st_ino :: u32
  st_type :: u16
  st_nlink :: u16
  st_size :: u64

record dinode =
  dtype :: u16
  dmajor :: u16
  dminor :: u16
  dnlink :: u16
  dsize :: u32
  daddrs :: "nat \<Rightarrow> u32"

record fs_st = log_st +
  sb :: superblock
  itable :: "nat \<Rightarrow> inode"

definition IBLOCK :: "u32 \<Rightarrow> superblock \<Rightarrow> u32" where
  "IBLOCK i S = i div of_nat IPB + sb_inodestart S"

definition BBLOCK :: "u32 \<Rightarrow> superblock \<Rightarrow> u32" where
  "BBLOCK b S = b div of_nat BPB + sb_bmapstart S"

text \<open>The fields of the \<^verbatim>\<open>struct dinode\<close> at offset \<open>a\<close> of a block.\<close>

definition get_dinode :: "block \<Rightarrow> nat \<Rightarrow> dinode" where
  "get_dinode v a = \<lparr>dtype = load16 v a, dmajor = load16 v (a + 2), dminor = load16 v (a + 4),
     dnlink = load16 v (a + 6), dsize = load32 v (a + 8), daddrs = (\<lambda>i. load32 v (a + 12 + 4 * i))\<rparr>"

definition put_addrs :: "(nat \<Rightarrow> u32) \<Rightarrow> nat \<Rightarrow> nat \<Rightarrow> block \<Rightarrow> block" where
  "put_addrs f n a v = fold (\<lambda>i v. store32 v (a + 4 * i) (f i)) [0..<n] v"

definition put_dinode :: "dinode \<Rightarrow> nat \<Rightarrow> block \<Rightarrow> block" where
  "put_dinode d a v = put_addrs (daddrs d) (NDIRECT + 1) (a + 12)
     (store32 (store16 (store16 (store16 (store16 v a (dtype d)) (a + 2) (dmajor d)) (a + 4) (dminor d))
       (a + 6) (dnlink d)) (a + 8) (dsize d))"

definition dinode_off :: "u32 \<Rightarrow> nat" where
  "dinode_off i = 64 * (unat i mod IPB)"

definition upd_inode :: "nat \<Rightarrow> (inode \<Rightarrow> inode) \<Rightarrow> ('x fs_st_scheme, unit) kop" where
  "upd_inode i f = modify (\<lambda>s. s\<lparr>itable := (itable s)(i := f (itable s i))\<rparr>)"

definition set_data :: "nat \<Rightarrow> (block \<Rightarrow> block) \<Rightarrow> ('x bio_st_scheme, unit) kop" where
  "set_data b f = upd_buf b (\<lambda>r. r\<lparr>bdata := f (bdata r)\<rparr>)"

section \<open>Copying to and from a process or the kernel\<close>

datatype dest = UserDst u64 | KernDst u64 | LocalDst
datatype source = UserSrc u64 | KernSrc u64 | LocalSrc "u8 list"

primrec dst_add :: "dest \<Rightarrow> nat \<Rightarrow> dest" where
  "dst_add (UserDst a) n = UserDst (a + of_nat n)"
| "dst_add (KernDst a) n = KernDst (a + of_nat n)"
| "dst_add LocalDst n = LocalDst"

primrec src_add :: "source \<Rightarrow> nat \<Rightarrow> source" where
  "src_add (UserSrc a) n = UserSrc (a + of_nat n)"
| "src_add (KernSrc a) n = KernSrc (a + of_nat n)"
| "src_add (LocalSrc bs) n = LocalSrc (drop n bs)"

definition my_pagetable :: "('x proc_st_scheme, u64) kop" where
  "my_pagetable = bind myproc (\<lambda>p. bind (deref p) (\<lambda>p. get (\<lambda>s. pagetable (procs s p))))"

definition either_copyout :: "dest \<Rightarrow> u8 list \<Rightarrow> ('x proc_st_scheme, int) kop" where
  "either_copyout d bs = (case d of
       UserDst a \<Rightarrow> bind my_pagetable (\<lambda>pt. copyout pt a bs)
     | KernDst a \<Rightarrow> bind myproc (\<lambda>_. seq (modify (\<lambda>s. s\<lparr>mem := store_bytes (mem s) a bs\<rparr>)) (ret 0))
     | LocalDst \<Rightarrow> bind myproc (\<lambda>_. ret 0))"

text \<open>\<^verbatim>\<open>copyin\<close> with the bytes it has stored when it fails part of the way: the result is the bytes
  copied and whether all of them were.\<close>

function copyin_bytes :: "u64 \<Rightarrow> u64 \<Rightarrow> nat \<Rightarrow> ('x kmem_st_scheme, u8 list \<times> bool) kop" where
  "copyin_bytes pt srcva len =
     (if len = 0 then ret ([], True)
      else let va0 = PGROUNDDOWN srcva in
        bind (walkaddr pt va0) (\<lambda>pa0.
        if pa0 = 0 then ret ([], False)
        else let n = min (page_room srcva) len in
          bind (get (\<lambda>s. load_bytes (mem s) (pa0 + (srcva - va0)) n)) (\<lambda>bs.
          bind (copyin_bytes pt (va0 + PGSIZE) (len - n)) (\<lambda>(rest, ok).
          ret (bs @ rest, ok)))))"
  by pat_completeness auto
termination
  by (relation "measure (\<lambda>(pt, va, len). len)") auto

declare copyin_bytes.simps [simp del]

definition either_copyin :: "source \<Rightarrow> nat \<Rightarrow> ('x proc_st_scheme, u8 list \<times> bool) kop" where
  "either_copyin src len = (case src of
       UserSrc a \<Rightarrow> bind my_pagetable (\<lambda>pt. copyin_bytes pt a len)
     | KernSrc a \<Rightarrow> bind myproc (\<lambda>_. get (\<lambda>s. (load_bytes (mem s) a len, True)))
     | LocalSrc bs \<Rightarrow> bind myproc (\<lambda>_. ret (take len bs, True)))"

section \<open>Blocks\<close>

definition readsb :: "'x fs_st_scheme env \<Rightarrow> u32 \<Rightarrow> ('x fs_st_scheme, unit) kop" where
  "readsb E dev =
     bind (bread E dev 1) (\<lambda>bp.
     seq (modify (\<lambda>s. let v = bdata (bufs s bp) in s\<lparr>sb := \<lparr>sb_magic = load32 v 0, sb_size = load32 v 4,
       sb_nblocks = load32 v 8, sb_ninodes = load32 v 12, sb_nlog = load32 v 16, sb_logstart = load32 v 20,
       sb_inodestart = load32 v 24, sb_bmapstart = load32 v 28\<rparr>\<rparr>))
     (brelse bp))"

definition fsinit :: "'x fs_st_scheme env \<Rightarrow> u32 \<Rightarrow> ('x fs_st_scheme, unit) kop" where
  "fsinit E dev =
     seq (readsb E dev) (
     bind (get sb) (\<lambda>sb.
     seq (kwhen (sb_magic sb \<noteq> FSMAGIC) (panic ''invalid file system''))
     (initlog E dev sb)))"

definition bzero :: "'x fs_st_scheme env \<Rightarrow> u32 \<Rightarrow> u32 \<Rightarrow> ('x fs_st_scheme, unit) kop" where
  "bzero E dev bno =
     bind (bread E dev bno) (\<lambda>bp.
     seq (set_data bp (\<lambda>v. memset v 0 0 BSIZE)) (
     seq (log_write bp)
     (brelse bp)))"

text \<open>The bit of block \<open>bi\<close> in a block of the free map.\<close>

definition map_bit :: "block \<Rightarrow> nat \<Rightarrow> bool" where
  "map_bit v bi = (v (bi div 8) AND push_bit (bi mod 8) 1 \<noteq> 0)"

definition set_map_bit :: "nat \<Rightarrow> block \<Rightarrow> block" where
  "set_map_bit bi v = v(bi div 8 := v (bi div 8) OR push_bit (bi mod 8) 1)"

definition clear_map_bit :: "nat \<Rightarrow> block \<Rightarrow> block" where
  "clear_map_bit bi v = v(bi div 8 := v (bi div 8) AND NOT (push_bit (bi mod 8) 1))"

text \<open>The values of \<open>b\<close> in the outer loop of \<^verbatim>\<open>balloc\<close>.\<close>

definition map_starts :: "nat \<Rightarrow> nat list" where
  "map_starts n = map (\<lambda>k. k * BPB) [0..<(n + BPB - 1) div BPB]"

text \<open>One turn of it: the search in the map block of the blocks from \<open>b\<close> on.\<close>

definition balloc_in :: "'x fs_st_scheme env \<Rightarrow> u32 \<Rightarrow> nat \<Rightarrow> nat \<Rightarrow> ('x fs_st_scheme, u32 option) kop" where
  "balloc_in E dev nb b =
     bind (get (\<lambda>s. BBLOCK (of_nat b) (sb s))) (\<lambda>n.
     bind (bread E dev n) (\<lambda>bp.
     bind (get (\<lambda>s. first_idx (\<lambda>bi. \<not> map_bit (bdata (bufs s bp)) bi) (min BPB (nb - b)))) (\<lambda>r.
     case r of
       Some bi \<Rightarrow>
         seq (set_data bp (set_map_bit bi)) (
         seq (log_write bp) (
         seq (brelse bp) (
         seq (bzero E dev (of_nat (b + bi)))
         (ret (Some (of_nat (b + bi)))))))
     | None \<Rightarrow> seq (brelse bp) (ret None))))"

definition balloc :: "'x fs_st_scheme env \<Rightarrow> u32 \<Rightarrow> ('x fs_st_scheme, u32) kop" where
  "balloc E dev =
     bind (get (\<lambda>s. unat (sb_size (sb s)))) (\<lambda>sz.
     bind (kfind (balloc_in E dev sz) (map_starts sz)) (\<lambda>r.
     case r of
       Some a \<Rightarrow> ret a
     | None \<Rightarrow> seq (printf ''balloc: out of blocks\<newline>'' []) (ret 0)))"

definition bfree :: "'x fs_st_scheme env \<Rightarrow> u32 \<Rightarrow> u32 \<Rightarrow> ('x fs_st_scheme, unit) kop" where
  "bfree E dev b =
     bind (get (\<lambda>s. BBLOCK b (sb s))) (\<lambda>n.
     bind (bread E dev n) (\<lambda>bp.
     let bi = unat b mod BPB in
     bind (get (\<lambda>s. map_bit (bdata (bufs s bp)) bi)) (\<lambda>used.
     seq (kwhen (\<not> used) (panic ''freeing free block'')) (
     seq (set_data bp (clear_map_bit bi)) (
     seq (log_write bp)
     (brelse bp))))))"

section \<open>Inodes\<close>

definition iinit :: "('x fs_st_scheme, unit) kop" where
  "iinit =
     seq (initlock ItableLock ''itable'')
     (kfor (\<lambda>i. initsleeplock (InodeLk i) ''inode'') [0..<NINODE])"

definition iget :: "u32 \<Rightarrow> u32 \<Rightarrow> ('x fs_st_scheme, nat) kop" where
  "iget dev n =
     seq (acquire ItableLock) (
     bind (get itable) (\<lambda>I.
     case first_idx (\<lambda>i. iref (I i) > 0 \<and> idev (I i) = dev \<and> inum (I i) = n) NINODE of
       Some i \<Rightarrow>
         seq (upd_inode i (\<lambda>r. r\<lparr>iref := iref r + 1\<rparr>)) (
         seq (release ItableLock)
         (ret i))
     | None \<Rightarrow>
         (case first_idx (\<lambda>i. iref (I i) = 0) NINODE of
            None \<Rightarrow> panic ''iget: no inodes''
          | Some i \<Rightarrow>
              seq (upd_inode i (\<lambda>r. r\<lparr>idev := dev, inum := n, iref := 1, ivalid := False\<rparr>)) (
              seq (release ItableLock)
              (ret i)))))"

definition ialloc :: "'x fs_st_scheme env \<Rightarrow> u32 \<Rightarrow> u16 \<Rightarrow> ('x fs_st_scheme, nat option) kop" where
  "ialloc E dev ty =
     bind (get (\<lambda>s. unat (sb_ninodes (sb s)))) (\<lambda>n.
     bind (kfind (\<lambda>i.
         bind (get (\<lambda>s. IBLOCK (of_nat i) (sb s))) (\<lambda>bn.
         bind (bread E dev bn) (\<lambda>bp.
         let a = dinode_off (of_nat i) in
         bind (get (\<lambda>s. dtype (get_dinode (bdata (bufs s bp)) a))) (\<lambda>t.
         if t = 0
         then seq (set_data bp (\<lambda>v. store16 (memset v a 0 64) a ty)) (
              seq (log_write bp) (
              seq (brelse bp) (
              bind (iget dev (of_nat i)) (\<lambda>ip. ret (Some ip)))))
         else seq (brelse bp) (ret None))))) [1..<n]) (\<lambda>r.
     case r of
       Some ip \<Rightarrow> ret (Some ip)
     | None \<Rightarrow> seq (printf ''ialloc: no inodes\<newline>'' []) (ret None)))"

definition inode_disk :: "inode \<Rightarrow> dinode" where
  "inode_disk r = \<lparr>dtype = itype r, dmajor = imajor r, dminor = iminor r, dnlink = nlink r, dsize = isize r,
     daddrs = addrs r\<rparr>"

definition iupdate :: "'x fs_st_scheme env \<Rightarrow> nat \<Rightarrow> ('x fs_st_scheme, unit) kop" where
  "iupdate E ip =
     bind (get (\<lambda>s. itable s ip)) (\<lambda>r.
     bind (get (\<lambda>s. IBLOCK (inum r) (sb s))) (\<lambda>n.
     bind (bread E (idev r) n) (\<lambda>bp.
     bind (get (\<lambda>s. itable s ip)) (\<lambda>r.
     seq (set_data bp (put_dinode (inode_disk r) (dinode_off (inum r)))) (
     seq (log_write bp)
     (brelse bp))))))"

definition idup :: "nat \<Rightarrow> ('x fs_st_scheme, nat) kop" where
  "idup ip =
     seq (acquire ItableLock) (
     seq (upd_inode ip (\<lambda>r. r\<lparr>iref := iref r + 1\<rparr>)) (
     seq (release ItableLock)
     (ret ip)))"

definition load_inode :: "dinode \<Rightarrow> inode \<Rightarrow> inode" where
  "load_inode d r = r\<lparr>itype := dtype d, imajor := dmajor d, iminor := dminor d, nlink := dnlink d, isize := dsize d,
     addrs := (\<lambda>i. if i \<le> NDIRECT then daddrs d i else addrs r i)\<rparr>"

definition ilock :: "'x fs_st_scheme env \<Rightarrow> nat option \<Rightarrow> ('x fs_st_scheme, unit) kop" where
  "ilock E p = (case p of
       None \<Rightarrow> panic ''ilock''
     | Some ip \<Rightarrow>
         bind (get (\<lambda>s. iref (itable s ip))) (\<lambda>ref.
         seq (kwhen (ref < 1) (panic ''ilock'')) (
         seq (acquiresleep E (InodeLk ip)) (
         bind (get (\<lambda>s. ivalid (itable s ip))) (\<lambda>v.
         kwhen (\<not> v) (
           bind (get (\<lambda>s. itable s ip)) (\<lambda>r.
           bind (get (\<lambda>s. IBLOCK (inum r) (sb s))) (\<lambda>n.
           bind (bread E (idev r) n) (\<lambda>bp.
           bind (get (\<lambda>s. get_dinode (bdata (bufs s bp)) (dinode_off (inum r)))) (\<lambda>d.
           seq (upd_inode ip (load_inode d)) (
           seq (brelse bp) (
           seq (upd_inode ip (\<lambda>r. r\<lparr>ivalid := True\<rparr>))
           (bind (get (\<lambda>s. itype (itable s ip))) (\<lambda>t. kwhen (t = 0) (panic ''ilock: no type'')))))))))))))))"

definition iunlock :: "nat option \<Rightarrow> ('x fs_st_scheme, unit) kop" where
  "iunlock p = (case p of
       None \<Rightarrow> panic ''iunlock''
     | Some ip \<Rightarrow>
         bind (holdingsleep (InodeLk ip)) (\<lambda>h.
         bind (get (\<lambda>s. iref (itable s ip))) (\<lambda>ref.
         seq (kwhen (\<not> h \<or> ref < 1) (panic ''iunlock''))
         (releasesleep (InodeLk ip)))))"

definition itrunc :: "'x fs_st_scheme env \<Rightarrow> nat \<Rightarrow> ('x fs_st_scheme, unit) kop" where
  "itrunc E ip =
     seq (kfor (\<lambda>i.
       bind (get (\<lambda>s. itable s ip)) (\<lambda>r.
       kwhen (addrs r i \<noteq> 0) (
         seq (bfree E (idev r) (addrs r i))
         (upd_inode ip (\<lambda>r. r\<lparr>addrs := (addrs r)(i := 0)\<rparr>))))) [0..<NDIRECT]) (
     seq (bind (get (\<lambda>s. itable s ip)) (\<lambda>r.
       kwhen (addrs r NDIRECT \<noteq> 0) (
         bind (bread E (idev r) (addrs r NDIRECT)) (\<lambda>bp.
         seq (kfor (\<lambda>j.
           bind (get (\<lambda>s. load32 (bdata (bufs s bp)) (4 * j))) (\<lambda>a.
           kwhen (a \<noteq> 0) (bfree E (idev r) a))) [0..<NINDIRECT]) (
         seq (brelse bp) (
         seq (bfree E (idev r) (addrs r NDIRECT))
         (upd_inode ip (\<lambda>r. r\<lparr>addrs := (addrs r)(NDIRECT := 0)\<rparr>)))))))) (
     seq (upd_inode ip (\<lambda>r. r\<lparr>isize := 0\<rparr>))
     (iupdate E ip)))"

definition iput :: "'x fs_st_scheme env \<Rightarrow> nat \<Rightarrow> ('x fs_st_scheme, unit) kop" where
  "iput E ip =
     seq (acquire ItableLock) (
     bind (get (\<lambda>s. itable s ip)) (\<lambda>r.
     seq (kwhen (iref r = 1 \<and> ivalid r \<and> nlink r = 0) (
       seq (acquiresleep E (InodeLk ip)) (
       seq (release ItableLock) (
       seq (itrunc E ip) (
       seq (upd_inode ip (\<lambda>r. r\<lparr>itype := 0\<rparr>)) (
       seq (iupdate E ip) (
       seq (upd_inode ip (\<lambda>r. r\<lparr>ivalid := False\<rparr>)) (
       seq (releasesleep (InodeLk ip))
       (acquire ItableLock))))))))) (
     seq (upd_inode ip (\<lambda>r. r\<lparr>iref := iref r - 1\<rparr>))
     (release ItableLock))))"

definition iunlockput :: "'x fs_st_scheme env \<Rightarrow> nat \<Rightarrow> ('x fs_st_scheme, unit) kop" where
  "iunlockput E ip = seq (iunlock (Some ip)) (iput E ip)"

section \<open>Inode contents\<close>

definition bmap :: "'x fs_st_scheme env \<Rightarrow> nat \<Rightarrow> u32 \<Rightarrow> ('x fs_st_scheme, u32) kop" where
  "bmap E ip bn =
     bind (get (\<lambda>s. itable s ip)) (\<lambda>r.
     if unat bn < NDIRECT
     then if addrs r (unat bn) \<noteq> 0 then ret (addrs r (unat bn))
          else bind (balloc E (idev r)) (\<lambda>addr.
            if addr = 0 then ret 0
            else seq (upd_inode ip (\<lambda>r. r\<lparr>addrs := (addrs r)(unat bn := addr)\<rparr>)) (ret addr))
     else let bn = unat bn - NDIRECT in
       if bn < NINDIRECT
       then bind (if addrs r NDIRECT \<noteq> 0 then ret (addrs r NDIRECT)
                  else bind (balloc E (idev r)) (\<lambda>addr.
                    if addr = 0 then ret 0
                    else seq (upd_inode ip (\<lambda>r. r\<lparr>addrs := (addrs r)(NDIRECT := addr)\<rparr>)) (ret addr))) (\<lambda>ind.
            if ind = 0 then ret 0
            else bind (bread E (idev r) ind) (\<lambda>bp.
              bind (get (\<lambda>s. load32 (bdata (bufs s bp)) (4 * bn))) (\<lambda>a.
              bind (if a \<noteq> 0 then ret a
                    else bind (balloc E (idev r)) (\<lambda>addr.
                      seq (kwhen (addr \<noteq> 0) (
                        seq (set_data bp (\<lambda>v. store32 v (4 * bn) addr))
                        (log_write bp)))
                      (ret addr))) (\<lambda>addr.
              seq (brelse bp) (ret addr)))))
       else panic ''bmap: out of range'')"

definition stati :: "nat \<Rightarrow> ('x fs_st_scheme, stat) kop" where
  "stati ip = get (\<lambda>s. let r = itable s ip in \<lparr>st_dev = idev r, st_ino = inum r, st_type = itype r,
     st_nlink = nlink r, st_size = ucast (isize r)\<rparr>)"

text \<open>The number of bytes moved in one turn of the loops of \<^verbatim>\<open>readi\<close> and \<^verbatim>\<open>writei\<close>.\<close>

definition chunk :: "nat \<Rightarrow> nat \<Rightarrow> nat" where
  "chunk left pos = min left (BSIZE - pos mod BSIZE)"

lemma chunk_pos: "0 < left \<Longrightarrow> 0 < chunk left pos"
  by (simp add: chunk_def BSIZE_def)

text \<open>\<open>readi_loop ip left pos dst\<close>: \<open>left\<close> is \<^verbatim>\<open>n - tot\<close>. The result is the number of bytes read in this and
  the later turns, or None for the \<^verbatim>\<open>tot = -1\<close> of a failed copy, and the bytes for a local variable.\<close>

function readi_loop ::
  "'x fs_st_scheme env \<Rightarrow> nat \<Rightarrow> nat \<Rightarrow> nat \<Rightarrow> dest \<Rightarrow> ('x fs_st_scheme, nat option \<times> u8 list) kop" where
  "readi_loop E ip left pos dst =
     (if left = 0 then ret (Some 0, [])
      else bind (bmap E ip (of_nat (pos div BSIZE))) (\<lambda>addr.
        if addr = 0 then ret (Some 0, [])
        else bind (get (\<lambda>s. idev (itable s ip))) (\<lambda>dev.
          bind (bread E dev addr) (\<lambda>bp.
          let m = chunk left pos in
          bind (get (\<lambda>s. load_bytes (bdata (bufs s bp)) (pos mod BSIZE) m)) (\<lambda>bs.
          bind (either_copyout dst bs) (\<lambda>r.
          if r = - 1 then seq (brelse bp) (ret (None, []))
          else seq (brelse bp) (
            bind (readi_loop E ip (left - m) (pos + m) (dst_add dst m)) (\<lambda>(tot, rest).
            ret (map_option ((+) m) tot, bs @ rest)))))))))"
  by pat_completeness auto
termination
  by (relation "measure (\<lambda>(E, ip, left, pos, dst). left)") (auto simp: chunk_pos)

declare readi_loop.simps [simp del]

definition readi ::
  "'x fs_st_scheme env \<Rightarrow> nat \<Rightarrow> dest \<Rightarrow> u32 \<Rightarrow> u32 \<Rightarrow> ('x fs_st_scheme, int \<times> u8 list) kop" where
  "readi E ip dst pos n =
     bind (get (\<lambda>s. isize (itable s ip))) (\<lambda>size.
     if pos > size \<or> pos + n < pos then ret (0, [])
     else let n = (if pos + n > size then size - pos else n) in
       bind (readi_loop E ip (unat n) (unat pos) dst) (\<lambda>(tot, bs).
       ret ((case tot of Some t \<Rightarrow> int t | None \<Rightarrow> - 1), bs)))"

text \<open>\<open>writei_loop\<close> returns the number of bytes written.\<close>

function writei_loop ::
  "'x fs_st_scheme env \<Rightarrow> nat \<Rightarrow> nat \<Rightarrow> nat \<Rightarrow> source \<Rightarrow> ('x fs_st_scheme, nat) kop" where
  "writei_loop E ip left pos src =
     (if left = 0 then ret 0
      else bind (bmap E ip (of_nat (pos div BSIZE))) (\<lambda>addr.
        if addr = 0 then ret 0
        else bind (get (\<lambda>s. idev (itable s ip))) (\<lambda>dev.
          bind (bread E dev addr) (\<lambda>bp.
          let m = chunk left pos in
          bind (either_copyin src m) (\<lambda>(bs, ok).
          seq (set_data bp (\<lambda>v. store_bytes v (pos mod BSIZE) bs)) (
          if \<not> ok then seq (brelse bp) (ret 0)
          else seq (log_write bp) (
            seq (brelse bp) (
            bind (writei_loop E ip (left - m) (pos + m) (src_add src m)) (\<lambda>tot.
            ret (m + tot))))))))))"
  by pat_completeness auto
termination
  by (relation "measure (\<lambda>(E, ip, left, pos, src). left)") (auto simp: chunk_pos)

declare writei_loop.simps [simp del]

definition writei ::
  "'x fs_st_scheme env \<Rightarrow> nat \<Rightarrow> source \<Rightarrow> u32 \<Rightarrow> u32 \<Rightarrow> ('x fs_st_scheme, int) kop" where
  "writei E ip src pos n =
     bind (get (\<lambda>s. isize (itable s ip))) (\<lambda>size.
     if pos > size \<or> pos + n < pos then ret (- 1)
     else if unat (pos + n) > MAXFILE * BSIZE then ret (- 1)
     else bind (writei_loop E ip (unat n) (unat pos) src) (\<lambda>tot.
       let pos = pos + of_nat tot in
       bind (get (\<lambda>s. isize (itable s ip))) (\<lambda>size.
       seq (kwhen (pos > size) (upd_inode ip (\<lambda>r. r\<lparr>isize := pos\<rparr>))) (
       seq (iupdate E ip)
       (ret (int tot))))))"

section \<open>Directories\<close>

definition namecmp :: "nat memory \<Rightarrow> nat memory \<Rightarrow> int" where
  "namecmp s t = strncmp s 0 t 0 DIRSIZ"

text \<open>A \<^verbatim>\<open>struct dirent\<close> from its sixteen bytes.\<close>

definition bytes_mem :: "u8 list \<Rightarrow> nat memory" where
  "bytes_mem bs = store_bytes (\<lambda>_. 0) 0 bs"

definition de_inum :: "u8 list \<Rightarrow> u16" where
  "de_inum bs = of_le (take 2 bs)"

definition de_name :: "u8 list \<Rightarrow> nat memory" where
  "de_name bs = bytes_mem (drop 2 bs)"

definition make_dirent :: "u16 \<Rightarrow> nat memory \<Rightarrow> u8 list" where
  "make_dirent n nm = le_bytes 2 n @ load_bytes nm 0 DIRSIZ"

text \<open>The offsets of the entries of a directory of the given size. The loops over a directory run with
  its inode locked, so \<^verbatim>\<open>dp->size\<close> is read once.\<close>

definition dir_offsets :: "nat \<Rightarrow> nat list" where
  "dir_offsets n = map (\<lambda>k. k * DIRENT) [0..<(n + DIRENT - 1) div DIRENT]"

definition read_dirent :: "'x fs_st_scheme env \<Rightarrow> nat \<Rightarrow> nat \<Rightarrow> string \<Rightarrow> ('x fs_st_scheme, u8 list) kop" where
  "read_dirent E dp pos msg =
     bind (readi E dp LocalDst (of_nat pos) (of_nat DIRENT)) (\<lambda>(r, de).
     if r \<noteq> int DIRENT then panic msg else ret de)"

definition dirlookup ::
  "'x fs_st_scheme env \<Rightarrow> nat \<Rightarrow> nat memory \<Rightarrow> ('x fs_st_scheme, (nat \<times> u32) option) kop" where
  "dirlookup E dp name =
     bind (get (\<lambda>s. itable s dp)) (\<lambda>r.
     seq (kwhen (itype r \<noteq> T_DIR) (panic ''dirlookup not DIR'')) (
     kfind (\<lambda>pos.
       bind (read_dirent E dp pos ''dirlookup read'') (\<lambda>de.
       if de_inum de = 0 then ret None
       else if namecmp name (de_name de) = 0
       then bind (get (\<lambda>s. idev (itable s dp))) (\<lambda>dev.
            bind (iget dev (ucast (de_inum de))) (\<lambda>ip.
            ret (Some (ip, of_nat pos))))
       else ret None)) (dir_offsets (unat (isize r)))))"

definition dirlink :: "'x fs_st_scheme env \<Rightarrow> nat \<Rightarrow> nat memory \<Rightarrow> u32 \<Rightarrow> ('x fs_st_scheme, int) kop" where
  "dirlink E dp name n =
     bind (dirlookup E dp name) (\<lambda>found.
     case found of
       Some (ip, _) \<Rightarrow> seq (iput E ip) (ret (- 1))
     | None \<Rightarrow>
         bind (get (\<lambda>s. unat (isize (itable s dp)))) (\<lambda>sz.
         bind (kfind (\<lambda>pos.
             bind (read_dirent E dp pos ''dirlink read'') (\<lambda>de.
             ret (if de_inum de = 0 then Some pos else None))) (dir_offsets sz)) (\<lambda>empty.
         let pos = (case empty of Some pos \<Rightarrow> pos | None \<Rightarrow> length (dir_offsets sz) * DIRENT);
             de = make_dirent (ucast n) (strncpy (\<lambda>_. 0) 0 name 0 DIRSIZ) in
         bind (writei E dp (LocalSrc de) (of_nat pos) (of_nat DIRENT)) (\<lambda>r.
         ret (if r \<noteq> int DIRENT then - 1 else 0)))))"

section \<open>Path names\<close>

abbreviation slash :: u8 where "slash \<equiv> 0x2f"

text \<open>The next element goes into the buffer \<open>name\<close>; the result is the rest of the path.\<close>

definition skipelem :: "u8 list \<Rightarrow> nat memory \<Rightarrow> (u8 list \<times> nat memory) option" where
  "skipelem path name =
     (let path = dropWhile (\<lambda>c. c = slash) path in
      if path = [] then None
      else let s = takeWhile (\<lambda>c. c \<noteq> slash) path;
               rest = dropWhile (\<lambda>c. c \<noteq> slash) path;
               name = (if length s \<ge> DIRSIZ then store_bytes name 0 (take DIRSIZ s)
                       else (store_bytes name 0 s)(length s := 0))
           in Some (dropWhile (\<lambda>c. c = slash) rest, name))"

lemma length_skipelem: "skipelem path name = Some (rest, name') \<Longrightarrow> length rest < length path"
proof -
  assume a: "skipelem path name = Some (rest, name')"
  let ?p = "dropWhile (\<lambda>c. c = slash) path"
  from a have p: "?p \<noteq> []" and r: "rest = dropWhile (\<lambda>c. c = slash) (dropWhile (\<lambda>c. c \<noteq> slash) ?p)"
    by (auto simp: skipelem_def Let_def split: if_splits)
  obtain x xs where x: "?p = x # xs" using p by (cases ?p) auto
  then have "x \<noteq> slash" using hd_dropWhile [of "\<lambda>c. c = slash" path] by auto
  then have "length (dropWhile (\<lambda>c. c \<noteq> slash) ?p) \<le> length xs" using x by (simp add: length_dropWhile_le)
  moreover have "length rest \<le> length (dropWhile (\<lambda>c. c \<noteq> slash) ?p)" unfolding r by (rule length_dropWhile_le)
  moreover have "length ?p \<le> length path" by (rule length_dropWhile_le)
  ultimately show ?thesis using x by simp
qed

text \<open>The loop of \<^verbatim>\<open>namex\<close>; the result has the final contents of the name buffer.\<close>

function namex_loop ::
  "'x fs_st_scheme env \<Rightarrow> bool \<Rightarrow> u8 list \<Rightarrow> nat memory \<Rightarrow> nat \<Rightarrow>
     ('x fs_st_scheme, nat option \<times> nat memory) kop" where
  "namex_loop E par path name ip =
     (case skipelem path name of
        None \<Rightarrow>
          if par then seq (iput E ip) (ret (None, name)) else ret (Some ip, name)
      | Some (rest, name') \<Rightarrow>
          seq (ilock E (Some ip)) (
          bind (get (\<lambda>s. itype (itable s ip))) (\<lambda>t.
          if t \<noteq> T_DIR then seq (iunlockput E ip) (ret (None, name'))
          else if par \<and> rest = [] then seq (iunlock (Some ip)) (ret (Some ip, name'))
          else bind (dirlookup E ip name') (\<lambda>nx.
            case nx of
              None \<Rightarrow> seq (iunlockput E ip) (ret (None, name'))
            | Some (next, _) \<Rightarrow> seq (iunlockput E ip) (namex_loop E par rest name' next)))))"
  by pat_completeness auto
termination
  by (relation "measure (\<lambda>(E, par, path, name, ip). length path)") (auto simp: length_skipelem)

declare namex_loop.simps [simp del]

definition my_cwd :: "('x proc_st_scheme, nat) kop" where
  "my_cwd = bind myproc (\<lambda>p. bind (deref p) (\<lambda>p. bind (get (\<lambda>s. cwd (procs s p))) deref))"

definition namex ::
  "'x fs_st_scheme env \<Rightarrow> u8 list \<Rightarrow> bool \<Rightarrow> nat memory \<Rightarrow> ('x fs_st_scheme, nat option \<times> nat memory) kop" where
  "namex E path par name =
     bind (if path \<noteq> [] \<and> hd path = slash then iget ROOTDEV ROOTINO else bind my_cwd idup) (\<lambda>ip.
     namex_loop E par path name ip)"

definition namei :: "'x fs_st_scheme env \<Rightarrow> u8 list \<Rightarrow> ('x fs_st_scheme, nat option) kop" where
  "namei E path = bind (namex E path False (\<lambda>_. 0)) (\<lambda>(ip, _). ret ip)"

definition nameiparent ::
  "'x fs_st_scheme env \<Rightarrow> u8 list \<Rightarrow> nat memory \<Rightarrow> ('x fs_st_scheme, nat option \<times> nat memory) kop" where
  "nameiparent E path name = namex E path True name"

section \<open>An example file system\<close>

text \<open>The layout of the image that \<^verbatim>\<open>mkfs\<close> makes, with an operation begun and nothing logged or cached yet.\<close>

definition sb_ex :: superblock where
  "sb_ex = \<lparr>sb_magic = FSMAGIC, sb_size = 2000, sb_nblocks = 1954, sb_ninodes = 200, sb_nlog = 30, sb_logstart = 2,
     sb_inodestart = 32, sb_bmapstart = 45\<rparr>"

definition inode0 :: inode where
  "inode0 = \<lparr>idev = 0, inum = 0, iref = 0, ivalid = False, itype = 0, imajor = 0, iminor = 0, nlink = 0, isize = 0,
     addrs = (\<lambda>_. 0)\<rparr>"

definition fs_ex :: "(u32 \<Rightarrow> block) \<Rightarrow> (nat \<Rightarrow> inode) \<Rightarrow> fs_st" where
  "fs_ex D I = log_st.extend ((log_boot D)\<lparr>outstanding := 1\<rparr>) \<lparr>sb = sb_ex, itable = I\<rparr>"

lemma log_st_extend_fields:
  "hs (log_st.extend s x) = hs s" "choices (log_st.extend s x) = choices s" "panicked (log_st.extend s x) = panicked s"
  "bufs (log_st.extend s x) = bufs s" "disk (log_st.extend s x) = disk s"
  "slocks (log_st.extend s x) = slocks s" "procs (log_st.extend s x) = procs s" "lh_n (log_st.extend s x) = lh_n s"
  "lh_block (log_st.extend s x) = lh_block s" "log_start (log_st.extend s x) = log_start s"
  "log_size (log_st.extend s x) = log_size s" "outstanding (log_st.extend s x) = outstanding s"
  "txlog (log_st.extend s x) = txlog s" "lsr_tx (log_st.extend s x) = lsr_tx s"
  by (simp_all add: log_st.defs)

lemma bio_ex_more: "choices bio_ex = []" "panicked bio_ex = False" "hs bio_ex = hart3"
  by (simp_all add: bio_ex_def slk_st.defs slk_ex_def proc_st.defs sched_ex_def)

lemma fs_ex_fields [simp]:
  "hs (fs_ex D I) = hart3" "bufs (fs_ex D I) = bufs bio_ex" "disk (fs_ex D I) = D" "slocks (fs_ex D I) = slocks bio_ex"
  "procs (fs_ex D I) = procs bio_ex" "lh_n (fs_ex D I) = 0" "log_start (fs_ex D I) = 2" "log_size (fs_ex D I) = 30"
  "outstanding (fs_ex D I) = 1" "sb (fs_ex D I) = sb_ex" "itable (fs_ex D I) = I" "choices (fs_ex D I) = []"
  "panicked (fs_ex D I) = False"
  by (simp_all add: fs_ex_def log_st_extend_fields bio_ex_more log_boot_def)
    (simp_all add: log_st.defs bio_st.defs bio_ex_more)

lemma fs_ex_calm: "calm 3 (fs_ex D I)"
  using bio_ex_fields(5) by (simp add: bio_ex_more)

lemma fs_ex_cache: "cache 3 1 (fs_ex D I) D (\<lambda>_. 0) (\<lambda>_. None)"
  using zeroed_cache_inv [of "fs_ex D I" "rev [0..<NBUF]" 1] bio_ex_lru bio_ex_fields
  by (simp add: cache_def atLeast0LessThan bio_ex_more)

end
