(* ===== verification/Ring.thy ===== *)
theory Ring
  imports Prelude
begin

text \<open>
  Ring buffers with free-running counters: the pipe, the transmit buffer of the UART and the input line
  of the console keep an array of \<open>size\<close> bytes and two machine-word counters that only increase and wrap
  around; the slot of a counter is its remainder by \<open>size\<close>. The locale states what the three have in common,
  and the lemmas show that such a buffer is a bounded queue across the wrap-around.
\<close>

definition ring_queue :: "nat \<Rightarrow> (nat \<Rightarrow> 'b) \<Rightarrow> 'w::len word \<Rightarrow> 'w word \<Rightarrow> 'b list" where
  "ring_queue n a r w = map (\<lambda>i. a (unat (r + of_nat i) mod n)) [0..<unat (w - r)]"

lemma length_ring_queue [simp]: "length (ring_queue n a r w) = unat (w - r)"
  by (simp add: ring_queue_def)

lemma nth_ring_queue:
  "i < unat (w - r) \<Longrightarrow> ring_queue n a r w ! i = a (unat (r + of_nat i) mod n)"
  by (simp add: ring_queue_def)

lemma unat_add_mod:
  fixes r :: "'w::len word"
  assumes "n dvd 2 ^ LENGTH('w)"
  shows "unat (r + of_nat i) mod n = (unat r + i) mod n"
proof -
  have "unat (r + of_nat i) = (unat r + i) mod 2 ^ LENGTH('w)"
    by (simp add: unat_word_ariths unat_of_nat mod_add_right_eq)
  then show ?thesis by (simp add: mod_mod_cancel assms)
qed

lemma unat_plus_1:
  fixes d :: "'w::len word"
  assumes "Suc (unat d) < 2 ^ LENGTH('w)"
  shows "unat (d + 1) = Suc (unat d)"
  using assms by (simp add: unat_word_ariths)

lemma unat_minus_1:
  fixes d :: "'w::len word"
  assumes "0 < unat d"
  shows "unat (d - 1) = unat d - 1"
  using assms by (metis One_nat_def Suc_leI unat_1 unat_sub word_le_nat_alt)

text \<open>Different positions closer than the size of the ring have different slots.\<close>

lemma slot_distinct:
  assumes "i < j" "j - i < n"
  shows "(x + i) mod n \<noteq> (x + j) mod (n::nat)"
proof
  assume e: "(x + i) mod n = (x + j) mod n"
  have "(x + j) - (x + i) = j - i" by simp
  moreover have "n dvd (x + j) - (x + i)"
    using e assms(1) by (metis mod_eq_dvd_iff_nat add_le_cancel_left less_imp_le)
  ultimately have "n dvd j - i" by simp
  with assms show False by (simp add: nat_dvd_not_less)
qed

locale ring_buffer =
  fixes cap :: nat
    and arr :: "'s \<Rightarrow> nat \<Rightarrow> 'b"
    and rd :: "'s \<Rightarrow> 'w::len word"
    and wr :: "'s \<Rightarrow> 'w word"
    and put :: "'b \<Rightarrow> 's \<Rightarrow> 's"
    and pop :: "'s \<Rightarrow> 's"
  assumes cap_pos: "0 < cap"
    and cap_less: "cap < 2 ^ LENGTH('w)"
    and cap_dvd: "cap dvd 2 ^ LENGTH('w)"
    and put_arr: "arr (put c s) = (arr s)(unat (wr s) mod cap := c)"
    and put_wr: "wr (put c s) = wr s + 1"
    and put_rd: "rd (put c s) = rd s"
    and pop_arr: "arr (pop s) = arr s"
    and pop_wr: "wr (pop s) = wr s"
    and pop_rd: "rd (pop s) = rd s + 1"
begin

abbreviation que :: "'s \<Rightarrow> 'b list" where
  "que s \<equiv> ring_queue cap (arr s) (rd s) (wr s)"

lemma empty_iff: "rd s = wr s \<longleftrightarrow> que s = []"
  by (auto simp: ring_queue_def unat_eq_zero)

lemma full_iff:
  assumes "length (que s) \<le> cap"
  shows "wr s = rd s + of_nat cap \<longleftrightarrow> length (que s) = cap"
proof -
  have "wr s = rd s + of_nat cap \<longleftrightarrow> wr s - rd s = of_nat cap" by (auto simp: algebra_simps)
  also have "\<dots> \<longleftrightarrow> unat (wr s - rd s) = unat (of_nat cap :: 'w word)" by (simp add: word_unat_eq_iff)
  also have "unat (of_nat cap :: 'w word) = cap" using cap_less by (simp add: unat_of_nat)
  finally show ?thesis by simp
qed

lemma room: "length (que s) < cap \<Longrightarrow> unat (wr s + 1 - rd s) = Suc (unat (wr s - rd s))"
proof -
  assume a: "length (que s) < cap"
  have "unat (wr s + 1 - rd s) = unat ((wr s - rd s) + 1)" by (rule arg_cong [where f = unat]) simp
  also have "\<dots> = Suc (unat (wr s - rd s))" by (rule unat_plus_1) (use a cap_less in simp)
  finally show ?thesis .
qed

lemma put_queue:
  assumes a: "length (que s) < cap"
  shows "que (put c s) = que s @ [c]"
proof (rule nth_equalityI)
  show l: "length (que (put c s)) = length (que s @ [c])"
    using room [OF a] by (simp add: put_wr put_rd)
  fix i assume "i < length (que (put c s))"
  then have i: "i < Suc (unat (wr s - rd s))" using l by simp
  have slot: "unat (wr s) mod cap = (unat (rd s) + unat (wr s - rd s)) mod cap"
    using unat_add_mod [OF cap_dvd, of "rd s" "unat (wr s - rd s)"] by simp
  have nth: "que (put c s) ! i = ((arr s)(unat (wr s) mod cap := c)) ((unat (rd s) + i) mod cap)"
    using i room [OF a] by (simp add: nth_ring_queue put_arr put_wr put_rd unat_add_mod cap_dvd)
  show "que (put c s) ! i = (que s @ [c]) ! i"
  proof (cases "i < unat (wr s - rd s)")
    case True
    then have "(unat (rd s) + i) mod cap \<noteq> (unat (rd s) + unat (wr s - rd s)) mod cap"
      using a by (intro slot_distinct) auto
    with True slot nth show ?thesis
      by (simp add: nth_append nth_ring_queue unat_add_mod cap_dvd)
  next
    case False
    with i have "i = unat (wr s - rd s)" by simp
    with slot nth show ?thesis by (simp add: nth_append)
  qed
qed

lemma pop_queue:
  assumes a: "que s \<noteq> []"
  shows "que s = arr s (unat (rd s) mod cap) # que (pop s)"
proof (rule nth_equalityI)
  have z: "0 < unat (wr s - rd s)" using a by (simp add: ring_queue_def)
  have d: "unat (wr s - (rd s + 1)) = unat (wr s - rd s) - 1"
  proof -
    have "unat (wr s - (rd s + 1)) = unat ((wr s - rd s) - 1)" by (rule arg_cong [where f = unat]) simp
    also have "\<dots> = unat (wr s - rd s) - 1" by (rule unat_minus_1) (use z in simp)
    finally show ?thesis .
  qed
  show l: "length (que s) = length (arr s (unat (rd s) mod cap) # que (pop s))"
    using z d by (simp add: pop_wr pop_rd)
  fix i assume "i < length (que s)"
  then have i: "i < unat (wr s - rd s)" by simp
  show "que s ! i = (arr s (unat (rd s) mod cap) # que (pop s)) ! i"
  proof (cases i)
    case 0
    with i show ?thesis by (simp add: nth_ring_queue)
  next
    case (Suc j)
    with i d show ?thesis by (simp add: nth_ring_queue pop_wr pop_rd pop_arr algebra_simps)
  qed
qed

end

end
