(* ===== verification/Tty.thy ===== *)
theory Tty
  imports Fs Ring
begin

text \<open>
  The terminal: \<^verbatim>\<open>kernel/uart.c\<close> (the transmit ring and the interrupt handler), \<^verbatim>\<open>kernel/console.c\<close> (the input
  line buffer, the console device), and \<^verbatim>\<open>procdump\<close> of \<^verbatim>\<open>kernel/proc.c\<close>, which the console calls on control-P.

  Writes to the control registers of the UART are recorded in \<open>uart_regs\<close>, in order. The device switch
  \<^verbatim>\<open>devsw[]\<close> is here because \<^verbatim>\<open>consoleinit\<close> fills it; its function pointers are the constructors of
  \<open>dev_read\<close> and \<open>dev_write\<close>.
\<close>

section \<open>State\<close>

definition UART_TX_BUF_SIZE :: nat where "UART_TX_BUF_SIZE = 32"
definition INPUT_BUF_SIZE :: nat where "INPUT_BUF_SIZE = 128"
definition NDEV :: nat where "NDEV = 10"
definition CONSOLE :: nat where "CONSOLE = 1"

datatype dev_read = Consoleread
datatype dev_write = Consolewrite

record tty_st = fs_st +
  uart_regs :: "(nat \<times> u8) list"
  uart_tx_buf :: "nat \<Rightarrow> u8"
  uart_tx_w :: u64
  uart_tx_r :: u64
  cons_buf :: "nat \<Rightarrow> u8"
  cons_r :: u32
  cons_w :: u32
  cons_e :: u32
  kbd_intr_count :: u32
  devsw_read :: "nat \<Rightarrow> dev_read option"
  devsw_write :: "nat \<Rightarrow> dev_write option"

section \<open>UART\<close>

definition WriteReg :: "nat \<Rightarrow> u8 \<Rightarrow> ('x tty_st_scheme, unit) kop" where
  "WriteReg r v = modify (\<lambda>s. s\<lparr>uart_regs := uart_regs s @ [(r, v)]\<rparr>)"

definition uartinit :: "('x tty_st_scheme, unit) kop" where
  "uartinit =
     seq (WriteReg 1 0x00) (
     seq (WriteReg 3 0x80) (
     seq (WriteReg 0 0x03) (
     seq (WriteReg 1 0x00) (
     seq (WriteReg 3 0x03) (
     seq (WriteReg 2 0x07) (
     seq (WriteReg 1 0x03)
     (initlock UartTxLock ''uart'')))))))"

text \<open>Every turn of the loop but the last sends one of the \<^verbatim>\<open>uart_tx_w - uart_tx_r\<close> waiting characters, which
  bounds the number of turns.\<close>

primrec uartstart_loop :: "nat \<Rightarrow> ('x tty_st_scheme, unit) kop" where
  "uartstart_loop 0 = undef"
| "uartstart_loop (Suc k) =
     bind (get (\<lambda>s. uart_tx_w s = uart_tx_r s)) (\<lambda>empty.
     if empty then ret ()
     else bind ReadLSR_tx_idle (\<lambda>idle.
       if \<not> idle then ret ()
       else bind (get (\<lambda>s. uart_tx_buf s (unat (uart_tx_r s) mod UART_TX_BUF_SIZE))) (\<lambda>c.
         seq (modify (\<lambda>s. s\<lparr>uart_tx_r := uart_tx_r s + 1\<rparr>)) (
         seq (wakeup (Some ChUartTx)) (
         seq (WriteTHR c)
         (uartstart_loop k))))))"

definition uartstart :: "('x tty_st_scheme, unit) kop" where
  "uartstart =
     bind (get (\<lambda>s. unat (uart_tx_w s - uart_tx_r s))) (\<lambda>n.
     uartstart_loop (Suc n))"

primrec uart_wait :: "nat \<Rightarrow> 'x tty_st_scheme env \<Rightarrow> ('x tty_st_scheme, unit) kop" where
  "uart_wait 0 E = spin"
| "uart_wait (Suc k) E =
     bind (get (\<lambda>s. uart_tx_w s = uart_tx_r s + of_nat UART_TX_BUF_SIZE)) (\<lambda>full.
     kwhen full (seq (sleep E ChUartTx UartTxLock) (uart_wait k E)))"

definition uartputc :: "'x tty_st_scheme env \<Rightarrow> u8 \<Rightarrow> ('x tty_st_scheme, unit) kop" where
  "uartputc E c =
     seq (acquire UartTxLock) (
     bind (get panicked) (\<lambda>p.
     seq (kwhen p spin) (
     bind (get (\<lambda>s. Suc (length (choices s)))) (\<lambda>fuel.
     seq (uart_wait fuel E) (
     seq (modify (\<lambda>s. s\<lparr>uart_tx_buf := (uart_tx_buf s)(unat (uart_tx_w s) mod UART_TX_BUF_SIZE := c)\<rparr>)) (
     seq (modify (\<lambda>s. s\<lparr>uart_tx_w := uart_tx_w s + 1\<rparr>)) (
     seq uartstart
     (release UartTxLock))))))))"

definition uartgetc :: "('x tty_st_scheme, u8 option) kop" where
  "uartgetc s = (case rx s of [] \<Rightarrow> Ret None s | c # cs \<Rightarrow> Ret (Some c) (s\<lparr>rx := cs\<rparr>))"

section \<open>Console\<close>

primrec state_name :: "procstate \<Rightarrow> string" where
  "state_name UNUSED = ''unused''"
| "state_name USED = ''used''"
| "state_name SLEEPING = ''sleep ''"
| "state_name RUNNABLE = ''runble''"
| "state_name RUNNING = ''run   ''"
| "state_name ZOMBIE = ''zombie''"

text \<open>A name as a C string: the bytes of the 16-byte array before the first NUL.\<close>

definition name_str :: "nat memory \<Rightarrow> u8 list" where
  "name_str m = takeWhile (\<lambda>c. c \<noteq> 0) (load_bytes m 0 16)"

definition dump_proc :: "nat \<Rightarrow> ('x proc_st_scheme, unit) kop" where
  "dump_proc p =
     bind (get (\<lambda>s. procs s p)) (\<lambda>r.
     kwhen (state r \<noteq> UNUSED) (
       seq (printf ''%d %s %s'' [PVal (word_of_int (pid r)), PStr (Some (cstr (state_name (state r)))),
              PStr (Some (name_str (pname r)))])
       (printf ''\<newline>'' [])))"

definition procdump :: "('x proc_st_scheme, unit) kop" where
  "procdump = seq (printf ''\<newline>'' []) (kfor dump_proc [0..<NPROC])"

text \<open>\<^verbatim>\<open>cons.buf[i % INPUT_BUF_SIZE]\<close>\<close>

definition cons_at :: "'x tty_st_scheme \<Rightarrow> u32 \<Rightarrow> u8" where
  "cons_at s i = cons_buf s (unat i mod INPUT_BUF_SIZE)"

definition newline :: u8 where "newline = 10"
definition ctrl_D :: u8 where "ctrl_D = 4"

definition cons_erase :: "('x tty_st_scheme, unit) kop" where
  "cons_erase =
     seq (modify (\<lambda>s. s\<lparr>cons_e := cons_e s - 1\<rparr>))
     (consputc BACKSPACE)"

text \<open>The loop of control-U; a turn brings \<^verbatim>\<open>cons.e\<close> one closer to \<^verbatim>\<open>cons.w\<close>.\<close>

primrec kill_line :: "nat \<Rightarrow> ('x tty_st_scheme, unit) kop" where
  "kill_line 0 = ret ()"
| "kill_line (Suc k) =
     bind (get (\<lambda>s. cons_e s \<noteq> cons_w s \<and> cons_at s (cons_e s - 1) \<noteq> newline)) (\<lambda>more.
     kwhen more (seq cons_erase (kill_line k)))"

text \<open>The default branch of the switch: echo the character and store it; \<open>cons_commit\<close> makes the line available.\<close>

definition cons_commit :: "('x tty_st_scheme, unit) kop" where
  "cons_commit = seq (modify (\<lambda>s. s\<lparr>cons_w := cons_e s\<rparr>)) (wakeup (Some ChConsR))"

definition cons_input :: "u8 \<Rightarrow> ('x tty_st_scheme, unit) kop" where
  "cons_input c =
     bind (get (\<lambda>s. c \<noteq> 0 \<and> unat (cons_e s - cons_r s) < INPUT_BUF_SIZE)) (\<lambda>room.
     kwhen room (
       let c = (if c = 13 then newline else c) in
       seq (consputc (ucast c)) (
       seq (modify (\<lambda>s. s\<lparr>cons_buf := (cons_buf s)(unat (cons_e s) mod INPUT_BUF_SIZE := c)\<rparr>)) (
       seq (modify (\<lambda>s. s\<lparr>cons_e := cons_e s + 1\<rparr>)) (
       bind (get (\<lambda>s. c = newline \<or> c = ctrl_D \<or> unat (cons_e s - cons_r s) = INPUT_BUF_SIZE)) (\<lambda>done.
       kwhen done cons_commit))))))"

definition cons_switch :: "u8 \<Rightarrow> ('x tty_st_scheme, unit) kop" where
  "cons_switch c =
     (if c = 0x10 then procdump
      else if c = 0x15 then bind (get (\<lambda>s. unat (cons_e s - cons_w s))) kill_line
      else if c = 0x08 \<or> c = 0x7f
      then bind (get (\<lambda>s. cons_e s \<noteq> cons_w s)) (\<lambda>ne. kwhen ne cons_erase)
      else cons_input c)"

definition consoleintr :: "u8 \<Rightarrow> ('x tty_st_scheme, unit) kop" where
  "consoleintr c =
     seq (modify (\<lambda>s. s\<lparr>kbd_intr_count := kbd_intr_count s + 1\<rparr>)) (
     seq (acquire ConsLock) (
     seq (cons_switch c)
     (release ConsLock)))"

text \<open>\<^verbatim>\<open>uartintr\<close> consumes one received byte per turn of its loop.\<close>

primrec uart_input :: "nat \<Rightarrow> ('x tty_st_scheme, unit) kop" where
  "uart_input 0 = undef"
| "uart_input (Suc k) =
     bind uartgetc (\<lambda>c. case c of None \<Rightarrow> ret () | Some c \<Rightarrow> seq (consoleintr c) (uart_input k))"

definition uartintr :: "('x tty_st_scheme, unit) kop" where
  "uartintr =
     seq (bind (get (\<lambda>s. length (rx s))) (\<lambda>n. uart_input (Suc n))) (
     seq (acquire UartTxLock) (
     seq uartstart
     (release UartTxLock)))"

definition consolewrite :: "'x tty_st_scheme env \<Rightarrow> source \<Rightarrow> int \<Rightarrow> ('x tty_st_scheme, int) kop" where
  "consolewrite E src n =
     bind (kfind (\<lambda>i.
         bind (either_copyin (src_add src i) 1) (\<lambda>(bs, ok).
         if \<not> ok then ret (Some i)
         else seq (uartputc E (hd bs)) (ret None))) [0..<nat n]) (\<lambda>r.
     ret (case r of Some i \<Rightarrow> int i | None \<Rightarrow> int (nat n)))"

text \<open>The wait for a line; the result is whether there is input. When the process has been killed the lock
  is released.\<close>

primrec cons_wait :: "nat \<Rightarrow> 'x tty_st_scheme env \<Rightarrow> ('x tty_st_scheme, bool) kop" where
  "cons_wait 0 E = spin"
| "cons_wait (Suc k) E =
     bind (get (\<lambda>s. cons_r s = cons_w s)) (\<lambda>empty.
     if \<not> empty then ret True
     else bind myproc (\<lambda>p.
       bind (deref p) (\<lambda>p.
       bind (killed p) (\<lambda>kl.
       if kl then seq (release ConsLock) (ret False)
       else seq (sleep E ChConsR ConsLock) (cons_wait k E)))))"

text \<open>The loop of \<^verbatim>\<open>consoleread\<close>, with \<open>n\<close> bytes still wanted. The result is the value of \<^verbatim>\<open>n\<close> after the loop,
  or None when the process has been killed.\<close>

primrec consoleread_loop ::
  "nat \<Rightarrow> 'x tty_st_scheme env \<Rightarrow> nat \<Rightarrow> dest \<Rightarrow> ('x tty_st_scheme, nat option) kop" where
  "consoleread_loop 0 E target dst = ret (Some 0)"
| "consoleread_loop (Suc n) E target dst =
     bind (get (\<lambda>s. Suc (length (choices s)))) (\<lambda>fuel.
     bind (cons_wait fuel E) (\<lambda>ok.
     if \<not> ok then ret None
     else bind (get (\<lambda>s. cons_at s (cons_r s))) (\<lambda>c.
       seq (modify (\<lambda>s. s\<lparr>cons_r := cons_r s + 1\<rparr>)) (
       if c = ctrl_D
       then seq (kwhen (Suc n < target) (modify (\<lambda>s. s\<lparr>cons_r := cons_r s - 1\<rparr>))) (ret (Some (Suc n)))
       else bind (either_copyout dst [c]) (\<lambda>r.
         if r = - 1 then ret (Some (Suc n))
         else if c = newline then ret (Some n)
         else consoleread_loop n E target (dst_add dst 1))))))"

definition consoleread :: "'x tty_st_scheme env \<Rightarrow> dest \<Rightarrow> int \<Rightarrow> ('x tty_st_scheme, int) kop" where
  "consoleread E dst n =
     seq (acquire ConsLock) (
     bind (consoleread_loop (nat n) E (nat n) dst) (\<lambda>r.
     case r of
       None \<Rightarrow> ret (- 1)
     | Some left \<Rightarrow> seq (release ConsLock) (ret (int (nat n) - int left))))"

definition consoleinit :: "('x tty_st_scheme, unit) kop" where
  "consoleinit =
     seq (initlock ConsLock ''cons'') (
     seq uartinit (
     seq (modify (\<lambda>s. s\<lparr>devsw_read := (devsw_read s)(CONSOLE := Some Consoleread)\<rparr>))
     (modify (\<lambda>s. s\<lparr>devsw_write := (devsw_write s)(CONSOLE := Some Consolewrite)\<rparr>))))"

section \<open>The transmit ring\<close>

definition tx_put :: "u8 \<Rightarrow> 'x tty_st_scheme \<Rightarrow> 'x tty_st_scheme" where
  "tx_put c s = s\<lparr>uart_tx_buf := (uart_tx_buf s)(unat (uart_tx_w s) mod UART_TX_BUF_SIZE := c),
     uart_tx_w := uart_tx_w s + 1\<rparr>"

definition tx_pop :: "'x tty_st_scheme \<Rightarrow> 'x tty_st_scheme" where
  "tx_pop s = s\<lparr>uart_tx_r := uart_tx_r s + 1\<rparr>"

interpretation tx: ring_buffer UART_TX_BUF_SIZE uart_tx_buf uart_tx_r uart_tx_w tx_put tx_pop
  by unfold_locales (simp_all add: UART_TX_BUF_SIZE_def tx_put_def tx_pop_def)

abbreviation tx_que :: "'x tty_st_scheme \<Rightarrow> u8 list" where
  "tx_que s \<equiv> ring_queue UART_TX_BUF_SIZE (uart_tx_buf s) (uart_tx_r s) (uart_tx_w s)"

text \<open>How many of \<open>n\<close> waiting characters the device takes: it is asked before each of them.\<close>

definition sendable :: "nat \<Rightarrow> bool list \<Rightarrow> nat" where
  "sendable n l = (if False \<in> set l then min n (length (takeWhile id l)) else n)"

lemma sendable_0 [simp]: "sendable 0 l = 0"
  by (simp add: sendable_def)

lemma sendable_Suc: "sendable (Suc n) l =
   (case l of [] \<Rightarrow> Suc n | b # bs \<Rightarrow> if b then Suc (sendable n bs) else 0)"
  by (cases l) (auto simp: sendable_def)

definition tx_same :: "'x tty_st_scheme \<Rightarrow> 'x tty_st_scheme \<Rightarrow> bool" where
  "tx_same s t \<longleftrightarrow> hs t = hs s \<and> choices t = choices s \<and> panicked t = panicked s \<and> rx t = rx s \<and> mem t = mem s \<and>
     cons_r t = cons_r s \<and> cons_w t = cons_w s \<and> cons_e t = cons_e s \<and> cons_buf t = cons_buf s \<and>
     kbd_intr_count t = kbd_intr_count s"

lemma tx_same_refl [simp]: "tx_same s s"
  by (simp add: tx_same_def)

text \<open>One turn of the loop that sends a character.\<close>

definition tx_sent :: "'x tty_st_scheme \<Rightarrow> 'x tty_st_scheme" where
  "tx_sent s = (woken ChUartTx (tx_pop (s\<lparr>lsr_tx := tl (lsr_tx s)\<rparr>)))\<lparr>
     txlog := txlog s @ [uart_tx_buf s (unat (uart_tx_r s) mod UART_TX_BUF_SIZE)]\<rparr>"

lemma tx_sent_fields [simp]:
  "uart_tx_r (tx_sent s) = uart_tx_r s + 1" "uart_tx_w (tx_sent s) = uart_tx_w s" "lsr_tx (tx_sent s) = tl (lsr_tx s)"
  "uart_tx_buf (tx_sent s) = uart_tx_buf s" "proc_ready (tx_sent s) = proc_ready s" "tx_same s (tx_sent s)"
  "txlog (tx_sent s) = txlog s @ [uart_tx_buf s (unat (uart_tx_r s) mod UART_TX_BUF_SIZE)]"
  by (simp_all add: tx_sent_def tx_pop_def proc_ready_def woken_def tx_same_def)

lemma uartstart_turn:
  assumes "proc_ready s" "uart_tx_w s \<noteq> uart_tx_r s" "lsr_tx s = [] \<or> hd (lsr_tx s)"
  shows "uartstart_loop (Suc k) s = uartstart_loop k (tx_sent s)"
proof -
  let ?s = "s\<lparr>lsr_tx := tl (lsr_tx s)\<rparr>"
  have "ReadLSR_tx_idle s = Ret True ?s" using assms(3) by (cases "lsr_tx s") (auto simp: ReadLSR_tx_idle_def)
  moreover have "wakeup (Some ChUartTx) (tx_pop ?s) = Ret () (woken ChUartTx (tx_pop ?s))"
    using assms(1) by (intro wakeup_woken) (simp add: tx_pop_def proc_ready_def)
  ultimately show ?thesis using assms(2)
    by (simp add: kexec tx_pop_def WriteTHR_def tx_sent_def woken_def)
qed

lemma uartstart_loop_sends:
  "proc_ready s \<Longrightarrow> unat (uart_tx_w s - uart_tx_r s) \<le> k \<Longrightarrow> n = sendable (length (tx_que s)) (lsr_tx s) \<Longrightarrow>
    \<exists>t. uartstart_loop (Suc k) s = Ret () t \<and> txlog t = txlog s @ take n (tx_que s) \<and>
      tx_que t = drop n (tx_que s) \<and> tx_same s t"
proof (induction k arbitrary: s n)
  case 0
  then have "uart_tx_w s = uart_tx_r s" by (simp add: unat_eq_zero)
  with 0 show ?case by (intro exI [of _ s]) (simp add: kexec ring_queue_def)
next
  case (Suc k)
  show ?case
  proof (cases "uart_tx_w s = uart_tx_r s")
    case True
    with Suc.prems show ?thesis by (intro exI [of _ s]) (simp add: kexec ring_queue_def)
  next
    case False
    then have ne: "tx_que s \<noteq> []" using tx.empty_iff [of s] by auto
    have q: "tx_que s = uart_tx_buf s (unat (uart_tx_r s) mod UART_TX_BUF_SIZE) # tx_que (tx_sent s)"
      using tx.pop_queue [OF ne] by (simp add: tx_pop_def)
    have l: "length (tx_que s) = Suc (length (tx_que (tx_sent s)))" using arg_cong [OF q, of length] by simp
    show ?thesis
    proof (cases "lsr_tx s = [] \<or> hd (lsr_tx s)")
      case True
      let ?n = "sendable (length (tx_que (tx_sent s))) (lsr_tx (tx_sent s))"
      have n: "n = Suc ?n" using Suc.prems(3) l True by (cases "lsr_tx s") (simp_all add: sendable_Suc sendable_def)
      have "\<exists>t. uartstart_loop (Suc k) (tx_sent s) = Ret () t \<and> txlog t = txlog (tx_sent s) @ take ?n (tx_que (tx_sent s)) \<and>
          tx_que t = drop ?n (tx_que (tx_sent s)) \<and> tx_same (tx_sent s) t"
        by (rule Suc.IH) (use Suc.prems l in simp_all)
      then obtain t where t: "uartstart_loop (Suc k) (tx_sent s) = Ret () t"
          "txlog t = txlog (tx_sent s) @ take ?n (tx_que (tx_sent s))"
          "tx_que t = drop ?n (tx_que (tx_sent s))" "tx_same (tx_sent s) t" by blast
      have "tx_same s t" using t(4) tx_sent_fields(6) [of s] by (simp add: tx_same_def)
      moreover have "uartstart_loop (Suc (Suc k)) s = Ret () t" using uartstart_turn [OF Suc.prems(1) False True, of "Suc k"] t(1) by simp
      moreover have "txlog t = txlog s @ take n (tx_que s)" "tx_que t = drop n (tx_que s)"
        using t(2,3) unfolding n by (subst q, simp)+
      ultimately show ?thesis by blast
    next
      case False
      then have "n = 0" using Suc.prems(3) l by (cases "lsr_tx s") (simp_all add: sendable_Suc)
      moreover have "uartstart_loop (Suc (Suc k)) s = Ret () (s\<lparr>lsr_tx := tl (lsr_tx s)\<rparr>)"
        using False \<open>uart_tx_w s \<noteq> uart_tx_r s\<close> by (cases "lsr_tx s") (simp_all add: kexec ReadLSR_tx_idle_def)
      ultimately show ?thesis by (simp add: tx_same_def)
    qed
  qed
qed

lemma uartstart_sends:
  assumes "proc_ready s" "n = sendable (length (tx_que s)) (lsr_tx s)"
  shows "\<exists>t. uartstart s = Ret () t \<and> txlog t = txlog s @ take n (tx_que s) \<and>
      tx_que t = drop n (tx_que s) \<and> tx_same s t"
  using uartstart_loop_sends [OF assms(1) _ assms(2), of "unat (uart_tx_w s - uart_tx_r s)"]
  by (simp add: uartstart_def kexec del: uartstart_loop.simps)

text \<open>C35: The characters of \<^verbatim>\<open>write\<close> reach the UART in order, none lost and none sent twice: \<^verbatim>\<open>uartputc\<close> appends the
  character to the stream made of the bytes sent and the bytes waiting in the ring, whatever the device
  answers and across the wrap-around of the counters. It returns with the lock released, after at most as
  many turns as there are waiting characters; with the ring full the caller sleeps.\<close>

theorem uartputc_stream:
  assumes "calm p s" "same_hart E" "\<not> panicked s" "length (tx_que s) \<le> UART_TX_BUF_SIZE"
  shows "(length (tx_que s) < UART_TX_BUF_SIZE \<longrightarrow>
      (\<exists>t. uartputc E c s = Ret () t \<and> txlog t @ tx_que t = txlog s @ tx_que s @ [c] \<and>
        length (tx_que t) \<le> UART_TX_BUF_SIZE \<and> hs t = hs s)) \<and>
    (length (tx_que s) = UART_TX_BUF_SIZE \<and> choices s = [] \<longrightarrow>
      (\<exists>t. uartputc E c s = Off t \<and> txlog t = txlog s \<and> tx_que t = tx_que s \<and> state (procs t p) = SLEEPING \<and>
        pchan (procs t p) = Some ChUartTx))"
proof (intro conjI impI)
  let ?s = "s\<lparr>hs := acq UartTxLock (hs s)\<rparr>"
  let ?u = "tx_put c ?s"
  assume room: "length (tx_que s) < UART_TX_BUF_SIZE"
  then have nf: "uart_tx_w s \<noteq> uart_tx_r s + of_nat UART_TX_BUF_SIZE" using tx.full_iff [of s] by simp
  have "proc_ready ?u" using assms(1) by (simp add: proc_ready_def tx_put_def)
  from uartstart_sends [OF this refl] obtain t n where t: "uartstart ?u = Ret () t" "txlog t = txlog s @ take n (tx_que ?u)"
      "tx_que t = drop n (tx_que ?u)" "tx_same ?u t" by (auto simp: tx_put_def)
  have q: "tx_que ?u = tx_que s @ [c]" using tx.put_queue [of ?s c] room by simp
  have "length (tx_que t) \<le> UART_TX_BUF_SIZE" unfolding t(3) q using room by simp
  moreover have "uartputc E c s = Ret () (t\<lparr>hs := hs s\<rparr>)"
    using assms(1,3) nf t(1,4) by (simp add: uartputc_def kexec lock_rules tx_put_def tx_same_def)
  moreover have "txlog t @ tx_que t = txlog s @ tx_que s @ [c]" unfolding t(2,3) q by (simp del: take_append drop_append)
  ultimately show "\<exists>t. uartputc E c s = Ret () t \<and> txlog t @ tx_que t = txlog s @ tx_que s @ [c] \<and>
        length (tx_que t) \<le> UART_TX_BUF_SIZE \<and> hs t = hs s"
    by (intro exI [of _ "t\<lparr>hs := hs s\<rparr>"]) simp
next
  let ?s = "s\<lparr>hs := acq UartTxLock (hs s)\<rparr>"
  assume a: "length (tx_que s) = UART_TX_BUF_SIZE \<and> choices s = []"
  then have "uart_tx_w s = uart_tx_r s + of_nat UART_TX_BUF_SIZE" using tx.full_iff [of s] by simp
  moreover have "sleep E ChUartTx UartTxLock ?s = Off (asleep p ChUartTx (hs s) ?s)"
    using sleep_eq [OF calm_rules(4) [OF assms(1)] _ _ _ assms(2), of ?s UartTxLock ChUartTx] assms(1) a by simp
  ultimately have "uartputc E c s = Off (asleep p ChUartTx (hs s) ?s)"
    using assms(1,3) a by (simp add: uartputc_def kexec lock_rules)
  then show "\<exists>t. uartputc E c s = Off t \<and> txlog t = txlog s \<and> tx_que t = tx_que s \<and> state (procs t p) = SLEEPING \<and>
        pchan (procs t p) = Some ChUartTx"
    by (simp add: asleep_def)
qed

section \<open>The input line\<close>

definition cons_put :: "u8 \<Rightarrow> 'x tty_st_scheme \<Rightarrow> 'x tty_st_scheme" where
  "cons_put c s = s\<lparr>cons_buf := (cons_buf s)(unat (cons_e s) mod INPUT_BUF_SIZE := c), cons_e := cons_e s + 1\<rparr>"

definition cons_pop :: "'x tty_st_scheme \<Rightarrow> 'x tty_st_scheme" where
  "cons_pop s = s\<lparr>cons_r := cons_r s + 1\<rparr>"

interpretation ci: ring_buffer INPUT_BUF_SIZE cons_buf cons_r cons_e cons_put cons_pop
  by unfold_locales (simp_all add: INPUT_BUF_SIZE_def cons_put_def cons_pop_def)

abbreviation cons_que :: "'x tty_st_scheme \<Rightarrow> u8 list" where
  "cons_que s \<equiv> ring_queue INPUT_BUF_SIZE (cons_buf s) (cons_r s) (cons_e s)"

text \<open>The input that a reader may take, and the line being edited.\<close>

definition ready :: "'x tty_st_scheme \<Rightarrow> u8 list" where
  "ready s = take (unat (cons_w s - cons_r s)) (cons_que s)"

definition editing :: "'x tty_st_scheme \<Rightarrow> u8 list" where
  "editing s = drop (unat (cons_w s - cons_r s)) (cons_que s)"

definition cons_ok :: "'x tty_st_scheme \<Rightarrow> bool" where
  "cons_ok s \<longleftrightarrow> unat (cons_w s - cons_r s) \<le> length (cons_que s) \<and> length (cons_que s) \<le> INPUT_BUF_SIZE \<and>
     newline \<notin> set (editing s)"

text \<open>The line discipline: what a character does to the input ready to be read and to the line being edited.\<close>

definition line_edit :: "u8 \<Rightarrow> u8 list \<times> u8 list \<Rightarrow> u8 list \<times> u8 list" where
  "line_edit c le = (case le of (rdy, ed) \<Rightarrow>
     if c = 0x10 then (rdy, ed)
     else if c = 0x15 then (rdy, [])
     else if c = 0x08 \<or> c = 0x7f then (rdy, butlast ed)
     else if c = 0 \<or> length rdy + length ed = INPUT_BUF_SIZE then (rdy, ed)
     else let c = (if c = 13 then newline else c) in
       if c = newline \<or> c = ctrl_D \<or> length rdy + length ed + 1 = INPUT_BUF_SIZE then (rdy @ ed @ [c], [])
       else (rdy, ed @ [c]))"

lemma ready_editing: "ready s @ editing s = cons_que s"
  by (simp add: ready_def editing_def)

lemma ring_queue_shrink:
  assumes "ring_queue n a r (e :: 'w::len word) \<noteq> []"
  shows "ring_queue n a r (e - 1) = butlast (ring_queue n a r e)"
proof -
  have z: "0 < unat (e - r)" using assms by (auto simp: ring_queue_def)
  have "unat (e - 1 - r) = unat ((e - r) - 1)" by (rule arg_cong [where f = unat]) simp
  also have "\<dots> = unat (e - r) - 1" by (rule unat_minus_1) (rule z)
  finally show ?thesis using z by (cases "unat (e - r)") (simp_all add: ring_queue_def butlast_append)
qed

lemma ring_queue_last:
  assumes "ring_queue n a r (e :: 'w::len word) \<noteq> []"
  shows "a (unat (e - 1) mod n) = last (ring_queue n a r e)"
proof -
  have z: "0 < unat (e - r)" using assms by (auto simp: ring_queue_def)
  then have "last (ring_queue n a r e) = a (unat (r + of_nat (unat (e - r) - 1)) mod n)"
    by (simp add: last_conv_nth nth_ring_queue assms)
  moreover have "r + of_nat (unat (e - r) - 1) = e - 1" using z by (simp add: of_nat_diff)
  ultimately show ?thesis by simp
qed

lemma unat_sub_counters:
  fixes r w e :: "'w::len word"
  assumes "unat (w - r) \<le> unat (e - r)"
  shows "unat (e - w) = unat (e - r) - unat (w - r)"
proof -
  have "e - w = (e - r) - (w - r)" by simp
  moreover have "unat ((e - r) - (w - r)) = unat (e - r) - unat (w - r)"
    using assms by (intro unat_sub) (simp add: word_le_nat_alt)
  ultimately show ?thesis by metis
qed

lemma emit_tty [simp]:
  "cons_e (emit cs s) = cons_e s" "cons_w (emit cs s) = cons_w s" "cons_r (emit cs s) = cons_r s"
  "cons_buf (emit cs s) = cons_buf s" "procs (emit cs s) = procs s"
  by (simp_all add: emit_def)

lemma int_chars_32: "\<exists>cs. int_chars (scast (v :: u32)) 10 True = Some cs"
proof -
  let ?x = "scast v :: u64"
  have s: "sint ?x = sint v" by (simp add: sint_up_scast is_up)
  have r: "- (2 ^ 31) \<le> sint v" "sint v < 2 ^ 31" using sint_range_size [of v] by (simp_all add: word_size)
  have d: "length (int_digits 10 n) \<le> 10" if "n < 10 ^ 10" for n
    using length_int_digits [of 10 n 9] that by simp
  have "length (printint_buf ?x 10 True) \<le> 16"
  proof (cases "sint v < 0")
    case True
    then have "int (unat (- ?x)) \<le> 2 ^ 31" using unat_neg_sint [of ?x] s r by simp
    then have "unat (- ?x) < 10 ^ 10" by (simp only: of_nat_less_iff [where 'a = int, symmetric]) simp
    from d [OF this] show ?thesis using True s by (simp add: printint_buf_def Let_def)
  next
    case False
    have "uint ?x = uint (word_of_int (sint ?x) :: u64)" by simp
    also have "\<dots> = sint ?x mod 2 ^ 64" by (simp only: uint_word_of_int) simp
    also have "\<dots> = sint v" using False s r by simp
    finally have "int (unat ?x) = sint v" by simp
    then have "unat ?x < 10 ^ 10" using r by (simp only: of_nat_less_iff [where 'a = int, symmetric]) simp
    from d [OF this] show ?thesis using False s by (simp add: printint_buf_def Let_def)
  qed
  then show ?thesis by (simp add: int_chars_def Let_def)
qed

lemma procdump_line: "\<exists>cs. fmt_chars ''%d %s %s'' [PVal v, PStr (Some a), PStr (Some b)] = Some cs"
  using int_chars_32 [of "ucast v"]
  by (auto simp: fmt_chars.simps conv_of_def fmt_at_def conversion_def conv_chars_def conv_skip_def conv_args_def Let_def)

lemma newline_chars: "fmt_chars ''\<newline>'' [] = Some [10]"
  by code_simp

lemma dump_proc_emits:
  assumes "can_print s" "free PrLock (hs s)"
  shows "\<exists>cs. dump_proc p s = Ret () (emit cs s)"
proof (cases "state (procs s p) = UNUSED")
  case True
  then show ?thesis by (auto simp: dump_proc_def kexec intro: exI [of _ "[]"])
next
  case False
  let ?r = "procs s p"
  obtain cs where "fmt_chars ''%d %s %s'' [PVal (word_of_int (pid ?r)), PStr (Some (cstr (state_name (state ?r)))),
      PStr (Some (name_str (pname ?r)))] = Some cs" using procdump_line by blast
  then have "dump_proc p s = Ret () (emit (cs @ [10]) s)" using False assms
    by (simp add: dump_proc_def kexec printf_emits newline_chars emit_append)
  then show ?thesis by blast
qed

lemma kfor_emits:
  assumes "\<And>i s. can_print s \<Longrightarrow> free PrLock (hs s) \<Longrightarrow> \<exists>cs. body i s = Ret () (emit cs s)"
  shows "can_print s \<Longrightarrow> free PrLock (hs s) \<Longrightarrow> \<exists>cs. kfor body xs s = Ret () (emit cs s)"
proof (induction xs arbitrary: s)
  case (Cons x xs)
  obtain cs where cs: "body x s = Ret () (emit cs s)" using assms [OF Cons.prems] by blast
  obtain ds where ds: "kfor body xs (emit cs s) = Ret () (emit ds (emit cs s))" using Cons.IH [of "emit cs s"] Cons.prems by auto
  show ?case using cs ds by (intro exI [of _ "cs @ ds"]) (simp add: kexec emit_append)
qed (auto intro: exI [of _ "[]"])

lemma procdump_emits:
  assumes "can_print s" "free PrLock (hs s)"
  shows "\<exists>cs. procdump s = Ret () (emit cs s)"
proof -
  obtain cs where "kfor dump_proc [0..<NPROC] (emit [10] s) = Ret () (emit cs (emit [10] s))"
    using kfor_emits [where body = dump_proc and s = "emit [10] s" and xs = "[0..<NPROC]"] dump_proc_emits assms by auto
  then have "procdump s = Ret () (emit ([10] @ cs) s)" using assms
    by (simp add: procdump_def kexec printf_emits newline_chars emit_append del: append_Cons append_Nil)
  then show ?thesis by blast
qed

lemma ring_queue_take:
  "unat (w - r) \<le> unat (e - r) \<Longrightarrow> ring_queue n a r w = take (unat (w - r)) (ring_queue n a r e)"
  by (simp add: ring_queue_def take_map)

lemma emit_cons_e: "emit cs (s\<lparr>cons_e := v\<rparr>) = (emit cs s)\<lparr>cons_e := v\<rparr>"
  by (simp add: emit_def)

lemma cons_erase_emits:
  "can_print s \<Longrightarrow> cons_erase s = Ret () (emit [8, 32, 8] (s\<lparr>cons_e := cons_e s - 1\<rparr>))"
  by (simp add: cons_erase_def kexec consputc_def emit_def can_print_def funpow_swap1 numeral_3_eq_3)

lemma editing_length: "cons_ok s \<Longrightarrow> length (editing s) = unat (cons_e s - cons_w s)"
  using unat_sub_counters [of "cons_w s" "cons_r s" "cons_e s"] by (simp add: cons_ok_def editing_def)

lemma editing_Nil: "cons_ok s \<Longrightarrow> editing s = [] \<longleftrightarrow> cons_e s = cons_w s"
proof -
  assume "cons_ok s"
  have "editing s = [] \<longleftrightarrow> length (editing s) = 0" by simp
  also have "\<dots> \<longleftrightarrow> unat (cons_e s - cons_w s) = 0" by (simp only: editing_length [OF \<open>cons_ok s\<close>])
  finally show ?thesis by (simp add: unat_eq_zero)
qed

lemma erased:
  assumes "cons_ok s" "editing s \<noteq> []"
  shows "ready (s\<lparr>cons_e := cons_e s - 1\<rparr>) = ready s" "editing (s\<lparr>cons_e := cons_e s - 1\<rparr>) = butlast (editing s)"
    "cons_ok (s\<lparr>cons_e := cons_e s - 1\<rparr>)" "cons_at s (cons_e s - 1) = last (editing s)"
proof -
  let ?n = "unat (cons_w s - cons_r s)"
  have l: "?n < length (cons_que s)" using assms(2) by (simp add: editing_def)
  then have ne: "cons_que s \<noteq> []" by (auto simp del: length_ring_queue)
  note q = ring_queue_shrink [OF ne]
  have e: "editing (s\<lparr>cons_e := cons_e s - 1\<rparr>) = butlast (editing s)"
    unfolding editing_def using q l by (simp add: drop_butlast del: length_ring_queue)
  then show "editing (s\<lparr>cons_e := cons_e s - 1\<rparr>) = butlast (editing s)" .
  show "ready (s\<lparr>cons_e := cons_e s - 1\<rparr>) = ready s"
    unfolding ready_def using q l by (simp add: take_butlast del: length_ring_queue)
  show "cons_ok (s\<lparr>cons_e := cons_e s - 1\<rparr>)"
    using assms(1) e l q unfolding cons_ok_def
    by (auto dest: in_set_butlastD simp del: length_ring_queue)
  show "cons_at s (cons_e s - 1) = last (editing s)"
    unfolding cons_at_def ring_queue_last [OF ne] editing_def using l by simp
qed

lemma kill_line_emits:
  "can_print s \<Longrightarrow> cons_ok s \<Longrightarrow> k = length (editing s) \<Longrightarrow>
    \<exists>cs. kill_line k s = Ret () (emit cs (s\<lparr>cons_e := cons_w s\<rparr>))"
proof (induction k arbitrary: s)
  case 0
  then have "s\<lparr>cons_e := cons_w s\<rparr> = s" using editing_Nil [of s] by auto
  then show ?case by (auto intro: exI [of _ "[]"])
next
  case (Suc k)
  then have ne: "editing s \<noteq> []" by auto
  note er = erased [OF Suc.prems(2) ne]
  let ?t = "emit [8, 32, 8] (s\<lparr>cons_e := cons_e s - 1\<rparr>)"
  have ok: "cons_ok ?t" "editing ?t = butlast (editing s)" using er(2,3) by (simp_all add: cons_ok_def editing_def)
  have "last (editing s) \<noteq> newline" using Suc.prems(2) ne last_in_set by (fastforce simp: cons_ok_def)
  then have "cons_e s \<noteq> cons_w s \<and> cons_at s (cons_e s - 1) \<noteq> newline"
    using er(4) ne editing_Nil [OF Suc.prems(2)] by simp
  then have "kill_line (Suc k) s = kill_line k ?t" using Suc.prems(1) by (simp add: kexec cons_erase_emits)
  moreover have "can_print ?t" using Suc.prems(1) by (simp add: can_print_def)
  with ok Suc.prems(3) have "\<exists>cs. kill_line k ?t = Ret () (emit cs (?t\<lparr>cons_e := cons_w ?t\<rparr>))"
    by (intro Suc.IH) simp_all
  moreover have "emit cs (?t\<lparr>cons_e := cons_w ?t\<rparr>) = emit ([8, 32, 8] @ cs) (s\<lparr>cons_e := cons_w s\<rparr>)" for cs
    by (simp only: emit_append emit_cons_e emit_tty) simp
  ultimately show ?case by auto
qed

lemma tty_upd_ready [simp]:
  "ready (emit cs s) = ready s" "editing (emit cs s) = editing s" "cons_ok (emit cs s) = cons_ok s"
  "ready (woken ch s) = ready s" "editing (woken ch s) = editing s" "cons_ok (woken ch s) = cons_ok s"
  "kbd_intr_count (emit cs s) = kbd_intr_count s" "kbd_intr_count (woken ch s) = kbd_intr_count s"
  "ready (s\<lparr>hs := h\<rparr>) = ready s" "editing (s\<lparr>hs := h\<rparr>) = editing s" "cons_ok (s\<lparr>hs := h\<rparr>) = cons_ok s"
  "ready (s\<lparr>kbd_intr_count := k\<rparr>) = ready s" "editing (s\<lparr>kbd_intr_count := k\<rparr>) = editing s"
  "cons_ok (s\<lparr>kbd_intr_count := k\<rparr>) = cons_ok s"
  by (simp_all add: ready_def editing_def cons_ok_def emit_def woken_def)

lemma cons_put_line:
  assumes "cons_ok s" "length (cons_que s) < INPUT_BUF_SIZE"
  shows "ready (cons_put c s) = ready s" "editing (cons_put c s) = editing s @ [c]"
    "length (cons_que (cons_put c s)) = Suc (length (cons_que s))" "unat (cons_w s - cons_r s) \<le> length (cons_que (cons_put c s))"
proof -
  note q = ci.put_queue [OF assms(2), of c]
  have n: "unat (cons_w s - cons_r s) \<le> length (cons_que s)" using assms(1) by (simp add: cons_ok_def)
  have f: "cons_w (cons_put c s) = cons_w s" "cons_r (cons_put c s) = cons_r s" by (simp_all add: cons_put_def)
  show "ready (cons_put c s) = ready s" "editing (cons_put c s) = editing s @ [c]"
    unfolding ready_def editing_def q unfolding f using n by (simp_all del: length_ring_queue)
  show "length (cons_que (cons_put c s)) = Suc (length (cons_que s))" "unat (cons_w s - cons_r s) \<le> length (cons_que (cons_put c s))"
    unfolding q using n by (simp_all del: length_ring_queue)
qed

lemma committed_line:
  assumes "length (cons_que s) \<le> INPUT_BUF_SIZE"
  shows "ready (s\<lparr>cons_w := cons_e s\<rparr>) = cons_que s" "editing (s\<lparr>cons_w := cons_e s\<rparr>) = []"
    "cons_ok (s\<lparr>cons_w := cons_e s\<rparr>)"
  using assms by (simp_all add: ready_def editing_def cons_ok_def)

definition irq_ready :: "'x tty_st_scheme \<Rightarrow> bool" where
  "irq_ready s \<longleftrightarrow> can_print s \<and> proc_ready s \<and> free PrLock (hs s)"

lemma irq_ready_emit [simp]: "irq_ready (emit cs s) = irq_ready s"
  by (simp add: irq_ready_def proc_ready_def)

definition irq_same :: "'x tty_st_scheme \<Rightarrow> 'x tty_st_scheme \<Rightarrow> bool" where
  "irq_same s t \<longleftrightarrow> hs t = hs s \<and> rx t = rx s \<and> panicked t = panicked s"

lemma irq_same_simps [simp]: "irq_same s s" "irq_same s (emit cs s)" "irq_same s (emit cs (s\<lparr>cons_e := e\<rparr>))"
  by (simp_all add: irq_same_def)

lemma cons_input_stores:
  assumes "irq_ready s" "cons_ok s" "c \<noteq> 0" "length (cons_que s) < INPUT_BUF_SIZE" "d = (if c = 13 then newline else c)"
    "v = cons_put d (emit [d] s)"
  shows "cons_input c s = (if d = newline \<or> d = ctrl_D \<or> length (cons_que s) + 1 = INPUT_BUF_SIZE
    then Ret () (woken ChConsR (v\<lparr>cons_w := cons_e v\<rparr>)) else Ret () v)"
proof -
  have len: "unat (cons_e v - cons_r v) = Suc (length (cons_que s))"
    using cons_put_line(3) [of "emit [d] s" d] assms(2,4,6) by simp
  have out: "consputc (ucast d) s = Ret () (emit [d] s)"
    using assms(1) by (simp add: irq_ready_def)
  have "proc_ready (v\<lparr>cons_w := cons_e v\<rparr>)" using assms(1,6) by (simp add: irq_ready_def proc_ready_def cons_put_def)
  then have w: "wakeup (Some ChConsR) (v\<lparr>cons_w := cons_e v\<rparr>) = Ret () (woken ChConsR (v\<lparr>cons_w := cons_e v\<rparr>))"
    by (rule wakeup_woken)
  have v: "(emit [d] s)\<lparr>cons_buf := (cons_buf s)(unat (cons_e s) mod INPUT_BUF_SIZE := d), cons_e := cons_e s + 1\<rparr> = v"
    unfolding assms(6) by (simp add: cons_put_def)
  have "cons_input c s = seq (consputc (ucast d)) (
       seq (modify (\<lambda>s. s\<lparr>cons_buf := (cons_buf s)(unat (cons_e s) mod INPUT_BUF_SIZE := d)\<rparr>)) (
       seq (modify (\<lambda>s. s\<lparr>cons_e := cons_e s + 1\<rparr>)) (
       bind (get (\<lambda>s. d = newline \<or> d = ctrl_D \<or> unat (cons_e s - cons_r s) = INPUT_BUF_SIZE)) (\<lambda>done.
       kwhen done cons_commit)))) s"
    using assms(3,4,5) by (simp add: cons_input_def bind_case Let_app)
  also have "\<dots> = (if d = newline \<or> d = ctrl_D \<or> length (cons_que s) + 1 = INPUT_BUF_SIZE
    then Ret () (woken ChConsR (v\<lparr>cons_w := cons_e v\<rparr>)) else Ret () v)"
    using out w v len by (simp add: seq_case bind_case cons_commit_def)
  finally show ?thesis .
qed

lemma cons_switch_refines:
  assumes "irq_ready s" "cons_ok s"
  shows "\<exists>t. cons_switch c s = Ret () t \<and> cons_ok t \<and> (ready t, editing t) = line_edit c (ready s, editing s) \<and>
    irq_same s t \<and> kbd_intr_count t = kbd_intr_count s"
proof -
  let ?rest = "c \<noteq> 0x10 \<and> c \<noteq> 0x15 \<and> c \<noteq> 0x08 \<and> c \<noteq> 0x7f"
  have len: "length (ready s) + length (editing s) = length (cons_que s)"
    by (metis length_append ready_editing)
  consider "c = 0x10" | "c = 0x15" | "c = 0x08 \<or> c = 0x7f" | "?rest" "c = 0 \<or> length (cons_que s) = INPUT_BUF_SIZE"
    | "?rest" "c \<noteq> 0" "length (cons_que s) < INPUT_BUF_SIZE"
    using assms(2) by (fastforce simp: cons_ok_def)
  then show ?thesis
  proof cases
    case 1
    then show ?thesis using procdump_emits [of s] assms by (auto simp: cons_switch_def line_edit_def irq_ready_def)
  next
    case 2
    have "\<exists>cs. kill_line (unat (cons_e s - cons_w s)) s = Ret () (emit cs (s\<lparr>cons_e := cons_w s\<rparr>))"
      using kill_line_emits [OF _ assms(2)] assms(1) editing_length [OF assms(2)] by (simp add: irq_ready_def)
    moreover have "ready (s\<lparr>cons_e := cons_w s\<rparr>) = ready s" "editing (s\<lparr>cons_e := cons_w s\<rparr>) = []" "cons_ok (s\<lparr>cons_e := cons_w s\<rparr>)"
      using assms(2) ring_queue_take [of "cons_w s" "cons_r s" "cons_e s"] by (auto simp: ready_def editing_def cons_ok_def)
    ultimately show ?thesis using 2 by (auto simp: cons_switch_def kexec line_edit_def)
  next
    case 3
    then have "cons_switch c s = (if editing s = [] then Ret () s else Ret () (emit [8, 32, 8] (s\<lparr>cons_e := cons_e s - 1\<rparr>)))"
      using editing_Nil [OF assms(2)] assms(1) by (auto simp: cons_switch_def kexec cons_erase_emits irq_ready_def)
    moreover have "line_edit c (ready s, editing s) = (ready s, butlast (editing s))" using 3 by (auto simp: line_edit_def)
    ultimately show ?thesis using erased [OF assms(2)] assms(2) by (cases "editing s = []") auto
  next
    case 4
    then have "cons_switch c s = Ret () s" by (auto simp: cons_switch_def cons_input_def kexec)
    then show ?thesis using 4 assms(2) len by (auto simp: line_edit_def)
  next
    case 5
    define d where "d = (if c = 13 then newline else c)"
    define v where "v = cons_put d (emit [d] s)"
    have sw: "cons_switch c s = (if d = newline \<or> d = ctrl_D \<or> length (cons_que s) + 1 = INPUT_BUF_SIZE
      then Ret () (woken ChConsR (v\<lparr>cons_w := cons_e v\<rparr>)) else Ret () v)"
      using cons_input_stores [OF assms 5(2,3) d_def v_def] 5(1) by (simp add: cons_switch_def)
    have l: "ready v = ready s" "editing v = editing s @ [d]" "length (cons_que v) \<le> INPUT_BUF_SIZE"
        "unat (cons_w s - cons_r s) \<le> length (cons_que v)"
      using cons_put_line [of "emit [d] s" d] assms(2) 5(3) by (simp_all add: v_def)
    have fld: "irq_same s v" "irq_same s (woken ChConsR (v\<lparr>cons_w := cons_e v\<rparr>))"
        "kbd_intr_count v = kbd_intr_count s" "cons_w v = cons_w s" "cons_r v = cons_r s"
      by (simp_all add: v_def cons_put_def irq_same_def woken_def)
    have le: "line_edit c (ready s, editing s) =
        (if d = newline \<or> d = ctrl_D \<or> length (cons_que s) + 1 = INPUT_BUF_SIZE then (ready s @ editing s @ [d], []) else (ready s, editing s @ [d]))"
      using 5 len by (auto simp: line_edit_def d_def)
    have "cons_que v = ready s @ editing s @ [d]" using ready_editing [of v] l by simp
    moreover have "cons_ok v" if "d \<noteq> newline"
      using that l fld assms(2) by (auto simp: cons_ok_def simp del: length_ring_queue)
    ultimately show ?thesis using sw le l(1,2) fld(1-3) committed_line [OF l(3)] by auto
  qed
qed

lemma consoleintr_refines:
  assumes "settled (hs s)" "\<And>lk. free lk (hs s)" "\<not> panicked s" "cons_ok s"
  shows "\<exists>t. consoleintr c s = Ret () t \<and> cons_ok t \<and> (ready t, editing t) = line_edit c (ready s, editing s) \<and>
    irq_same s t \<and> kbd_intr_count t = kbd_intr_count s + 1"
proof -
  let ?s = "s\<lparr>kbd_intr_count := kbd_intr_count s + 1, hs := acq ConsLock (hs s)\<rparr>"
  have "irq_ready ?s" using assms by (simp add: irq_ready_def can_print_def proc_ready_def)
  from cons_switch_refines [OF this, of c] assms(4) obtain t where t: "cons_switch c ?s = Ret () t" "cons_ok t"
      "(ready t, editing t) = line_edit c (ready s, editing s)" "irq_same ?s t" "kbd_intr_count t = kbd_intr_count s + 1"
    by auto
  then have "consoleintr c s = Ret () (t\<lparr>hs := hs s\<rparr>)" using assms(1,2)
    by (simp add: consoleintr_def kexec lock_rules irq_same_def)
  then show ?thesis using t by (intro exI [of _ "t\<lparr>hs := hs s\<rparr>"]) (simp add: irq_same_def)
qed

lemma uart_input_refines:
  "settled (hs s) \<Longrightarrow> (\<And>lk. free lk (hs s)) \<Longrightarrow> \<not> panicked s \<Longrightarrow> cons_ok s \<Longrightarrow> length (rx s) < k \<Longrightarrow>
    \<exists>t. uart_input k s = Ret () t \<and> cons_ok t \<and> (ready t, editing t) = fold line_edit (rx s) (ready s, editing s) \<and>
      hs t = hs s \<and> rx t = [] \<and> kbd_intr_count t = kbd_intr_count s + of_nat (length (rx s))"
proof (induction k arbitrary: s)
  case (Suc k)
  show ?case
  proof (cases "rx s")
    case Nil
    with Suc.prems show ?thesis by (auto simp: kexec uartgetc_def)
  next
    case (Cons c cs)
    let ?s = "s\<lparr>rx := cs\<rparr>"
    have inv: "cons_ok ?s" "ready ?s = ready s" "editing ?s = editing s" using Suc.prems(4) by (simp_all add: cons_ok_def ready_def editing_def)
    have "\<exists>t. consoleintr c ?s = Ret () t \<and> cons_ok t \<and> (ready t, editing t) = line_edit c (ready ?s, editing ?s) \<and>
        irq_same ?s t \<and> kbd_intr_count t = kbd_intr_count ?s + 1"
      by (rule consoleintr_refines) (use Suc.prems inv in simp_all)
    then obtain t where t: "consoleintr c ?s = Ret () t" "cons_ok t" "(ready t, editing t) = line_edit c (ready s, editing s)"
        "irq_same ?s t" "kbd_intr_count t = kbd_intr_count s + 1" using inv by auto
    have "\<exists>u. uart_input k t = Ret () u \<and> cons_ok u \<and> (ready u, editing u) = fold line_edit (rx t) (ready t, editing t) \<and>
        hs u = hs t \<and> rx u = [] \<and> kbd_intr_count u = kbd_intr_count t + of_nat (length (rx t))"
      by (rule Suc.IH) (use Suc.prems t Cons in \<open>auto simp: irq_same_def\<close>)
    with t Cons show ?thesis by (auto simp: kexec uartgetc_def irq_same_def)
  qed
qed simp

text \<open>C11: The UART interrupt handler refines the line discipline: it takes every received byte, each byte changes
  the input ready to be read and the line being edited as \<open>line_edit\<close> says (erase, kill, end of line, end of
  file, carriage return, overflow), and the loop ends with nothing left to receive. The invariant of
  the ring holds afterwards, the lock state is as before, and every byte is counted as a keyboard interrupt.\<close>

theorem uartintr_refines:
  assumes "settled (hs s)" "\<forall>lk. free lk (hs s)" "\<not> panicked s" "cons_ok s"
  shows "\<exists>t. uartintr s = Ret () t \<and> cons_ok t \<and> (ready t, editing t) = fold line_edit (rx s) (ready s, editing s) \<and>
    hs t = hs s \<and> rx t = [] \<and> kbd_intr_count t = kbd_intr_count s + of_nat (length (rx s))"
proof -
  obtain t where t: "uart_input (Suc (length (rx s))) s = Ret () t" "cons_ok t"
      "(ready t, editing t) = fold line_edit (rx s) (ready s, editing s)" "hs t = hs s" "rx t = []"
      "kbd_intr_count t = kbd_intr_count s + of_nat (length (rx s))"
    using uart_input_refines [of s "Suc (length (rx s))"] assms by auto
  let ?t = "t\<lparr>hs := acq UartTxLock (hs s)\<rparr>"
  have "proc_ready ?t" using assms(1,2) by (simp add: proc_ready_def)
  from uartstart_sends [OF this refl] obtain u where u: "uartstart ?t = Ret () u" "tx_same ?t u" by blast
  have "uartintr s = Ret () (u\<lparr>hs := hs s\<rparr>)" using t(1,4) u assms(1,2)
    by (simp add: uartintr_def kexec lock_rules tx_same_def del: uart_input.simps)
  moreover have "kbd_intr_count u = kbd_intr_count t" "cons_ok u = cons_ok t" "ready u = ready t" "editing u = editing t"
    using u(2) by (simp_all add: tx_same_def cons_ok_def ready_def editing_def)
  ultimately show ?thesis using t u(2) by (intro exI [of _ "u\<lparr>hs := hs s\<rparr>"]) (simp add: tx_same_def)
qed

section \<open>Example states\<close>

text \<open>One character waits in the transmit ring and two characters are being edited; both rings are about to wrap around.\<close>

definition tty_ex :: tty_st where
  "tty_ex = fs_st.extend (fs_ex (\<lambda>_ _. 0) (\<lambda>_. inode0)) \<lparr>uart_regs = [], uart_tx_buf = (\<lambda>_. 65), uart_tx_w = 0,
     uart_tx_r = - 1, cons_buf = (\<lambda>_. 66), cons_r = - 1, cons_w = - 1, cons_e = 1, kbd_intr_count = 0,
     devsw_read = (\<lambda>_. None), devsw_write = (\<lambda>_. None)\<rparr>\<lparr>rx := [67, 8, 8, 68, 13]\<rparr>"

lemma fs_st_extend_fields:
  "hs (fs_st.extend s x) = hs s" "choices (fs_st.extend s x) = choices s" "panicked (fs_st.extend s x) = panicked s"
  "procs (fs_st.extend s x) = procs s"
  by (simp_all add: fs_st.defs)

lemma tty_ex_fields [simp]:
  "hs tty_ex = hart3" "choices tty_ex = []" "panicked tty_ex = False" "procs tty_ex = procs bio_ex"
  "rx tty_ex = [67, 8, 8, 68, 13]"
  by (simp_all add: tty_ex_def fs_st_extend_fields)

lemma tty_ex_rings [simp]:
  "uart_tx_buf tty_ex = (\<lambda>_. 65)" "uart_tx_w tty_ex = 0" "uart_tx_r tty_ex = - 1" "cons_buf tty_ex = (\<lambda>_. 66)"
  "cons_r tty_ex = - 1" "cons_w tty_ex = - 1" "cons_e tty_ex = 1"
  by (simp_all add: tty_ex_def fs_st.defs)

lemma tty_ex_que: "ready tty_ex = []" "editing tty_ex = [66, 66]" "cons_ok tty_ex"
  by (simp_all add: ready_def editing_def cons_ok_def ring_queue_def upt_rec INPUT_BUF_SIZE_def newline_def)

theorem uartputc_stream_witness:
  "\<exists>t. uartputc (\<lambda>_ u. u) 90 tty_ex = Ret () t \<and> txlog t @ tx_que t = txlog tty_ex @ [65, 90]"
proof -
  have "calm 3 tty_ex" by simp
  moreover have "same_hart (\<lambda>_ u :: tty_st. u)" by (simp add: same_hart_def)
  ultimately show ?thesis using uartputc_stream [of 3 tty_ex "\<lambda>_ u. u" 90]
    by (auto simp: ring_queue_def UART_TX_BUF_SIZE_def)
qed

theorem uartintr_refines_witness:
  "\<exists>t. uartintr tty_ex = Ret () t \<and> ready t = [66, 68, 10] \<and> editing t = [] \<and> cons_ok t"
proof -
  have "settled (hs tty_ex)" "\<forall>lk. free lk (hs tty_ex)" by (simp_all add: hart3_def)
  then show ?thesis using uartintr_refines [of tty_ex]
    by (auto simp: tty_ex_que line_edit_def INPUT_BUF_SIZE_def newline_def ctrl_D_def)
qed

end
