(* ===== verification/Pipe.thy ===== *)
theory Pipe
  imports Tty Ring
begin

text \<open>
  \<^verbatim>\<open>kernel/pipe.c\<close>: reading, writing and closing a pipe (\<^verbatim>\<open>pipealloc\<close> is with the file table). A pipe lives in
  a page from \<^verbatim>\<open>kalloc\<close>; the model keeps its contents in the store \<open>pipes\<close>, under the address of the page,
  instead of in the bytes of the page.
\<close>

section \<open>State\<close>

definition PIPESIZE :: nat where "PIPESIZE = 512"

record pipe =
  pdata :: "nat \<Rightarrow> u8"
  nread :: u32
  nwrite :: u32
  readopen :: bool
  writeopen :: bool

record pipe_st = tty_st +
  pipes :: "u64 \<Rightarrow> pipe"

definition upd_pipe :: "u64 \<Rightarrow> (pipe \<Rightarrow> pipe) \<Rightarrow> ('x pipe_st_scheme, unit) kop" where
  "upd_pipe pi f = modify (\<lambda>s. s\<lparr>pipes := (pipes s)(pi := f (pipes s pi))\<rparr>)"

section \<open>Operations\<close>

definition pipeclose :: "u64 \<Rightarrow> bool \<Rightarrow> ('x pipe_st_scheme, unit) kop" where
  "pipeclose pi wr =
     seq (acquire (PipeLock pi)) (
     seq (if wr
          then seq (upd_pipe pi (\<lambda>r. r\<lparr>writeopen := False\<rparr>)) (wakeup (Some (ChPipeR pi)))
          else seq (upd_pipe pi (\<lambda>r. r\<lparr>readopen := False\<rparr>)) (wakeup (Some (ChPipeW pi)))) (
     bind (get (\<lambda>s. \<not> readopen (pipes s pi) \<and> \<not> writeopen (pipes s pi))) (\<lambda>closed.
     if closed then seq (release (PipeLock pi)) (kfree pi)
     else release (PipeLock pi))))"

text \<open>The bytes \<^verbatim>\<open>pi->data[pi->nwrite++ % PIPESIZE] = ch\<close> and \<^verbatim>\<open>ch = pi->data[pi->nread++ % PIPESIZE]\<close>.\<close>

definition put_byte :: "u8 \<Rightarrow> pipe \<Rightarrow> pipe" where
  "put_byte c r = r\<lparr>pdata := (pdata r)(unat (nwrite r) mod PIPESIZE := c), nwrite := nwrite r + 1\<rparr>"

definition next_byte :: "pipe \<Rightarrow> u8" where
  "next_byte r = pdata r (unat (nread r) mod PIPESIZE)"

definition drop_byte :: "pipe \<Rightarrow> pipe" where
  "drop_byte r = r\<lparr>nread := nread r + 1\<rparr>"

text \<open>
  The loop of \<^verbatim>\<open>pipewrite\<close> from index \<open>i\<close> on. A turn copies a byte or gives up the CPU, so that \<open>n\<close> plus the
  number of choices bounds the number of turns. None is the early return after the release of the lock.
\<close>

primrec pipewrite_loop ::
  "nat \<Rightarrow> 'x pipe_st_scheme env \<Rightarrow> u64 \<Rightarrow> nat \<Rightarrow> u64 \<Rightarrow> int \<Rightarrow> int \<Rightarrow> ('x pipe_st_scheme, int option) kop" where
  "pipewrite_loop 0 E pi pr addr n i = spin"
| "pipewrite_loop (Suc k) E pi pr addr n i =
     (if \<not> i < n then ret (Some i)
      else bind (get (\<lambda>s. readopen (pipes s pi))) (\<lambda>ro.
        bind (if \<not> ro then ret True else killed pr) (\<lambda>stop.
        if stop then seq (release (PipeLock pi)) (ret None)
        else bind (get (\<lambda>s. nwrite (pipes s pi) = nread (pipes s pi) + of_nat PIPESIZE)) (\<lambda>full.
          if full
          then seq (wakeup (Some (ChPipeR pi))) (
               seq (sleep E (ChPipeW pi) (PipeLock pi))
               (pipewrite_loop k E pi pr addr n i))
          else bind (get (\<lambda>s. pagetable (procs s pr))) (\<lambda>pt.
            bind (copyin pt (addr + word_of_int i) 1) (\<lambda>r.
            case r of
              None \<Rightarrow> ret (Some i)
            | Some bs \<Rightarrow>
                seq (upd_pipe pi (put_byte (hd bs)))
                (pipewrite_loop k E pi pr addr n (i + 1))))))))"

definition pipewrite :: "'x pipe_st_scheme env \<Rightarrow> u64 \<Rightarrow> u64 \<Rightarrow> int \<Rightarrow> ('x pipe_st_scheme, int) kop" where
  "pipewrite E pi addr n =
     bind myproc (\<lambda>pr.
     bind (deref pr) (\<lambda>pr.
     seq (acquire (PipeLock pi)) (
     bind (get (\<lambda>s. Suc (nat n + length (choices s)))) (\<lambda>fuel.
     bind (pipewrite_loop fuel E pi pr addr n 0) (\<lambda>r.
     case r of
       None \<Rightarrow> ret (- 1)
     | Some i \<Rightarrow>
         seq (wakeup (Some (ChPipeR pi))) (
         seq (release (PipeLock pi))
         (ret i)))))))"

text \<open>The wait of \<^verbatim>\<open>piperead\<close> for data; False is the early return after the release of the lock.\<close>

primrec piperead_wait ::
  "nat \<Rightarrow> 'x pipe_st_scheme env \<Rightarrow> u64 \<Rightarrow> nat \<Rightarrow> ('x pipe_st_scheme, bool) kop" where
  "piperead_wait 0 E pi pr = spin"
| "piperead_wait (Suc k) E pi pr =
     bind (get (\<lambda>s. nread (pipes s pi) = nwrite (pipes s pi) \<and> writeopen (pipes s pi))) (\<lambda>empty.
     if \<not> empty then ret True
     else bind (killed pr) (\<lambda>kl.
       if kl then seq (release (PipeLock pi)) (ret False)
       else seq (sleep E (ChPipeR pi) (PipeLock pi)) (piperead_wait k E pi pr)))"

definition piperead_copy :: "u64 \<Rightarrow> nat \<Rightarrow> u64 \<Rightarrow> nat \<Rightarrow> ('x pipe_st_scheme, nat option) kop" where
  "piperead_copy pi pr addr i =
     bind (get (\<lambda>s. pipes s pi)) (\<lambda>r.
     if nread r = nwrite r then ret (Some i)
     else seq (upd_pipe pi drop_byte) (
       bind (get (\<lambda>s. pagetable (procs s pr))) (\<lambda>pt.
       bind (copyout pt (addr + of_nat i) [next_byte r]) (\<lambda>e.
       ret (if e = - 1 then Some i else None)))))"

definition piperead :: "'x pipe_st_scheme env \<Rightarrow> u64 \<Rightarrow> u64 \<Rightarrow> int \<Rightarrow> ('x pipe_st_scheme, int) kop" where
  "piperead E pi addr n =
     bind myproc (\<lambda>pr.
     bind (deref pr) (\<lambda>pr.
     seq (acquire (PipeLock pi)) (
     bind (get (\<lambda>s. Suc (length (choices s)))) (\<lambda>fuel.
     bind (piperead_wait fuel E pi pr) (\<lambda>ok.
     if \<not> ok then ret (- 1)
     else bind (kfind (piperead_copy pi pr addr) [0..<nat n]) (\<lambda>r.
       seq (wakeup (Some (ChPipeW pi))) (
       seq (release (PipeLock pi))
       (ret (case r of Some i \<Rightarrow> int i | None \<Rightarrow> int (nat n))))))))))"

section \<open>A pipe is a bounded queue\<close>

interpretation pq: ring_buffer PIPESIZE pdata nread nwrite put_byte drop_byte
  by unfold_locales (simp_all add: PIPESIZE_def put_byte_def drop_byte_def)

abbreviation pipe_que :: "pipe \<Rightarrow> u8 list" where
  "pipe_que r \<equiv> ring_queue PIPESIZE (pdata r) (nread r) (nwrite r)"

definition pipe_ok :: "pipe \<Rightarrow> bool" where
  "pipe_ok r \<longleftrightarrow> length (pipe_que r) \<le> PIPESIZE"

lemma put_byte_fields [simp]:
  "readopen (put_byte c r) = readopen r" "writeopen (put_byte c r) = writeopen r"
  by (simp_all add: put_byte_def)

lemma drop_byte_fields [simp]:
  "readopen (drop_byte r) = readopen r" "writeopen (drop_byte r) = writeopen r"
  by (simp_all add: drop_byte_def)

lemma readopen_fold [simp]: "readopen (fold put_byte bs r) = readopen r"
  by (induction bs arbitrary: r) simp_all

lemma fold_put_byte:
  "length (pipe_que r) + length bs \<le> PIPESIZE \<Longrightarrow> pipe_que (fold put_byte bs r) = pipe_que r @ bs"
proof (induction bs arbitrary: r)
  case (Cons b bs)
  then have "pipe_que (put_byte b r) = pipe_que r @ [b]" using pq.put_queue by auto
  then show ?case using Cons by (simp del: length_ring_queue)
qed simp

lemma drop_byte_pow:
  "k \<le> length (pipe_que r) \<Longrightarrow> pipe_que ((drop_byte ^^ k) r) = drop k (pipe_que r)"
proof (induction k arbitrary: r)
  case (Suc k)
  then have ne: "pipe_que r \<noteq> []" by (auto simp del: length_ring_queue)
  note q = pq.pop_queue [OF ne]
  have "k \<le> length (pipe_que (drop_byte r))" using Suc.prems q by (metis Suc_le_mono length_Cons)
  then show ?case using Suc.IH [of "drop_byte r"] q by (metis drop_Suc_Cons funpow_Suc_right o_apply)
qed simp

lemma next_byte_nth:
  "k < length (pipe_que r) \<Longrightarrow> next_byte ((drop_byte ^^ k) r) = pipe_que r ! k"
proof -
  assume k: "k < length (pipe_que r)"
  let ?q = "(drop_byte ^^ k) r"
  have d: "pipe_que ?q = drop k (pipe_que r)" using k by (intro drop_byte_pow) simp
  then have "pipe_que ?q \<noteq> []" using k by (simp del: length_ring_queue)
  then have "next_byte ?q = hd (pipe_que ?q)" using pq.pop_queue [of ?q] by (metis list.sel(1) next_byte_def)
  then show ?thesis using d k by (simp add: hd_drop_conv_nth del: length_ring_queue)
qed

lemma killed_calm: "settled (hs s) \<Longrightarrow> free (ProcLock p) (hs s) \<Longrightarrow> killed p s = Ret (pkilled (procs s p)) s"
  by (simp add: killed_def kexec lock_rules)

section \<open>Writing\<close>

lemma user_bytes_Cons:
  "user_bytes m pt va (Suc n) = Some (b # bs) \<longleftrightarrow>
     user_bytes m pt va 1 = Some [b] \<and> user_bytes m pt (va + 1) n = Some bs"
proof -
  have "length xs = 1" if "user_bytes m pt va 1 = Some xs" for xs
    using that by (auto simp: user_bytes_def split: option.splits)
  then show ?thesis using user_bytes_split [of 1 "Suc n" m pt va]
    by (auto simp: length_Suc_conv split: option.splits)
qed

lemma pipewrite_loop_steps:
  assumes "calm_hart p h"
  shows "hs s = acq (PipeLock pi) h \<Longrightarrow> readopen (pipes s pi) \<Longrightarrow> \<not> pkilled (procs s p) \<Longrightarrow>
    length (pipe_que (pipes s pi)) + length bs \<le> PIPESIZE \<Longrightarrow>
    user_bytes (mem s) (pagetable (procs s p)) (addr + of_nat i) (length bs) = Some bs \<Longrightarrow>
    int (i + length bs) \<le> n \<Longrightarrow>
    pipewrite_loop (length bs + k) E pi p addr n (int i) s =
      pipewrite_loop k E pi p addr n (int (i + length bs)) (s\<lparr>pipes := (pipes s)(pi := fold put_byte bs (pipes s pi))\<rparr>)"
proof (induction bs arbitrary: s i)
  case Nil
  then show ?case by (simp add: fun_upd_idem)
next
  case (Cons b bs)
  let ?q = "pipes s pi" and ?t = "s\<lparr>pipes := (pipes s)(pi := put_byte b (pipes s pi))\<rparr>"
  have b: "user_bytes (mem s) (pagetable (procs s p)) (addr + of_nat i) 1 = Some [b]"
    "user_bytes (mem s) (pagetable (procs s p)) (addr + of_nat (Suc i)) (length bs) = Some bs"
    using Cons.prems(5) unfolding list.size(4) One_nat_def [symmetric] Suc_eq_plus1 [symmetric] user_bytes_Cons
    by (simp_all add: add_ac)
  have room: "length (pipe_que ?q) < PIPESIZE" using Cons.prems(4) by simp
  then have "nwrite ?q \<noteq> nread ?q + of_nat PIPESIZE" using pq.full_iff [of ?q] by simp
  moreover have "killed p s = Ret False s" using Cons.prems assms by (simp add: killed_calm)
  ultimately have "pipewrite_loop (length (b # bs) + k) E pi p addr n (int i) s =
      pipewrite_loop (length bs + k) E pi p addr n (int (Suc i)) ?t"
    using Cons.prems b(1)
    by (simp add: kexec copyin_user_bytes upd_pipe_def algebra_simps)
  also have "\<dots> = pipewrite_loop k E pi p addr n (int (Suc i + length bs))
      (?t\<lparr>pipes := (pipes ?t)(pi := fold put_byte bs (pipes ?t pi))\<rparr>)"
  proof (rule Cons.IH)
    show "length (pipe_que (pipes ?t pi)) + length bs \<le> PIPESIZE"
      using pq.put_queue [OF room, of b] Cons.prems(4) by (simp del: length_ring_queue)
  qed (use Cons.prems b(2) in auto)
  also have "?t\<lparr>pipes := (pipes ?t)(pi := fold put_byte bs (pipes ?t pi))\<rparr> =
      s\<lparr>pipes := (pipes s)(pi := fold put_byte (b # bs) (pipes s pi))\<rparr>" by simp
  finally show ?case by (simp only: list.size add_Suc_right add_Suc add_0_right plus_1_eq_Suc)
qed

text \<open>The state after the bytes \<open>bs\<close> have been put into the pipe and its readers woken.\<close>

definition pipe_written :: "nat \<Rightarrow> u64 \<Rightarrow> u8 list \<Rightarrow> 'x pipe_st_scheme \<Rightarrow> 'x pipe_st_scheme" where
  "pipe_written p pi bs s = s\<lparr>procs := woken_procs (Some p) (ChPipeR pi) (procs s),
     pipes := (pipes s)(pi := fold put_byte bs (pipes s pi))\<rparr>"

lemma pipe_written_que:
  "length (pipe_que (pipes s pi)) + length bs \<le> PIPESIZE \<Longrightarrow>
    pipe_que (pipes (pipe_written p pi bs s) pi) = pipe_que (pipes s pi) @ bs"
  by (simp add: pipe_written_def fold_put_byte)

lemma wakeup_locked:
  assumes "calm_hart p h" "hs s = acq (PipeLock pi) h"
  shows "wakeup (Some ch) s = Ret () (s\<lparr>procs := woken_procs (Some p) ch (procs s)\<rparr>)"
  using assms wakeup_woken [of s ch] by (simp add: proc_ready_def woken_def)

lemma pipewrite_fits:
  assumes "calm p s" "readopen (pipes s pi)" "\<not> pkilled (procs s p)"
    "length (pipe_que (pipes s pi)) + length bs \<le> PIPESIZE"
    "user_bytes (mem s) (pagetable (procs s p)) addr (length bs) = Some bs"
  shows "pipewrite E pi addr (int (length bs)) s = Ret (int (length bs)) (pipe_written p pi bs s)"
proof -
  let ?s = "s\<lparr>hs := acq (PipeLock pi) (hs s)\<rparr>"
  have l: "pipewrite_loop (length bs + Suc (length (choices s))) E pi p addr (int (length bs)) (int 0) ?s =
      pipewrite_loop (Suc (length (choices s))) E pi p addr (int (length bs)) (int (0 + length bs))
        (?s\<lparr>pipes := (pipes ?s)(pi := fold put_byte bs (pipes ?s pi))\<rparr>)"
    by (rule pipewrite_loop_steps [OF assms(1)]) (use assms in auto)
  show ?thesis using assms(1) l
    by (simp add: pipewrite_def bind_case seq_case lock_rules case_option_app if_app wakeup_locked pipe_written_def upd_order)
qed

lemma pipewrite_sleeps:
  assumes "calm p s" "readopen (pipes s pi)" "\<not> pkilled (procs s p)" "choices s = []" "same_hart E"
    "length (pipe_que (pipes s pi)) + length xs = PIPESIZE"
    "user_bytes (mem s) (pagetable (procs s p)) addr (length xs) = Some xs" "int (length xs) < n"
  shows "pipewrite E pi addr n s = Off (asleep p (ChPipeW pi) (hs s) (pipe_written p pi xs s))"
proof -
  let ?s = "s\<lparr>hs := acq (PipeLock pi) (hs s)\<rparr>"
  let ?t = "?s\<lparr>pipes := (pipes ?s)(pi := fold put_byte xs (pipes ?s pi))\<rparr>"
  have l: "pipewrite_loop (length xs + Suc (nat n - length xs)) E pi p addr n (int 0) ?s =
      pipewrite_loop (Suc (nat n - length xs)) E pi p addr n (int (0 + length xs)) ?t"
    by (rule pipewrite_loop_steps [OF assms(1)]) (use assms in auto)
  have fuel: "Suc (nat n + length (choices s)) = length xs + Suc (nat n - length xs)" using assms(4,8) by simp
  have q: "pipe_que (fold put_byte xs (pipes s pi)) = pipe_que (pipes s pi) @ xs"
    using assms(6) by (simp add: fold_put_byte)
  then have full: "nwrite (fold put_byte xs (pipes s pi)) = nread (fold put_byte xs (pipes s pi)) + of_nat PIPESIZE"
    using pq.full_iff [of "fold put_byte xs (pipes s pi)"] assms(6) by (simp del: length_ring_queue)
  have ro: "readopen (fold put_byte xs (pipes s pi))" using assms(2) by simp
  have k: "killed p ?t = Ret False ?t" using assms by (simp add: killed_calm)
  let ?u = "?t\<lparr>procs := woken_procs (Some p) (ChPipeR pi) (procs s)\<rparr>"
  have "sleep E (ChPipeW pi) (PipeLock pi) ?u = Off (asleep p (ChPipeW pi) (hs s) ?u)"
    using sleep_eq [OF calm_rules(4) [OF assms(1)] _ _ _ assms(5), of ?u "PipeLock pi" "ChPipeW pi"] assms(1,4) by simp
  moreover have "asleep p (ChPipeW pi) (hs s) ?u = asleep p (ChPipeW pi) (hs s) (pipe_written p pi xs s)"
    by (simp add: asleep_def pipe_written_def)
  ultimately show ?thesis using assms(1,8) l full ro k unfolding fuel [symmetric]
    by (simp add: pipewrite_def bind_case seq_case lock_rules case_option_app if_app wakeup_locked)
qed

lemma pipewrite_all_fit:
  assumes "calm p s" "pipe_ok (pipes s pi)"
    and bs: "user_bytes (mem s) (pagetable (procs s p)) addr (length bs) = Some bs"
    and a: "readopen (pipes s pi)" "\<not> pkilled (procs s p)" "length bs \<le> PIPESIZE - length (pipe_que (pipes s pi))"
  shows "\<exists>t. pipewrite E pi addr (int (length bs)) s = Ret (int (length bs)) t \<and> hs t = hs s \<and>
        pipe_que (pipes t pi) = pipe_que (pipes s pi) @ bs \<and> pipe_ok (pipes t pi) \<and>
        procs t = woken_procs (Some p) (ChPipeR pi) (procs s)"
proof -
  have l: "length (pipe_que (pipes s pi)) + length bs \<le> PIPESIZE" using a(3) assms(2) unfolding pipe_ok_def by linarith
  then show ?thesis
    using pipewrite_fits [OF assms(1) a(1,2) l bs] pipe_written_que [OF l, of p]
    by (intro exI [of _ "pipe_written p pi bs s"]) (simp add: pipe_ok_def pipe_written_def del: length_ring_queue)
qed

lemma length_those: "those xs = Some ys \<Longrightarrow> length ys = length xs"
  by (induction xs arbitrary: ys) (auto split: option.splits)

lemma user_bytes_take:
  assumes "user_bytes m pt addr (length bs) = Some bs" "n \<le> length bs"
  shows "user_bytes m pt addr n = Some (take n bs)"
proof -
  obtain xs ys where xs: "user_bytes m pt addr n = Some xs" "bs = xs @ ys"
    using assms(1) [unfolded user_bytes_split [OF assms(2), of m pt addr]] by (auto split: option.splits)
  moreover have "length xs = n" using xs(1) unfolding user_bytes_def
    by (auto dest: length_those)
  ultimately show ?thesis by simp
qed

lemma pipewrite_fills:
  assumes "calm p s" "same_hart E" "pipe_ok (pipes s pi)"
    and bs: "user_bytes (mem s) (pagetable (procs s p)) addr (length bs) = Some bs"
    and a: "readopen (pipes s pi)" "\<not> pkilled (procs s p)" "room = PIPESIZE - length (pipe_que (pipes s pi))"
      "room < length bs" "choices s = []"
  shows "\<exists>t. pipewrite E pi addr (int (length bs)) s = Off t \<and>
        pipe_que (pipes t pi) = pipe_que (pipes s pi) @ take room bs \<and> pipe_ok (pipes t pi) \<and>
        state (procs t p) = SLEEPING \<and> pchan (procs t p) = Some (ChPipeW pi)"
proof -
  let ?xs = "take room bs"
  have len: "length ?xs = room" using a by simp
  have l: "length (pipe_que (pipes s pi)) + length ?xs = PIPESIZE" using a(3) assms(3) len unfolding pipe_ok_def by linarith
  have "user_bytes (mem s) (pagetable (procs s p)) addr (length ?xs) = Some ?xs"
    unfolding len using user_bytes_take [OF bs] a(4) by simp
  from pipewrite_sleeps [OF assms(1) a(1,2,5) assms(2) l this, of "int (length bs)"] len l a(4) pipe_written_que [of s pi ?xs p]
  show ?thesis
    by (intro exI [of _ "asleep p (ChPipeW pi) (hs s) (pipe_written p pi ?xs s)"])
      (simp add: pipe_ok_def asleep_def pipe_written_def del: length_ring_queue)
qed

lemma pipewrite_refused:
  assumes "calm p s" "\<not> readopen (pipes s pi) \<or> pkilled (procs s p)" "bs \<noteq> []"
  shows "pipewrite E pi addr (int (length bs)) s = Ret (- 1) s"
  using assms by (auto simp: pipewrite_def kexec lock_rules killed_calm upd_order kst_hs_upd_id)

section \<open>Reading\<close>

lemma writable_take: "writable m pt va n f \<Longrightarrow> k \<le> n \<Longrightarrow> writable m pt va k f"
  unfolding writable_def by (meson order_less_le_trans)

lemma copyout_byte:
  assumes "writable (mem s) pt addr n f" "i < n"
  shows "copyout pt (addr + of_nat i) [c] s = Ret 0 (s\<lparr>mem := (mem s)(f i := c)\<rparr>)"
proof -
  have w: "writable (mem s) pt (addr + of_nat i) (length [c]) (\<lambda>j. f (i + j))"
    using writable_take [OF writable_drop [OF assms(1), of i], of 1] assms(2) by simp
  obtain m where m: "copyout pt (addr + of_nat i) [c] s = Ret 0 (s\<lparr>mem := m\<rparr>)" "m (f i) = c"
      "\<And>x. x \<noteq> f i \<Longrightarrow> m x = mem s x"
    using copyout_writable [OF w] by (auto simp: inj_on_def)
  then have "m = (mem s)(f i := c)" by auto
  with m(1) show ?thesis by simp
qed

lemma piperead_copies:
  assumes inj: "inj_on f {..<n}"
  shows "writable (mem s) (pagetable (procs s p)) addr n f \<Longrightarrow> i + k \<le> n \<Longrightarrow>
    k \<le> length (pipe_que (pipes s pi)) \<Longrightarrow>
    \<exists>m. kfind (piperead_copy pi p addr) [i..<i + k] s =
      Ret None (s\<lparr>mem := m, pipes := (pipes s)(pi := (drop_byte ^^ k) (pipes s pi))\<rparr>) \<and>
      (\<forall>j<k. m (f (i + j)) = pipe_que (pipes s pi) ! j) \<and>
      (\<forall>x. (\<forall>j<k. x \<noteq> f (i + j)) \<longrightarrow> m x = mem s x)"
proof (induction k arbitrary: i s)
  case 0
  then show ?case by (intro exI [of _ "mem s"]) (simp add: fun_upd_idem)
next
  case (Suc k)
  let ?q = "pipes s pi"
  let ?c = "next_byte ?q"
  let ?t = "s\<lparr>mem := (mem s)(f i := ?c), pipes := (pipes s)(pi := drop_byte ?q)\<rparr>"
  have ne: "pipe_que ?q \<noteq> []" using Suc.prems(3) by (auto simp del: length_ring_queue)
  have q: "pipe_que ?q = ?c # pipe_que (drop_byte ?q)" using pq.pop_queue [OF ne] by (simp add: next_byte_def)
  have i: "i < n" using Suc.prems(2) by simp
  have "piperead_copy pi p addr i s = Ret None ?t"
    using ne pq.empty_iff [of ?q]
      copyout_byte [OF _ i, of "s\<lparr>pipes := (pipes s)(pi := drop_byte ?q)\<rparr>" "pagetable (procs s p)" addr f ?c] Suc.prems(1)
    by (simp add: piperead_copy_def kexec upd_pipe_def)
  then have "kfind (piperead_copy pi p addr) [i..<i + Suc k] s = kfind (piperead_copy pi p addr) [Suc i..<Suc i + k] ?t"
    by (simp add: upt_conv_Cons kexec del: upt_Suc)
  moreover have "\<exists>m. kfind (piperead_copy pi p addr) [Suc i..<Suc i + k] ?t =
      Ret None (?t\<lparr>mem := m, pipes := (pipes ?t)(pi := (drop_byte ^^ k) (pipes ?t pi))\<rparr>) \<and>
      (\<forall>j<k. m (f (Suc i + j)) = pipe_que (pipes ?t pi) ! j) \<and>
      (\<forall>x. (\<forall>j<k. x \<noteq> f (Suc i + j)) \<longrightarrow> m x = mem ?t x)"
  proof (rule Suc.IH)
    show "writable (mem ?t) (pagetable (procs ?t p)) addr n f"
      using Suc.prems(1) by (simp, elim writable_stable) (use i in auto)
    show "k \<le> length (pipe_que (pipes ?t pi))"
      using Suc.prems(3) arg_cong [OF q, of length] by simp
  qed (use Suc.prems(2) in simp)
  then obtain m where m: "kfind (piperead_copy pi p addr) [Suc i..<Suc i + k] ?t =
      Ret None (?t\<lparr>mem := m, pipes := (pipes ?t)(pi := (drop_byte ^^ k) (pipes ?t pi))\<rparr>)"
      "\<And>j. j < k \<Longrightarrow> m (f (Suc i + j)) = pipe_que (pipes ?t pi) ! j"
      "\<And>x. (\<forall>j<k. x \<noteq> f (Suc i + j)) \<Longrightarrow> m x = mem ?t x" by blast
  have fi: "f i \<noteq> f (Suc i + j)" if "j < k" for j
    using inj_onD [OF inj, of i "Suc i + j"] that Suc.prems(2) by auto
  have "m (f (i + j)) = pipe_que ?q ! j" if "j < Suc k" for j
    using that m(2) [of "j - 1"] m(3) [of "f i"] fi q by (cases j) auto
  moreover have "m x = mem s x" if x: "\<forall>j<Suc k. x \<noteq> f (i + j)" for x
  proof -
    have "x \<noteq> f (Suc i + j)" if "j < k" for j using x that by (metis Suc_less_eq add_Suc_shift)
    moreover have "x \<noteq> f i" using x by (metis add_0_right zero_less_Suc)
    ultimately show ?thesis using m(3) [of x] by simp
  qed
  moreover have "?t\<lparr>mem := m, pipes := (pipes ?t)(pi := (drop_byte ^^ k) (pipes ?t pi))\<rparr> =
      s\<lparr>mem := m, pipes := (pipes s)(pi := (drop_byte ^^ Suc k) ?q)\<rparr>"
    by (simp add: funpow_swap1)
  ultimately show ?case unfolding m(1) by (intro exI [of _ m] conjI) (simp only:, blast+)
qed

text \<open>The number of bytes a read of \<open>n\<close> bytes finds.\<close>

definition avail :: "int \<Rightarrow> pipe \<Rightarrow> nat" where
  "avail n r = min (nat n) (length (pipe_que r))"

lemma piperead_data:
  assumes "calm p s" "pipe_que (pipes s pi) \<noteq> [] \<or> \<not> writeopen (pipes s pi)" "k = avail n (pipes s pi)"
    "writable (mem s) (pagetable (procs s p)) addr k f" "inj_on f {..<k}"
  shows "\<exists>m. piperead E pi addr n s = Ret (int k) (s\<lparr>mem := m,
      procs := woken_procs (Some p) (ChPipeW pi) (procs s),
      pipes := (pipes s)(pi := (drop_byte ^^ k) (pipes s pi))\<rparr>) \<and>
    (\<forall>j<k. m (f j) = pipe_que (pipes s pi) ! j) \<and> (\<forall>x. (\<forall>j<k. x \<noteq> f j) \<longrightarrow> m x = mem s x)"
proof -
  let ?s = "s\<lparr>hs := acq (PipeLock pi) (hs s)\<rparr>" and ?q = "pipes s pi"
  have k: "k \<le> nat n" "k \<le> length (pipe_que ?q)" using assms(3) by (simp_all add: avail_def)
  obtain m where m: "kfind (piperead_copy pi p addr) [0..<k] ?s =
      Ret None (?s\<lparr>mem := m, pipes := (pipes s)(pi := (drop_byte ^^ k) ?q)\<rparr>)"
      "\<forall>j<k. m (f j) = pipe_que ?q ! j" "\<forall>x. (\<forall>j<k. x \<noteq> f j) \<longrightarrow> m x = mem s x"
    using piperead_copies [OF assms(5), of ?s p addr 0 k pi] assms(4) k(2) by auto
  let ?t = "?s\<lparr>mem := m, pipes := (pipes s)(pi := (drop_byte ^^ k) ?q)\<rparr>"
  have "kfind (piperead_copy pi p addr) [0..<nat n] ?s = Ret (if k = nat n then None else Some k) ?t"
  proof (cases "k = nat n")
    case False
    then have l: "k = length (pipe_que ?q)" "k < nat n" using assms(3) k(1) by (auto simp: avail_def)
    then have "[0..<nat n] = [0..<k] @ k # [Suc k..<nat n]" using upt_add_eq_append [of 0 k "nat n - k"] by (simp add: upt_conv_Cons)
    moreover have "pipe_que ((drop_byte ^^ k) ?q) = []" using drop_byte_pow [OF k(2)] l(1) by simp
    then have "nread ((drop_byte ^^ k) ?q) = nwrite ((drop_byte ^^ k) ?q)" using pq.empty_iff by blast
    ultimately show ?thesis using m(1) False by (simp add: kfind_append kexec piperead_copy_def)
  qed (use m(1) in simp)
  then have "piperead E pi addr n s = Ret (int k) (s\<lparr>mem := m,
      procs := woken_procs (Some p) (ChPipeW pi) (procs s), pipes := (pipes s)(pi := (drop_byte ^^ k) ?q)\<rparr>)"
    using assms(1,2) pq.empty_iff [of ?q] k(1)
    by (auto simp add: piperead_def kexec lock_rules wakeup_locked upd_order)
  with m(2,3) show ?thesis by blast
qed

section \<open>Properties\<close>

text \<open>C9: \<^verbatim>\<open>pipewrite\<close> refines appending to a bounded queue, for any values of the 32-bit counters. If the bytes
  fit into the pipe they are appended in order, the readers are woken and the count is returned. If they
  do not, the pipe is filled with a prefix and the writer sleeps on the pipe until a reader makes room. If
  no reader is left, or the process has been killed, nothing is written and the result is -1.\<close>

theorem pipewrite_refines:
  assumes "calm p s" "same_hart E" "pipe_ok (pipes s pi)"
    "user_bytes (mem s) (pagetable (procs s p)) addr (length bs) = Some bs"
    "room = PIPESIZE - length (pipe_que (pipes s pi))"
  shows "(readopen (pipes s pi) \<and> \<not> pkilled (procs s p) \<and> length bs \<le> room \<longrightarrow>
      (\<exists>t. pipewrite E pi addr (int (length bs)) s = Ret (int (length bs)) t \<and> hs t = hs s \<and>
        pipe_que (pipes t pi) = pipe_que (pipes s pi) @ bs \<and> pipe_ok (pipes t pi) \<and>
        procs t = woken_procs (Some p) (ChPipeR pi) (procs s))) \<and>
    (readopen (pipes s pi) \<and> \<not> pkilled (procs s p) \<and> room < length bs \<and> choices s = [] \<longrightarrow>
      (\<exists>t. pipewrite E pi addr (int (length bs)) s = Off t \<and>
        pipe_que (pipes t pi) = pipe_que (pipes s pi) @ take room bs \<and> pipe_ok (pipes t pi) \<and>
        state (procs t p) = SLEEPING \<and> pchan (procs t p) = Some (ChPipeW pi))) \<and>
    ((\<not> readopen (pipes s pi) \<or> pkilled (procs s p)) \<and> bs \<noteq> [] \<longrightarrow>
      pipewrite E pi addr (int (length bs)) s = Ret (- 1) s)"
  using pipewrite_all_fit [OF assms(1,3,4)] pipewrite_fills [OF assms(1-4)] pipewrite_refused [OF assms(1)] assms(5)
  by blast

lemma piperead_sleeps:
  assumes "calm p s" "same_hart E" "pipe_que (pipes s pi) = []" "writeopen (pipes s pi)"
    "\<not> pkilled (procs s p)" "choices s = []"
  shows "piperead E pi addr n s = Off (asleep p (ChPipeR pi) (hs s) s)"
proof -
  let ?s = "s\<lparr>hs := acq (PipeLock pi) (hs s)\<rparr>"
  have "killed p ?s = Ret False ?s" using assms by (simp add: killed_calm)
  moreover have "sleep E (ChPipeR pi) (PipeLock pi) ?s = Off (asleep p (ChPipeR pi) (hs s) ?s)"
    using sleep_eq [OF calm_rules(4) [OF assms(1)] _ _ _ assms(2), of ?s "PipeLock pi" "ChPipeR pi"] assms(1,6) by simp
  moreover have "asleep p (ChPipeR pi) (hs s) ?s = asleep p (ChPipeR pi) (hs s) s"
    by (simp add: asleep_def)
  ultimately show ?thesis using assms(1,3-6) pq.empty_iff [of "pipes s pi"]
    by (simp add: piperead_def kexec lock_rules)
qed

lemma piperead_killed:
  assumes "calm p s" "pipe_que (pipes s pi) = []" "writeopen (pipes s pi)" "pkilled (procs s p)"
  shows "piperead E pi addr n s = Ret (- 1) s"
  using assms pq.empty_iff [of "pipes s pi"]
  by (simp add: piperead_def kexec lock_rules killed_calm kst_hs_upd_id)

text \<open>C10: \<^verbatim>\<open>piperead\<close> refines taking bytes from the front of the queue. With data in the pipe, or all writers gone, it
  moves the first \<open>k\<close> bytes, as many as are there and as were asked for, to the user buffer in order,
  removes them from the pipe, changes no other memory, wakes the writers and returns \<open>k\<close>. On an empty pipe
  with a writer it sleeps, or returns -1 without effect when the process has been killed.\<close>

theorem piperead_refines:
  assumes "calm p s" "same_hart E" "pipe_ok (pipes s pi)" "k = avail n (pipes s pi)"
    "writable (mem s) (pagetable (procs s p)) addr k f" "inj_on f {..<k}"
  shows "(pipe_que (pipes s pi) \<noteq> [] \<or> \<not> writeopen (pipes s pi) \<longrightarrow>
      (\<exists>t. piperead E pi addr n s = Ret (int k) t \<and> hs t = hs s \<and>
        pipe_que (pipes t pi) = drop k (pipe_que (pipes s pi)) \<and> pipe_ok (pipes t pi) \<and>
        (\<forall>j<k. mem t (f j) = pipe_que (pipes s pi) ! j) \<and> (\<forall>x. (\<forall>j<k. x \<noteq> f j) \<longrightarrow> mem t x = mem s x) \<and>
        procs t = woken_procs (Some p) (ChPipeW pi) (procs s))) \<and>
    (pipe_que (pipes s pi) = [] \<and> writeopen (pipes s pi) \<and> \<not> pkilled (procs s p) \<and> choices s = [] \<longrightarrow>
      (\<exists>t. piperead E pi addr n s = Off t \<and> pipes t = pipes s \<and> state (procs t p) = SLEEPING \<and>
        pchan (procs t p) = Some (ChPipeR pi))) \<and>
    (pipe_que (pipes s pi) = [] \<and> writeopen (pipes s pi) \<and> pkilled (procs s p) \<longrightarrow>
      piperead E pi addr n s = Ret (- 1) s)"
proof (intro conjI impI)
  let ?q = "pipes s pi"
  assume "pipe_que ?q \<noteq> [] \<or> \<not> writeopen ?q"
  from piperead_data [OF assms(1) this assms(4-6), where E = E]
  obtain m where m: "piperead E pi addr n s = Ret (int k) (s\<lparr>mem := m,
      procs := woken_procs (Some p) (ChPipeW pi) (procs s), pipes := (pipes s)(pi := (drop_byte ^^ k) ?q)\<rparr>)"
      "\<forall>j<k. m (f j) = pipe_que ?q ! j" "\<forall>x. (\<forall>j<k. x \<noteq> f j) \<longrightarrow> m x = mem s x" by blast
  have "pipe_que ((drop_byte ^^ k) ?q) = drop k (pipe_que ?q)" using assms(4) by (intro drop_byte_pow) (simp add: avail_def)
  then show "\<exists>t. piperead E pi addr n s = Ret (int k) t \<and> hs t = hs s \<and>
        pipe_que (pipes t pi) = drop k (pipe_que ?q) \<and> pipe_ok (pipes t pi) \<and>
        (\<forall>j<k. mem t (f j) = pipe_que ?q ! j) \<and> (\<forall>x. (\<forall>j<k. x \<noteq> f j) \<longrightarrow> mem t x = mem s x) \<and>
        procs t = woken_procs (Some p) (ChPipeW pi) (procs s)"
    unfolding m(1) using m(2,3) assms(3) by (auto simp: pipe_ok_def simp del: length_ring_queue)
next
  assume "pipe_que (pipes s pi) = [] \<and> writeopen (pipes s pi) \<and> \<not> pkilled (procs s p) \<and> choices s = []"
  then show "\<exists>t. piperead E pi addr n s = Off t \<and> pipes t = pipes s \<and> state (procs t p) = SLEEPING \<and>
        pchan (procs t p) = Some (ChPipeR pi)"
    using piperead_sleeps [OF assms(1,2), of pi addr n] by (auto simp: asleep_def)
qed (use piperead_killed [OF assms(1)] in blast)

section \<open>Example states\<close>

text \<open>Process 3 has the user pages of \<open>vm_mem1\<close>. The pipe at page 0x80200000 holds two bytes and its counters are about to
  wrap around.\<close>

definition pipe_ex :: pipe_st where
  "pipe_ex = tty_st.extend tty_ex \<lparr>pipes = (\<lambda>_. \<lparr>pdata = (\<lambda>_. 77), nread = - 1, nwrite = 1, readopen = True, writeopen = True\<rparr>)\<rparr>
     \<lparr>mem := vm_mem1, procs := (procs tty_ex)(3 := (procs tty_ex 3)\<lparr>pagetable := 0x80100000, pkilled := False\<rparr>)\<rparr>"

lemma pipe_ex_fields [simp]:
  "hs pipe_ex = hart3" "choices pipe_ex = []" "mem pipe_ex = vm_mem1" "pagetable (procs pipe_ex 3) = 0x80100000"
  "pkilled (procs pipe_ex 3) = False" "pdata (pipes pipe_ex pi) = (\<lambda>_. 77)" "nread (pipes pipe_ex pi) = - 1"
  "nwrite (pipes pipe_ex pi) = 1" "readopen (pipes pipe_ex pi)" "writeopen (pipes pipe_ex pi)"
  by (simp_all add: pipe_ex_def tty_st.defs)

lemma pipe_ex_que: "pipe_que (pipes pipe_ex pi) = [77, 77]" "pipe_ok (pipes pipe_ex pi)"
  by (simp_all add: pipe_ok_def ring_queue_def PIPESIZE_def upt_rec)

lemma inj_phys1: "inj_on phys1 {..<2}"
  by (auto simp: inj_on_def phys1_def less_2_cases_iff)

lemma writable_bytes: "writable m pt va n f \<Longrightarrow> user_bytes m pt va n = Some (map (\<lambda>i. m (f i)) [0..<n])"
  unfolding user_bytes_def by (rule those_map_Some) (simp add: writable_def user_byte_def)

theorem pipewrite_refines_witness:
  "\<exists>t bs. length bs = 2 \<and> pipewrite (\<lambda>_ u. u) 0x80200000 0xFFF 2 pipe_ex = Ret 2 t \<and>
    pipe_que (pipes t 0x80200000) = [77, 77] @ bs"
proof -
  define bs where "bs = map (\<lambda>i. vm_mem1 (phys1 i)) [0..<2]"
  have "calm 3 pipe_ex" by simp
  moreover have "same_hart (\<lambda>_ u :: pipe_st. u)" by (simp add: same_hart_def)
  moreover have "user_bytes (mem pipe_ex) (pagetable (procs pipe_ex 3)) 0xFFF (length bs) = Some bs"
    using writable_bytes [OF writable_vm_mem1] by (simp add: bs_def)
  ultimately have "\<exists>t. pipewrite (\<lambda>_ u. u) 0x80200000 0xFFF (int (length bs)) pipe_ex = Ret (int (length bs)) t \<and>
      pipe_que (pipes t 0x80200000) = pipe_que (pipes pipe_ex 0x80200000) @ bs"
    using pipewrite_refines [OF _ _ pipe_ex_que(2) _ refl, of 3 "\<lambda>_ u. u" "0xFFF" bs "0x80200000"]
    by (auto simp: PIPESIZE_def pipe_ex_que bs_def)
  then obtain t where "pipewrite (\<lambda>_ u. u) 0x80200000 0xFFF (int (length bs)) pipe_ex = Ret (int (length bs)) t"
      "pipe_que (pipes t 0x80200000) = [77, 77] @ bs" unfolding pipe_ex_que by blast
  moreover have "length bs = 2" by (simp add: bs_def)
  ultimately show ?thesis by (intro exI [of _ t] exI [of _ bs]) simp
qed

theorem piperead_refines_witness:
  "\<exists>t. piperead (\<lambda>_ u. u) 0x80200000 0xFFF 9 pipe_ex = Ret 2 t \<and> mem t (phys1 1) = 77 \<and> pipe_que (pipes t 0x80200000) = []"
proof -
  have "calm 3 pipe_ex" by simp
  moreover have "same_hart (\<lambda>_ u :: pipe_st. u)" by (simp add: same_hart_def)
  moreover have "2 = avail 9 (pipes pipe_ex 0x80200000)" by (simp add: avail_def)
  moreover have "writable (mem pipe_ex) (pagetable (procs pipe_ex 3)) 0xFFF 2 phys1" using writable_vm_mem1 by simp
  moreover have "pipe_que (pipes pipe_ex 0x80200000) \<noteq> []" unfolding pipe_ex_que by simp
  ultimately have "\<exists>t. piperead (\<lambda>_ u. u) 0x80200000 0xFFF 9 pipe_ex = Ret (int 2) t \<and>
      pipe_que (pipes t 0x80200000) = drop 2 (pipe_que (pipes pipe_ex 0x80200000)) \<and>
      (\<forall>j<2. mem t (phys1 j) = pipe_que (pipes pipe_ex 0x80200000) ! j)"
    using piperead_refines [OF _ _ pipe_ex_que(2) _ _ inj_phys1, of 3 "\<lambda>_ u. u" 9 "0x80200000" "0xFFF"] by blast
  then obtain t where t: "piperead (\<lambda>_ u. u) 0x80200000 0xFFF 9 pipe_ex = Ret (int 2) t"
      "pipe_que (pipes t 0x80200000) = drop 2 [77, 77]" "\<forall>j<2. mem t (phys1 j) = [77, 77] ! j"
    unfolding pipe_ex_que by blast
  then show ?thesis by (intro exI [of _ t]) (auto dest: spec [of _ 1])
qed

end
