(* ===== verification/File.thy ===== *)
theory File
  imports Pipe
begin

text \<open>
  \<^verbatim>\<open>kernel/file.c\<close>, the table of open files, and \<^verbatim>\<open>pipealloc\<close> of \<^verbatim>\<open>kernel/pipe.c\<close>. A \<^verbatim>\<open>struct file *\<close> is an
  index into \<^verbatim>\<open>ftable.file[]\<close>.
\<close>

section \<open>State\<close>

definition NFILE :: nat where "NFILE = 100"

datatype fd_type = FD_NONE | FD_PIPE | FD_INODE | FD_DEVICE

record open_file =
  ftype :: fd_type
  fref :: int
  freadable :: bool
  fwritable :: bool
  fpipe :: u64
  fip :: "nat option"
  foff :: u32
  fmajor :: u16

record file_st = pipe_st +
  ftable :: "nat \<Rightarrow> open_file"

definition upd_file :: "nat \<Rightarrow> (open_file \<Rightarrow> open_file) \<Rightarrow> ('x file_st_scheme, unit) kop" where
  "upd_file f g = modify (\<lambda>s. s\<lparr>ftable := (ftable s)(f := g (ftable s f))\<rparr>)"

section \<open>Operations\<close>

definition fileinit :: "('x file_st_scheme, unit) kop" where
  "fileinit = initlock FtableLock ''ftable''"

definition filealloc :: "('x file_st_scheme, nat option) kop" where
  "filealloc =
     seq (acquire FtableLock) (
     bind (get (\<lambda>s. first_idx (\<lambda>f. fref (ftable s f) = 0) NFILE)) (\<lambda>r.
     case r of
       Some f \<Rightarrow>
         seq (upd_file f (\<lambda>r. r\<lparr>fref := 1\<rparr>)) (
         seq (release FtableLock)
         (ret (Some f)))
     | None \<Rightarrow>
         seq (release FtableLock)
         (ret None)))"

definition filedup :: "nat \<Rightarrow> ('x file_st_scheme, nat) kop" where
  "filedup f =
     seq (acquire FtableLock) (
     bind (get (\<lambda>s. fref (ftable s f))) (\<lambda>ref.
     seq (kwhen (ref < 1) (panic ''filedup'')) (
     seq (upd_file f (\<lambda>r. r\<lparr>fref := fref r + 1\<rparr>)) (
     seq (release FtableLock)
     (ret f)))))"

definition fileclose :: "'x file_st_scheme env \<Rightarrow> nat \<Rightarrow> ('x file_st_scheme, unit) kop" where
  "fileclose E f =
     seq (acquire FtableLock) (
     bind (get (\<lambda>s. fref (ftable s f))) (\<lambda>ref.
     seq (kwhen (ref < 1) (panic ''fileclose'')) (
     seq (upd_file f (\<lambda>r. r\<lparr>fref := fref r - 1\<rparr>)) (
     bind (get (\<lambda>s. ftable s f)) (\<lambda>ff.
     if fref ff > 0 then release FtableLock
     else
       seq (upd_file f (\<lambda>r. r\<lparr>fref := 0\<rparr>)) (
       seq (upd_file f (\<lambda>r. r\<lparr>ftype := FD_NONE\<rparr>)) (
       seq (release FtableLock) (
       if ftype ff = FD_PIPE then pipeclose (fpipe ff) (fwritable ff)
       else kwhen (ftype ff = FD_INODE \<or> ftype ff = FD_DEVICE) (
         seq (begin_op E) (
         seq (bind (deref (fip ff)) (iput E))
         (end_op E)))))))))))"

text \<open>The bytes of a \<^verbatim>\<open>struct stat\<close>; \<open>pad\<close> stands for the four bytes of padding, which nothing initialises.\<close>

definition stat_bytes :: "u8 list \<Rightarrow> stat \<Rightarrow> u8 list" where
  "stat_bytes pad st = le_bytes 4 (st_dev st) @ le_bytes 4 (st_ino st) @ le_bytes 2 (st_type st) @
     le_bytes 2 (st_nlink st) @ pad @ le_bytes 8 (st_size st)"

definition filestat ::
  "'x file_st_scheme env \<Rightarrow> u8 list \<Rightarrow> nat \<Rightarrow> u64 \<Rightarrow> ('x file_st_scheme, int) kop" where
  "filestat E pad f addr =
     bind myproc (\<lambda>p.
     bind (get (\<lambda>s. ftable s f)) (\<lambda>r.
     if ftype r = FD_INODE \<or> ftype r = FD_DEVICE
     then seq (ilock E (fip r)) (
          bind (bind (deref (fip r)) stati) (\<lambda>st.
          seq (iunlock (fip r)) (
          bind (deref p) (\<lambda>p.
          bind (get (\<lambda>s. pagetable (procs s p))) (\<lambda>pt.
          bind (copyout pt addr (stat_bytes pad st)) (\<lambda>e.
          ret (if e < 0 then - 1 else 0)))))))
     else ret (- 1)))"

definition fileread :: "'x file_st_scheme env \<Rightarrow> nat \<Rightarrow> u64 \<Rightarrow> int \<Rightarrow> ('x file_st_scheme, int) kop" where
  "fileread E f addr n =
     bind (get (\<lambda>s. ftable s f)) (\<lambda>r.
     if \<not> freadable r then ret (- 1)
     else case ftype r of
       FD_PIPE \<Rightarrow> piperead E (fpipe r) addr n
     | FD_DEVICE \<Rightarrow>
         if sint (fmajor r) < 0 \<or> sint (fmajor r) \<ge> int NDEV then ret (- 1)
         else bind (get (\<lambda>s. devsw_read s (unat (fmajor r)))) (\<lambda>d.
           case d of
             None \<Rightarrow> ret (- 1)
           | Some Consoleread \<Rightarrow> consoleread E (UserDst addr) n)
     | FD_INODE \<Rightarrow>
         seq (ilock E (fip r)) (
         bind (deref (fip r)) (\<lambda>ip.
         bind (get (\<lambda>s. foff (ftable s f))) (\<lambda>pos.
         bind (readi E ip (UserDst addr) pos (word_of_int n)) (\<lambda>(k, _).
         seq (kwhen (k > 0) (upd_file f (\<lambda>r. r\<lparr>foff := foff r + word_of_int k\<rparr>))) (
         seq (iunlock (fip r))
         (ret k))))))
     | FD_NONE \<Rightarrow> panic ''fileread'')"

text \<open>The most bytes one transaction of \<^verbatim>\<open>filewrite\<close> writes.\<close>

definition write_max :: int where
  "write_max = ((int MAXOPBLOCKS - 1 - 1 - 2) div 2) * int BSIZE"

lemma write_max_eq [simp]: "write_max = 3072"
  by (simp add: write_max_def MAXOPBLOCKS_def BSIZE_def)

text \<open>The loop of \<^verbatim>\<open>filewrite\<close>; the result is the value of \<^verbatim>\<open>i\<close> after it.\<close>

function filewrite_loop ::
  "'x file_st_scheme env \<Rightarrow> nat \<Rightarrow> u64 \<Rightarrow> int \<Rightarrow> int \<Rightarrow> ('x file_st_scheme, int) kop" where
  "filewrite_loop E f addr n i =
     (if \<not> i < n then ret i
      else let n1 = min (n - i) write_max in
        seq (begin_op E) (
        bind (get (\<lambda>s. fip (ftable s f))) (\<lambda>ip.
        seq (ilock E ip) (
        bind (deref ip) (\<lambda>ip'.
        bind (get (\<lambda>s. foff (ftable s f))) (\<lambda>pos.
        bind (writei E ip' (UserSrc (addr + word_of_int i)) pos (word_of_int n1)) (\<lambda>r.
        seq (kwhen (r > 0) (upd_file f (\<lambda>q. q\<lparr>foff := foff q + word_of_int r\<rparr>))) (
        seq (iunlock ip) (
        seq (end_op E) (
        if r \<noteq> n1 then ret i
        else filewrite_loop E f addr n (i + n1)))))))))))"
  by pat_completeness auto
termination
  by (relation "measure (\<lambda>(E, f, addr, n, i). nat (n - i))") auto

declare filewrite_loop.simps [simp del]

definition filewrite :: "'x file_st_scheme env \<Rightarrow> nat \<Rightarrow> u64 \<Rightarrow> int \<Rightarrow> ('x file_st_scheme, int) kop" where
  "filewrite E f addr n =
     bind (get (\<lambda>s. ftable s f)) (\<lambda>r.
     if \<not> fwritable r then ret (- 1)
     else case ftype r of
       FD_PIPE \<Rightarrow> pipewrite E (fpipe r) addr n
     | FD_DEVICE \<Rightarrow>
         if sint (fmajor r) < 0 \<or> sint (fmajor r) \<ge> int NDEV then ret (- 1)
         else bind (get (\<lambda>s. devsw_write s (unat (fmajor r)))) (\<lambda>d.
           case d of
             None \<Rightarrow> ret (- 1)
           | Some Consolewrite \<Rightarrow> consolewrite E (UserSrc addr) n)
     | FD_INODE \<Rightarrow>
         bind (filewrite_loop E f addr n 0) (\<lambda>i.
         ret (if i = n then n else - 1))
     | FD_NONE \<Rightarrow> panic ''filewrite'')"

text \<open>The \<^verbatim>\<open>bad:\<close> branch of \<^verbatim>\<open>pipealloc\<close>; it is reached before the page has been allocated.\<close>

definition pipealloc_bad ::
  "'x file_st_scheme env \<Rightarrow> nat option \<Rightarrow> nat option \<Rightarrow> ('x file_st_scheme, (nat \<times> nat) option) kop" where
  "pipealloc_bad E f0 f1 =
     seq (case f0 of None \<Rightarrow> ret () | Some f \<Rightarrow> fileclose E f) (
     seq (case f1 of None \<Rightarrow> ret () | Some f \<Rightarrow> fileclose E f)
     (ret None))"

definition pipealloc :: "'x file_st_scheme env \<Rightarrow> ('x file_st_scheme, (nat \<times> nat) option) kop" where
  "pipealloc E =
     bind filealloc (\<lambda>f0.
     case f0 of None \<Rightarrow> pipealloc_bad E None None
     | Some f0' \<Rightarrow>
     bind filealloc (\<lambda>f1.
     case f1 of None \<Rightarrow> pipealloc_bad E f0 None
     | Some f1' \<Rightarrow>
     bind kalloc (\<lambda>pi.
     if pi = 0 then pipealloc_bad E f0 f1
     else
       seq (upd_pipe pi (\<lambda>r. r\<lparr>readopen := True, writeopen := True, nwrite := 0, nread := 0\<rparr>)) (
       seq (initlock (PipeLock pi) ''pipe'') (
       seq (upd_file f0' (\<lambda>r. r\<lparr>ftype := FD_PIPE, freadable := True, fwritable := False, fpipe := pi\<rparr>)) (
       seq (upd_file f1' (\<lambda>r. r\<lparr>ftype := FD_PIPE, freadable := False, fwritable := True, fpipe := pi\<rparr>))
       (ret (Some (f0', f1')))))))))"

end
