(* ===== verification/Life.thy ===== *)
theory Life
  imports File
begin

text \<open>
  The life of a process in \<^verbatim>\<open>kernel/proc.c\<close>: \<^verbatim>\<open>allocproc\<close>, \<^verbatim>\<open>freeproc\<close>, the user page table, the first process,
  \<^verbatim>\<open>growproc\<close>, \<^verbatim>\<open>fork\<close>, \<^verbatim>\<open>exit\<close> with the benchmark accounting, \<^verbatim>\<open>wait\<close>, \<^verbatim>\<open>wait_stat_internal\<close> and
  \<^verbatim>\<open>getptable\<close>.

  A trapframe is a page of physical memory; its fields are read and written at their offsets.
\<close>

section \<open>Trapframes\<close>

definition NOFILE :: nat where "NOFILE = 16"

definition tf_kernel_satp :: u64 where "tf_kernel_satp = 0"
definition tf_kernel_sp :: u64 where "tf_kernel_sp = 8"
definition tf_kernel_trap :: u64 where "tf_kernel_trap = 16"
definition tf_epc :: u64 where "tf_epc = 24"
definition tf_kernel_hartid :: u64 where "tf_kernel_hartid = 32"
definition tf_sp :: u64 where "tf_sp = 48"
definition tf_a0 :: u64 where "tf_a0 = 112"
definition tf_a1 :: u64 where "tf_a1 = 120"
definition tf_a7 :: u64 where "tf_a7 = 168"

definition tf_get :: "nat \<Rightarrow> u64 \<Rightarrow> ('x proc_st_scheme, u64) kop" where
  "tf_get p field = get (\<lambda>s. load64 (mem s) (trapframe (procs s p) + field))"

definition tf_set :: "nat \<Rightarrow> u64 \<Rightarrow> u64 \<Rightarrow> ('x proc_st_scheme, unit) kop" where
  "tf_set p field v = modify (\<lambda>s. s\<lparr>mem := store64 (mem s) (trapframe (procs s p) + field) v\<rparr>)"

section \<open>Allocation\<close>

definition proc_pagetable :: "nat \<Rightarrow> ('x proc_st_scheme, u64) kop" where
  "proc_pagetable p =
     bind uvmcreate (\<lambda>pt.
     if pt = 0 then ret 0
     else bind (get trampoline) (\<lambda>tr.
       bind (mappages pt TRAMPOLINE PGSIZE tr (PTE_R OR PTE_X)) (\<lambda>e.
       if e < 0 then seq (uvmfree pt 0) (ret 0)
       else bind (get (\<lambda>s. trapframe (procs s p))) (\<lambda>tf.
         bind (mappages pt TRAPFRAME PGSIZE tf (PTE_R OR PTE_W)) (\<lambda>e.
         if e < 0
         then seq (uvmunmap pt TRAMPOLINE 1 False) (seq (uvmfree pt 0) (ret 0))
         else ret pt)))))"

definition proc_freepagetable :: "u64 \<Rightarrow> u64 \<Rightarrow> ('x proc_st_scheme, unit) kop" where
  "proc_freepagetable pt n =
     seq (uvmunmap pt TRAMPOLINE 1 False) (
     seq (uvmunmap pt TRAPFRAME 1 False)
     (uvmfree pt n))"

definition freeproc :: "nat \<Rightarrow> ('x proc_st_scheme, unit) kop" where
  "freeproc p =
     bind (get (\<lambda>s. trapframe (procs s p))) (\<lambda>tf.
     seq (kwhen (tf \<noteq> 0) (kfree tf)) (
     seq (upd_proc p (\<lambda>r. r\<lparr>trapframe := 0\<rparr>)) (
     bind (get (\<lambda>s. procs s p)) (\<lambda>r.
     seq (kwhen (pagetable r \<noteq> 0) (proc_freepagetable (pagetable r) (sz r))) (
     bind (get ticks) (\<lambda>now.
     upd_proc p (\<lambda>r. r\<lparr>pagetable := 0, sz := 0, pid := 0, parent := None, pname := (pname r)(0 := 0),
       pchan := None, pkilled := False, xstate := 0, state := UNUSED, responded := False,
       completetime := ucast now\<rparr>)))))))"

text \<open>The scan of \<^verbatim>\<open>allocproc\<close> for an unused slot; the lock of the slot found stays held.\<close>

definition find_unused :: "('x proc_st_scheme, nat option) kop" where
  "find_unused =
     kfind (\<lambda>p.
       seq (acquire (ProcLock p)) (
       bind (get (\<lambda>s. state (procs s p))) (\<lambda>st.
       if st = UNUSED then ret (Some p)
       else seq (release (ProcLock p)) (ret None)))) [0..<NPROC]"

text \<open>\<open>forkret\<close> is the address of the function of that name.\<close>

definition allocproc :: "u64 \<Rightarrow> ('x proc_st_scheme, nat option) kop" where
  "allocproc forkret =
     bind find_unused (\<lambda>found.
     case found of
       None \<Rightarrow> ret None
     | Some p \<Rightarrow>
         bind allocpid (\<lambda>n.
         seq (upd_proc p (\<lambda>r. r\<lparr>pid := n\<rparr>)) (
         seq (upd_proc p (\<lambda>r. r\<lparr>state := USED\<rparr>)) (
         bind kalloc (\<lambda>tf.
         seq (upd_proc p (\<lambda>r. r\<lparr>trapframe := tf\<rparr>)) (
         if tf = 0 then seq (freeproc p) (seq (release (ProcLock p)) (ret None))
         else bind (proc_pagetable p) (\<lambda>pt.
           seq (upd_proc p (\<lambda>r. r\<lparr>pagetable := pt\<rparr>)) (
           if pt = 0 then seq (freeproc p) (seq (release (ProcLock p)) (ret None))
           else bind (get ticks) (\<lambda>now.
             seq (upd_proc p (\<lambda>r. r\<lparr>pctx := \<lparr>ctx_ra = forkret, ctx_sp = kstack r + PGSIZE\<rparr>,
                    ctime := ucast now, completetime := 0, priority := 0, rtime := 0\<rparr>))
             (ret (Some p)))))))))))"

text \<open>\<^verbatim>\<open>initcode[]\<close>\<close>

definition initcode :: "u8 list" where
  "initcode =
     [0x17, 0x05, 0x00, 0x00, 0x13, 0x05, 0x45, 0x02,
      0x97, 0x05, 0x00, 0x00, 0x93, 0x85, 0x35, 0x02,
      0x93, 0x08, 0x70, 0x00, 0x73, 0x00, 0x00, 0x00,
      0x93, 0x08, 0x20, 0x00, 0x73, 0x00, 0x00, 0x00,
      0xef, 0xf0, 0x9f, 0xff, 0x2f, 0x69, 0x6e, 0x69,
      0x74, 0x00, 0x00, 0x24, 0x00, 0x00, 0x00, 0x00,
      0x00, 0x00, 0x00, 0x00]"

text \<open>A string constant as a byte memory.\<close>

definition lit :: "string \<Rightarrow> nat memory" where
  "lit str = bytes_mem (cstr str)"

definition userinit :: "'x fs_st_scheme env \<Rightarrow> u64 \<Rightarrow> ('x fs_st_scheme, unit) kop" where
  "userinit E forkret =
     bind (allocproc forkret) (\<lambda>np.
     seq (modify (\<lambda>s. s\<lparr>initproc := np\<rparr>)) (
     bind (deref np) (\<lambda>p.
     bind (get (\<lambda>s. pagetable (procs s p))) (\<lambda>pt.
     seq (uvmfirst pt initcode) (
     seq (upd_proc p (\<lambda>r. r\<lparr>sz := PGSIZE\<rparr>)) (
     seq (tf_set p tf_epc 0) (
     seq (tf_set p tf_sp PGSIZE) (
     seq (upd_proc p (\<lambda>r. r\<lparr>pname := safestrcpy (pname r) 0 (lit ''initcode'') 0 16\<rparr>)) (
     bind (namei E (cstr ''/'')) (\<lambda>d.
     seq (upd_proc p (\<lambda>r. r\<lparr>cwd := d\<rparr>)) (
     seq (upd_proc p (\<lambda>r. r\<lparr>state := RUNNABLE\<rparr>))
     (release (ProcLock p)))))))))))))"

definition growproc :: "int \<Rightarrow> ('x proc_st_scheme, int) kop" where
  "growproc n =
     bind myproc (\<lambda>p.
     bind (deref p) (\<lambda>p.
     bind (get (\<lambda>s. procs s p)) (\<lambda>r.
     if n > 0
     then bind (uvmalloc (pagetable r) (sz r) (sz r + word_of_int n) PTE_W) (\<lambda>sz'.
          if sz' = 0 then ret (- 1)
          else seq (upd_proc p (\<lambda>r. r\<lparr>sz := sz'\<rparr>)) (ret 0))
     else if n < 0
     then bind (uvmdealloc (pagetable r) (sz r) (sz r + word_of_int n)) (\<lambda>sz'.
          seq (upd_proc p (\<lambda>r. r\<lparr>sz := sz'\<rparr>)) (ret 0))
     else seq (upd_proc p (\<lambda>q. q\<lparr>sz := sz r\<rparr>)) (ret 0))))"

section \<open>fork\<close>

text \<open>\<^verbatim>\<open>*(np->trapframe) = *(p->trapframe)\<close>\<close>

definition copy_trapframe :: "nat \<Rightarrow> nat \<Rightarrow> ('x proc_st_scheme, unit) kop" where
  "copy_trapframe p np =
     modify (\<lambda>s. s\<lparr>mem := store_bytes (mem s) (trapframe (procs s np))
       (load_bytes (mem s) (trapframe (procs s p)) 288)\<rparr>)"

definition fork :: "u64 \<Rightarrow> ('x file_st_scheme, int) kop" where
  "fork forkret =
     bind myproc (\<lambda>p.
     bind (allocproc forkret) (\<lambda>np.
     case np of
       None \<Rightarrow> ret (- 1)
     | Some np \<Rightarrow>
         bind (deref p) (\<lambda>p.
         bind (get procs) (\<lambda>P.
         bind (uvmcopy (pagetable (P p)) (pagetable (P np)) (sz (P p))) (\<lambda>e.
         if e < 0 then seq (freeproc np) (seq (release (ProcLock np)) (ret (- 1)))
         else
           seq (upd_proc np (\<lambda>r. r\<lparr>sz := sz (P p)\<rparr>)) (
           seq (copy_trapframe p np) (
           seq (tf_set np tf_a0 0) (
           seq (kfor (\<lambda>i.
             bind (get (\<lambda>s. ofile (procs s p) i)) (\<lambda>f.
             case f of
               None \<Rightarrow> ret ()
             | Some f \<Rightarrow> bind (filedup f) (\<lambda>f'. upd_proc np (\<lambda>r. r\<lparr>ofile := (ofile r)(i := Some f')\<rparr>))))
             [0..<NOFILE]) (
           bind (bind (get (\<lambda>s. cwd (procs s p))) deref) (\<lambda>d.
           bind (idup d) (\<lambda>d'.
           seq (upd_proc np (\<lambda>r. r\<lparr>cwd := Some d'\<rparr>)) (
           seq (bind (get (\<lambda>s. pname (procs s p))) (\<lambda>nm.
                  upd_proc np (\<lambda>r. r\<lparr>pname := safestrcpy (pname r) 0 nm 0 16\<rparr>))) (
           seq (bind (get (\<lambda>s. pname (procs s p))) (\<lambda>nm.
                  kwhen (strncmp nm 0 (lit ''schedbench'') 0 16 = 0) (
                    seq (upd_proc np (\<lambda>r. r\<lparr>is_benchmark_process := True\<rparr>))
                    (modify (\<lambda>s. s\<lparr>total_benchmark_processes := total_benchmark_processes s + 1\<rparr>))))) (
           bind (get (\<lambda>s. pid (procs s np))) (\<lambda>n.
           seq (release (ProcLock np)) (
           seq (acquire WaitLock) (
           seq (upd_proc np (\<lambda>r. r\<lparr>parent := Some p\<rparr>)) (
           seq (release WaitLock) (
           seq (acquire (ProcLock np)) (
           seq (upd_proc np (\<lambda>r. r\<lparr>state := RUNNABLE\<rparr>)) (
           seq (release (ProcLock np))
           (ret n))))))))))))))))))))))"

section \<open>exit\<close>

definition close_files :: "'x file_st_scheme env \<Rightarrow> nat \<Rightarrow> ('x file_st_scheme, unit) kop" where
  "close_files E p =
     kfor (\<lambda>fd.
       bind (get (\<lambda>s. ofile (procs s p) fd)) (\<lambda>f.
       case f of
         None \<Rightarrow> ret ()
       | Some f \<Rightarrow>
           seq (fileclose E f)
           (upd_proc p (\<lambda>r. r\<lparr>ofile := (ofile r)(fd := None)\<rparr>)))) [0..<NOFILE]"

text \<open>The metrics of an exiting process, and the totals of a benchmark run.\<close>

definition record_times :: "nat \<Rightarrow> ('x proc_st_scheme, unit) kop" where
  "record_times p =
     bind (get ticks) (\<lambda>now.
     seq (upd_proc p (\<lambda>r. r\<lparr>completetime := ucast now\<rparr>)) (
     seq (upd_proc p (\<lambda>r. r\<lparr>turnaround_time := completetime r - ctime r\<rparr>))
     (upd_proc p (\<lambda>r. r\<lparr>waiting_time := turnaround_time r - rtime r\<rparr>))))"

definition report_benchmark :: "('x proc_st_scheme, unit) kop" where
  "report_benchmark =
     bind (get (\<lambda>s. global_turnaround_time s div word_of_int (total_benchmark_processes s))) (\<lambda>avg_ta.
     bind (get (\<lambda>s. global_waiting_time s div word_of_int (total_benchmark_processes s))) (\<lambda>avg_wait.
     seq (printf ''\<newline>[Scheduler Benchmark Results]\<newline>'' []) (
     bind (get sched_mode) (\<lambda>mode.
     seq (printf ''Scheduler Mode: %d\<newline>'' [PVal (word_of_int mode)]) (
     seq (printf ''Average Turnaround Time: %d ticks\<newline>'' [PVal avg_ta]) (
     seq (printf ''Average Waiting Time: %d ticks\<newline>'' [PVal avg_wait]) (
     seq (printf ''-----------------------------\<newline>'' [])
     (modify (\<lambda>s. s\<lparr>global_turnaround_time := 0, global_waiting_time := 0,
        total_benchmark_processes := 0, completed_benchmark_processes := 0\<rparr>)))))))))"

definition account_benchmark :: "nat \<Rightarrow> ('x proc_st_scheme, unit) kop" where
  "account_benchmark p =
     bind (get (\<lambda>s. procs s p)) (\<lambda>r.
     kwhen (is_benchmark_process r) (
       seq (modify (\<lambda>s. s\<lparr>global_turnaround_time := global_turnaround_time s + turnaround_time r\<rparr>)) (
       seq (modify (\<lambda>s. s\<lparr>global_waiting_time := global_waiting_time s + waiting_time r\<rparr>)) (
       seq (modify (\<lambda>s. s\<lparr>completed_benchmark_processes := completed_benchmark_processes s + 1\<rparr>)) (
       bind (get (\<lambda>s. completed_benchmark_processes s = total_benchmark_processes s)) (\<lambda>all.
       kwhen all report_benchmark))))))"

definition exit :: "'x file_st_scheme env \<Rightarrow> int \<Rightarrow> ('x file_st_scheme, unit) kop" where
  "exit E status =
     bind myproc (\<lambda>me.
     bind (get initproc) (\<lambda>ip.
     seq (kwhen (me = ip) (panic ''init exiting'')) (
     bind (deref me) (\<lambda>p.
     seq (close_files E p) (
     seq (begin_op E) (
     seq (bind (bind (get (\<lambda>s. cwd (procs s p))) deref) (iput E)) (
     seq (end_op E) (
     seq (upd_proc p (\<lambda>r. r\<lparr>cwd := None\<rparr>)) (
     seq (acquire WaitLock) (
     seq (record_times p) (
     seq (account_benchmark p) (
     seq (reparent p) (
     seq (bind (get (\<lambda>s. parent (procs s p))) (\<lambda>q. wakeup (map_option ChProc q))) (
     seq (acquire (ProcLock p)) (
     seq (upd_proc p (\<lambda>r. r\<lparr>xstate := word_of_int status\<rparr>)) (
     seq (upd_proc p (\<lambda>r. r\<lparr>state := ZOMBIE\<rparr>)) (
     seq (release WaitLock) (
     seq (sched E)
     (panic ''zombie exit'')))))))))))))))))))"

section \<open>wait\<close>

text \<open>The scan of the process table; \<open>Inl\<close> is the value \<^verbatim>\<open>wait\<close> returns, after the release of the locks, and
  \<open>Inr\<close> is \<^verbatim>\<open>havekids\<close>.\<close>

definition wait_scan :: "u64 \<Rightarrow> nat \<Rightarrow> ('x proc_st_scheme, int + bool) kop" where
  "wait_scan addr p =
     kfold (\<lambda>pp acc.
       case acc of
         Inl r \<Rightarrow> ret (Inl r)
       | Inr havekids \<Rightarrow>
           bind (get (\<lambda>s. parent (procs s pp))) (\<lambda>par.
           if par \<noteq> Some p then ret (Inr havekids)
           else seq (acquire (ProcLock pp)) (
             bind (get (\<lambda>s. procs s pp)) (\<lambda>r.
             if state r = ZOMBIE
             then bind (get (\<lambda>s. pagetable (procs s p))) (\<lambda>pt.
                  bind (if addr \<noteq> 0 then copyout pt addr (le_bytes 4 (xstate r)) else ret 0) (\<lambda>e.
                  if e < 0
                  then seq (release (ProcLock pp)) (
                       seq (release WaitLock)
                       (ret (Inl (- 1))))
                  else seq (freeproc pp) (
                       seq (release (ProcLock pp)) (
                       seq (release WaitLock)
                       (ret (Inl (pid r)))))))
             else seq (release (ProcLock pp)) (ret (Inr True))))))
       [0..<NPROC] (Inr False)"

primrec wait_loop :: "nat \<Rightarrow> 'x proc_st_scheme env \<Rightarrow> u64 \<Rightarrow> nat \<Rightarrow> ('x proc_st_scheme, int) kop" where
  "wait_loop 0 E addr p = spin"
| "wait_loop (Suc k) E addr p =
     bind (wait_scan addr p) (\<lambda>res.
     case res of
       Inl r \<Rightarrow> ret r
     | Inr havekids \<Rightarrow>
         bind (if \<not> havekids then ret True else killed p) (\<lambda>stop.
         if stop then seq (release WaitLock) (ret (- 1))
         else seq (sleep E (ChProc p) WaitLock) (wait_loop k E addr p)))"

definition wait :: "'x proc_st_scheme env \<Rightarrow> u64 \<Rightarrow> ('x proc_st_scheme, int) kop" where
  "wait E addr =
     bind myproc (\<lambda>p.
     seq (acquire WaitLock) (
     bind (deref p) (\<lambda>p.
     bind (get (\<lambda>s. Suc (length (choices s)))) (\<lambda>fuel.
     wait_loop fuel E addr p))))"

record perf =
  perf_ctime :: u64
  perf_completetime :: u64
  perf_rtime :: u64
  perf_turnaround_time :: u64
  perf_waiting_time :: u64

text \<open>The result of \<^verbatim>\<open>wait_stat_internal\<close>: None is -1, otherwise the pid, the status and the times.\<close>

definition wait_stat_child ::
  "nat \<Rightarrow> nat \<Rightarrow> (int \<times> u32 \<times> perf) + bool \<Rightarrow> ('x proc_st_scheme, (int \<times> u32 \<times> perf) + bool) kop" where
  "wait_stat_child pp p acc = (case acc of
       Inl r \<Rightarrow> ret (Inl r)
     | Inr havekids \<Rightarrow>
         bind (get (\<lambda>s. parent (procs s p))) (\<lambda>par.
         if par \<noteq> Some pp then ret (Inr havekids)
         else seq (acquire (ProcLock p)) (
           bind (get (\<lambda>s. procs s p)) (\<lambda>r.
           if state r = ZOMBIE
           then seq (release (ProcLock p)) (
                seq (freeproc p) (
                seq (release WaitLock)
                (ret (Inl (pid r, xstate r, \<lparr>perf_ctime = ctime r, perf_completetime = completetime r,
                   perf_rtime = rtime r, perf_turnaround_time = turnaround_time r,
                   perf_waiting_time = waiting_time r\<rparr>)))))
           else seq (release (ProcLock p)) (ret (Inr True))))))"

definition wait_stat_scan :: "nat \<Rightarrow> ('x proc_st_scheme, (int \<times> u32 \<times> perf) + bool) kop" where
  "wait_stat_scan pp = kfold (wait_stat_child pp) [0..<NPROC] (Inr False)"

primrec wait_stat_loop ::
  "nat \<Rightarrow> 'x proc_st_scheme env \<Rightarrow> nat \<Rightarrow> ('x proc_st_scheme, (int \<times> u32 \<times> perf) option) kop" where
  "wait_stat_loop 0 E pp = spin"
| "wait_stat_loop (Suc k) E pp =
     seq (acquire WaitLock) (
     bind (wait_stat_scan pp) (\<lambda>res.
     case res of
       Inl r \<Rightarrow> ret (Some r)
     | Inr havekids \<Rightarrow>
         bind (get (\<lambda>s. pkilled (procs s pp))) (\<lambda>kl.
         if \<not> havekids \<or> kl then seq (release WaitLock) (ret None)
         else seq (printf ''About to sleep in wait_stat_internal\<newline>'' []) (
              seq (sleep E (ChProc pp) WaitLock)
              (wait_stat_loop k E pp)))))"

definition wait_stat_internal ::
  "'x proc_st_scheme env \<Rightarrow> ('x proc_st_scheme, (int \<times> u32 \<times> perf) option) kop" where
  "wait_stat_internal E =
     bind myproc (\<lambda>p.
     bind (deref p) (\<lambda>pp.
     bind (get (\<lambda>s. Suc (length (choices s)))) (\<lambda>fuel.
     wait_stat_loop fuel E pp)))"

section \<open>getptable\<close>

text \<open>
  The array \<^verbatim>\<open>pi\<close> is a byte memory with elements of 40 bytes; \<open>stack\<close> is what the stack held where it is
  allocated. An array larger than the page of the kernel stack overruns it.
\<close>

definition procstate_num :: "procstate \<Rightarrow> u32" where
  "procstate_num st = (case st of UNUSED \<Rightarrow> 0 | USED \<Rightarrow> 1 | SLEEPING \<Rightarrow> 2 | RUNNABLE \<Rightarrow> 3 | RUNNING \<Rightarrow> 4 | ZOMBIE \<Rightarrow> 5)"

definition put_info :: "(nat \<Rightarrow> proc) \<Rightarrow> proc \<Rightarrow> nat \<Rightarrow> nat memory \<Rightarrow> nat memory" where
  "put_info P r k a =
     (let ppid = (case parent r of Some q \<Rightarrow> pid (P q) | None \<Rightarrow> - 1);
          a = store32 a (40 * k) (word_of_int (pid r));
          a = store32 a (40 * k + 4) (word_of_int ppid);
          a = store32 a (40 * k + 8) (procstate_num (state r));
          a = safestrcpy a (40 * k + 12) (pname r) 0 16
      in store64 a (40 * k + 32) (sz r))"

definition getptable :: "nat memory \<Rightarrow> int \<Rightarrow> u64 \<Rightarrow> ('x proc_st_scheme, int) kop" where
  "getptable stack n addr =
     (if 40 * n > 4096 then undef
      else if n < 1 then ret 0
      else
        seq (acquire PtableLock) (
        bind (kfold (\<lambda>p (count, a).
            bind (get procs) (\<lambda>P.
            ret (if count < nat n \<and> state (P p) \<noteq> UNUSED then (count + 1, put_info P (P p) count a) else (count, a))))
          [0..<NPROC] (0, stack)) (\<lambda>(count, a).
        seq (release PtableLock) (
        bind myproc (\<lambda>p.
        bind (deref p) (\<lambda>p.
        bind (get (\<lambda>s. pagetable (procs s p))) (\<lambda>pt.
        bind (copyout pt addr (load_bytes a 0 (40 * count))) (\<lambda>e.
        ret (if e < 0 then 0 else 1)))))))))"

section \<open>Waiting for a child\<close>

lemma wait_stat_scan_alive:
  assumes "calm_hart p h" "hs s = acq WaitLock h" "\<forall>q\<in>set qs. parent (procs s q) = Some p \<longrightarrow> state (procs s q) \<noteq> ZOMBIE"
  shows "kfold (wait_stat_child p) qs (Inr k) s = Ret (Inr (k \<or> (\<exists>q\<in>set qs. parent (procs s q) = Some p))) s"
  using assms(3)
proof (induction qs arbitrary: k)
  case (Cons q qs)
  have "acquire (ProcLock q) s = Ret () (s\<lparr>hs := acq (ProcLock q) (hs s)\<rparr>)" using assms(1,2) by (simp add: lock_rules)
  moreover have "release (ProcLock q) (s\<lparr>hs := acq (ProcLock q) (hs s)\<rparr>) = Ret () s"
    using assms(1,2) by (simp add: lock_rules kst_hs_upd_id)
  ultimately show ?case using Cons by (auto simp: kexec wait_stat_child_def)
qed simp

text \<open>C26: \<^verbatim>\<open>wait_stat\<close> cannot wait. A caller with a child that has not exited goes to sleep with the lock \<^verbatim>\<open>wait_lock\<close>, which
  \<^verbatim>\<open>sleep\<close> takes again before it returns, and then acquires the lock a second time at the head of the loop: as
  soon as the process is woken, the kernel panics, whatever has happened in between.\<close>

theorem wait_stat_panics:
  assumes "calm p s" "same_hart E" "\<not> panicked s" "choices s = c # cs" "\<not> pkilled (procs s p)"
    and "q < NPROC" "parent (procs s q) = Some p" "\<forall>q<NPROC. parent (procs s q) = Some p \<longrightarrow> state (procs s q) \<noteq> ZOMBIE"
  shows "wait_stat_internal E s = Panic ''acquire''"
proof -
  let ?s = "s\<lparr>hs := acq WaitLock (hs s)\<rparr>"
  have scan: "wait_stat_scan p ?s = Ret (Inr True) ?s"
    unfolding wait_stat_scan_def using wait_stat_scan_alive [OF assms(1), of ?s "[0..<NPROC]" False] assms(6-8) by auto
  obtain cs' where "fmt_chars ''About to sleep in wait_stat_internal\<newline>'' [] = Some cs'"
    using fmt_chars_plain [of "''About to sleep in wait_stat_internal\<newline>''" "[]"] by auto
  then have pr: "printf ''About to sleep in wait_stat_internal\<newline>'' [] ?s = Ret () (emit cs' ?s)"
    using assms(1,3) by (intro printf_emits) (simp_all add: can_print_def)
  let ?t = "E c ((asleep p (ChProc p) (hs s) (emit cs' ?s))\<lparr>choices := cs\<rparr>)"
  have "sleep E (ChProc p) WaitLock (emit cs' ?s) =
      Ret () (?t\<lparr>procs := (procs ?t)(p := (procs ?t p)\<lparr>pchan := None\<rparr>), hs := acq WaitLock (hs s)\<rparr>)"
    using sleep_eq [of p "hs s" "emit cs' ?s" WaitLock E "ChProc p"] assms(1,2,4) by (simp add: Let_def emit_def)
  moreover have "acquire WaitLock (u\<lparr>hs := acq WaitLock (hs s)\<rparr>) = Panic ''acquire''" for u :: "'a proc_st_scheme"
    using assms(1) by (intro acquire_held) simp_all
  ultimately show ?thesis using scan pr assms(1,4,5)
    by (simp add: wait_stat_internal_def kexec lock_rules)
qed

theorem wait_stat_panics_witness:
  "wait_stat_internal (\<lambda>_ u. u) (fs_ex (\<lambda>_ _. 0) (\<lambda>_. inode0)\<lparr>choices := [0], procs := (\<lambda>_. proc0\<lparr>parent := Some 3\<rparr>)\<rparr>) =
    Panic ''acquire''"
  by (rule wait_stat_panics [where p = 3 and q = 0 and c = 0 and cs = "[]"])
    (simp_all add: same_hart_def NPROC_def proc0_def fs_ex_calm)

end
