(* ===== verification/Exec.thy ===== *)
theory Exec
  imports Life
begin

text \<open>
  \<^verbatim>\<open>kernel/exec.c\<close>, and the fetching of system call arguments from \<^verbatim>\<open>kernel/syscall.c\<close>. A string argument is
  the list of its bytes without the NUL.
\<close>

section \<open>System call arguments\<close>

definition MAXARG :: nat where "MAXARG = 32"
definition MAXPATH :: nat where "MAXPATH = 128"
definition USERSTACK :: u64 where "USERSTACK = 1"

definition fetchaddr :: "u64 \<Rightarrow> ('x proc_st_scheme, u64 option) kop" where
  "fetchaddr addr =
     bind myproc (\<lambda>p.
     bind (deref p) (\<lambda>p.
     bind (get (\<lambda>s. procs s p)) (\<lambda>r.
     if addr \<ge> sz r \<or> addr + 8 > sz r then ret None
     else bind (copyin (pagetable r) addr 8) (\<lambda>bs. ret (map_option of_le bs)))))"

definition fetchstr :: "u64 \<Rightarrow> nat \<Rightarrow> ('x proc_st_scheme, u8 list option) kop" where
  "fetchstr addr mx = bind my_pagetable (\<lambda>pt. copyinstr pt addr mx)"

definition argraw :: "nat \<Rightarrow> ('x proc_st_scheme, u64) kop" where
  "argraw n =
     bind myproc (\<lambda>p.
     if n \<le> 5 then bind (deref p) (\<lambda>p. tf_get p (tf_a0 + 8 * of_nat n))
     else panic ''argraw'')"

definition argint :: "nat \<Rightarrow> ('x proc_st_scheme, int) kop" where
  "argint n = bind (argraw n) (\<lambda>v. ret (sint (ucast v :: u32)))"

definition argaddr :: "nat \<Rightarrow> ('x proc_st_scheme, u64) kop" where
  "argaddr n = argraw n"

definition argstr :: "nat \<Rightarrow> nat \<Rightarrow> ('x proc_st_scheme, u8 list option) kop" where
  "argstr n mx = bind (argaddr n) (\<lambda>addr. fetchstr addr mx)"

section \<open>ELF files\<close>

definition ELF_MAGIC :: u32 where "ELF_MAGIC = 0x464C457F"
definition ELF_PROG_LOAD :: u32 where "ELF_PROG_LOAD = 1"

record elfhdr =
  e_magic :: u32
  e_entry :: u64
  e_phoff :: u64
  e_phnum :: u16

record proghdr =
  ph_type :: u32
  ph_flags :: u32
  ph_off :: u64
  ph_vaddr :: u64
  ph_filesz :: u64
  ph_memsz :: u64

text \<open>The fields the kernel reads, at their offsets in the 64 and 56 bytes of the headers.\<close>

definition elf_of :: "u8 list \<Rightarrow> elfhdr" where
  "elf_of bs = (let m = bytes_mem bs in
     \<lparr>e_magic = load32 m 0, e_entry = load64 m 24, e_phoff = load64 m 32, e_phnum = load16 m 56\<rparr>)"

definition ph_of :: "u8 list \<Rightarrow> proghdr" where
  "ph_of bs = (let m = bytes_mem bs in
     \<lparr>ph_type = load32 m 0, ph_flags = load32 m 4, ph_off = load64 m 8, ph_vaddr = load64 m 16,
      ph_filesz = load64 m 32, ph_memsz = load64 m 40\<rparr>)"

section \<open>exec\<close>

definition flags2perm :: "u32 \<Rightarrow> u64" where
  "flags2perm flags =
     (let perm = (if flags AND 1 \<noteq> 0 then PTE_X else 0)
      in if flags AND 2 \<noteq> 0 then perm OR PTE_W else perm)"

text \<open>The offsets \<^verbatim>\<open>i\<close> of \<^verbatim>\<open>for(i = 0; i < sz; i += PGSIZE)\<close> for a 32-bit \<^verbatim>\<open>sz\<close>. When \<^verbatim>\<open>i\<close> wraps around the loop
  would start again from 0; a readable segment of that size does not exist.\<close>

definition seg_offsets :: "nat \<Rightarrow> nat list" where
  "seg_offsets n = map (\<lambda>k. k * 4096) [0..<(n + 4095) div 4096]"

definition loadseg ::
  "'x fs_st_scheme env \<Rightarrow> u64 \<Rightarrow> u64 \<Rightarrow> nat \<Rightarrow> u32 \<Rightarrow> u32 \<Rightarrow> ('x fs_st_scheme, int) kop" where
  "loadseg E pt va ip pos n =
     bind (kfind (\<lambda>i.
         bind (walkaddr pt (va + of_nat i)) (\<lambda>pa.
         if pa = 0 then panic ''loadseg: address should exist''
         else let k = min (unat n - i) 4096 in
           bind (readi E ip (KernDst pa) (pos + of_nat i) (of_nat k)) (\<lambda>(r, _).
           ret (if r \<noteq> int k then Some (- 1) else None)))) (seg_offsets (unat n))) (\<lambda>r.
     ret (case r of Some e \<Rightarrow> e | None \<Rightarrow> 0))"

text \<open>The loop over the program headers; the result is the size so far and whether all segments loaded.\<close>

primrec exec_load ::
  "nat \<Rightarrow> 'x fs_st_scheme env \<Rightarrow> u64 \<Rightarrow> nat \<Rightarrow> u32 \<Rightarrow> u64 \<Rightarrow> ('x fs_st_scheme, u64 \<times> bool) kop" where
  "exec_load 0 E pt ip pos msz = ret (msz, True)"
| "exec_load (Suc k) E pt ip pos msz =
     bind (readi E ip LocalDst pos 56) (\<lambda>(r, bs).
     if r \<noteq> 56 then ret (msz, False)
     else let ph = ph_of bs in
       if ph_type ph \<noteq> ELF_PROG_LOAD then exec_load k E pt ip (pos + 56) msz
       else if ph_memsz ph < ph_filesz ph then ret (msz, False)
       else if ph_vaddr ph + ph_memsz ph < ph_vaddr ph then ret (msz, False)
       else if ph_vaddr ph mod PGSIZE \<noteq> 0 then ret (msz, False)
       else bind (uvmalloc pt msz (ph_vaddr ph + ph_memsz ph) (flags2perm (ph_flags ph))) (\<lambda>sz1.
         if sz1 = 0 then ret (msz, False)
         else bind (loadseg E pt (ph_vaddr ph) ip (ucast (ph_off ph)) (ucast (ph_filesz ph))) (\<lambda>e.
           if e < 0 then ret (sz1, False)
           else exec_load k E pt ip (pos + 56) sz1)))"

text \<open>The loop that pushes the argument strings: the stack pointer and \<^verbatim>\<open>ustack\<close>, or None for \<^verbatim>\<open>goto bad\<close>.\<close>

primrec push_args ::
  "u8 list list \<Rightarrow> u64 \<Rightarrow> u64 \<Rightarrow> u64 \<Rightarrow> u64 list \<Rightarrow> ('x kmem_st_scheme, (u64 \<times> u64 list) option) kop" where
  "push_args [] pt stackbase sp ustack = ret (Some (sp, ustack))"
| "push_args (a # argv) pt stackbase sp ustack =
     (if length ustack \<ge> MAXARG then ret None
      else let sp = sp - (of_nat (length a) + 1); sp = sp - sp mod 16 in
        if sp < stackbase then ret None
        else bind (copyout pt sp (a @ [0])) (\<lambda>e.
          if e < 0 then ret None
          else push_args argv pt stackbase sp (ustack @ [sp])))"

definition exec_bad ::
  "'x fs_st_scheme env \<Rightarrow> u64 \<Rightarrow> u64 \<Rightarrow> nat option \<Rightarrow> ('x fs_st_scheme, int) kop" where
  "exec_bad E pt msz ip =
     seq (kwhen (pt \<noteq> 0) (proc_freepagetable pt msz)) (
     seq (case ip of None \<Rightarrow> ret () | Some ip \<Rightarrow> seq (iunlockput E ip) (end_op E))
     (ret (- 1)))"

text \<open>The part of the path after the last slash.\<close>

definition last_elem :: "u8 list \<Rightarrow> u8 list" where
  "last_elem path = rev (takeWhile (\<lambda>c. c \<noteq> slash) (rev path))"

text \<open>The new image: stack, arguments and registers.\<close>

definition exec_image ::
  "'x fs_st_scheme env \<Rightarrow> nat \<Rightarrow> u8 list \<Rightarrow> u8 list list \<Rightarrow> u64 \<Rightarrow> u64 \<Rightarrow> u64 \<Rightarrow> ('x fs_st_scheme, int) kop" where
  "exec_image E p path argv entry pt msz =
     bind (get (\<lambda>s. sz (procs s p))) (\<lambda>oldsz.
     let msz = PGROUNDUP msz in
     bind (uvmalloc pt msz (msz + (USERSTACK + 1) * PGSIZE) PTE_W) (\<lambda>sz1.
     if sz1 = 0 then exec_bad E pt msz None
     else
       seq (uvmclear pt (sz1 - (USERSTACK + 1) * PGSIZE)) (
       let stackbase = sz1 - USERSTACK * PGSIZE in
       bind (push_args argv pt stackbase sz1 []) (\<lambda>r.
       case r of
         None \<Rightarrow> exec_bad E pt sz1 None
       | Some (sp, ustack) \<Rightarrow>
           if length ustack \<ge> MAXARG then undef
           else let ustack = ustack @ [0];
                    sp = sp - of_nat (length ustack) * 8;
                    sp = sp - sp mod 16 in
             if sp < stackbase then exec_bad E pt sz1 None
             else bind (copyout pt sp (concat (map (le_bytes 8) ustack))) (\<lambda>e.
               if e < 0 then exec_bad E pt sz1 None
               else
                 seq (tf_set p tf_a1 sp) (
                 seq (upd_proc p (\<lambda>r. r\<lparr>pname := safestrcpy (pname r) 0 (bytes_mem (last_elem path)) 0 16\<rparr>)) (
                 bind (get (\<lambda>s. pagetable (procs s p))) (\<lambda>old.
                 seq (upd_proc p (\<lambda>r. r\<lparr>pagetable := pt\<rparr>)) (
                 seq (upd_proc p (\<lambda>r. r\<lparr>sz := sz1\<rparr>)) (
                 seq (tf_set p tf_epc entry) (
                 seq (tf_set p tf_sp sp) (
                 seq (proc_freepagetable old oldsz)
                 (ret (int (length argv)))))))))))))))"

definition exec :: "'x fs_st_scheme env \<Rightarrow> u8 list \<Rightarrow> u8 list list \<Rightarrow> ('x fs_st_scheme, int) kop" where
  "exec E path argv =
     bind myproc (\<lambda>me.
     seq (begin_op E) (
     bind (namei E path) (\<lambda>n.
     case n of
       None \<Rightarrow> seq (end_op E) (ret (- 1))
     | Some ip \<Rightarrow>
         seq (ilock E (Some ip)) (
         bind (readi E ip LocalDst 0 64) (\<lambda>(r, bs).
         let elf = elf_of bs in
         if r \<noteq> 64 \<or> e_magic elf \<noteq> ELF_MAGIC then exec_bad E 0 0 (Some ip)
         else bind (deref me) (\<lambda>p.
           bind (proc_pagetable p) (\<lambda>pt.
           if pt = 0 then exec_bad E 0 0 (Some ip)
           else bind (exec_load (unat (e_phnum elf)) E pt ip (ucast (e_phoff elf)) 0) (\<lambda>(msz, ok).
             if \<not> ok then exec_bad E pt msz (Some ip)
             else
               seq (iunlockput E ip) (
               seq (end_op E)
               (exec_image E p path argv (e_entry elf) pt msz))))))))))"

end
