(* ===== verification/Sysfile.thy ===== *)
theory Sysfile
  imports Exec
begin

text \<open>
  \<^verbatim>\<open>kernel/sysfile.c\<close>: the system calls on files. A handler returns the \<^verbatim>\<open>uint64\<close> that goes into register
  a0; the buffers for path names are not zeroed by the code, and nothing reads beyond the NUL.
\<close>

section \<open>Descriptors\<close>

definition argfd :: "nat \<Rightarrow> ('x proc_st_scheme, (nat \<times> nat) option) kop" where
  "argfd n =
     bind (argint n) (\<lambda>fd.
     if fd < 0 \<or> fd \<ge> int NOFILE then ret None
     else bind myproc (\<lambda>p.
       bind (deref p) (\<lambda>p.
       bind (get (\<lambda>s. ofile (procs s p) (nat fd))) (\<lambda>f.
       ret (map_option (Pair (nat fd)) f)))))"

definition set_ofile :: "nat \<Rightarrow> nat \<Rightarrow> nat option \<Rightarrow> ('x proc_st_scheme, unit) kop" where
  "set_ofile p fd f = upd_proc p (\<lambda>r. r\<lparr>ofile := (ofile r)(fd := f)\<rparr>)"

definition fdalloc :: "nat \<Rightarrow> ('x proc_st_scheme, nat option) kop" where
  "fdalloc f =
     bind myproc (\<lambda>p.
     bind (deref p) (\<lambda>p.
     bind (get (\<lambda>s. first_idx (\<lambda>fd. ofile (procs s p) fd = None) NOFILE)) (\<lambda>fd.
     case fd of
       None \<Rightarrow> ret None
     | Some fd \<Rightarrow> seq (set_ofile p fd (Some f)) (ret (Some fd)))))"

definition sys_dup :: "('x file_st_scheme, u64) kop" where
  "sys_dup =
     bind (argfd 0) (\<lambda>a.
     case a of
       None \<Rightarrow> ret (- 1)
     | Some (_, f) \<Rightarrow>
         bind (fdalloc f) (\<lambda>fd.
         case fd of
           None \<Rightarrow> ret (- 1)
         | Some fd \<Rightarrow> bind (filedup f) (\<lambda>_. ret (of_nat fd))))"

definition sys_read :: "'x file_st_scheme env \<Rightarrow> ('x file_st_scheme, u64) kop" where
  "sys_read E =
     bind (argaddr 1) (\<lambda>p.
     bind (argint 2) (\<lambda>n.
     bind (argfd 0) (\<lambda>a.
     case a of
       None \<Rightarrow> ret (- 1)
     | Some (_, f) \<Rightarrow> bind (fileread E f p n) (\<lambda>r. ret (word_of_int r)))))"

definition sys_write :: "'x file_st_scheme env \<Rightarrow> ('x file_st_scheme, u64) kop" where
  "sys_write E =
     bind (argaddr 1) (\<lambda>p.
     bind (argint 2) (\<lambda>n.
     bind (argfd 0) (\<lambda>a.
     case a of
       None \<Rightarrow> ret (- 1)
     | Some (_, f) \<Rightarrow> bind (filewrite E f p n) (\<lambda>r. ret (word_of_int r)))))"

definition sys_close :: "'x file_st_scheme env \<Rightarrow> ('x file_st_scheme, u64) kop" where
  "sys_close E =
     bind (argfd 0) (\<lambda>a.
     case a of
       None \<Rightarrow> ret (- 1)
     | Some (fd, f) \<Rightarrow>
         bind myproc (\<lambda>p.
         bind (deref p) (\<lambda>p.
         seq (set_ofile p fd None) (
         seq (fileclose E f)
         (ret 0)))))"

definition sys_fstat :: "'x file_st_scheme env \<Rightarrow> u8 list \<Rightarrow> ('x file_st_scheme, u64) kop" where
  "sys_fstat E pad =
     bind (argaddr 1) (\<lambda>st.
     bind (argfd 0) (\<lambda>a.
     case a of
       None \<Rightarrow> ret (- 1)
     | Some (_, f) \<Rightarrow> bind (filestat E pad f st) (\<lambda>r. ret (word_of_int r))))"

section \<open>Links\<close>

definition end_fail :: "'x log_st_scheme env \<Rightarrow> ('x log_st_scheme, u64) kop" where
  "end_fail E = seq (end_op E) (ret (- 1))"

definition add_nlink :: "nat \<Rightarrow> u16 \<Rightarrow> ('x fs_st_scheme, unit) kop" where
  "add_nlink ip d = upd_inode ip (\<lambda>r. r\<lparr>nlink := nlink r + d\<rparr>)"

definition link_bad :: "'x fs_st_scheme env \<Rightarrow> nat \<Rightarrow> ('x fs_st_scheme, u64) kop" where
  "link_bad E ip =
     seq (ilock E (Some ip)) (
     seq (add_nlink ip (- 1)) (
     seq (iupdate E ip) (
     seq (iunlockput E ip)
     (end_fail E))))"

definition sys_link :: "'x fs_st_scheme env \<Rightarrow> ('x fs_st_scheme, u64) kop" where
  "sys_link E =
     bind (argstr 0 MAXPATH) (\<lambda>old.
     case old of None \<Rightarrow> ret (- 1)
     | Some old \<Rightarrow>
     bind (argstr 1 MAXPATH) (\<lambda>new.
     case new of None \<Rightarrow> ret (- 1)
     | Some new \<Rightarrow>
     seq (begin_op E) (
     bind (namei E old) (\<lambda>ip.
     case ip of None \<Rightarrow> end_fail E
     | Some ip \<Rightarrow>
     seq (ilock E (Some ip)) (
     bind (get (\<lambda>s. itype (itable s ip))) (\<lambda>t.
     if t = T_DIR then seq (iunlockput E ip) (end_fail E)
     else
       seq (add_nlink ip 1) (
       seq (iupdate E ip) (
       seq (iunlock (Some ip)) (
       bind (nameiparent E new (\<lambda>_. 0)) (\<lambda>(dp, name).
       case dp of None \<Rightarrow> link_bad E ip
       | Some dp \<Rightarrow>
       seq (ilock E (Some dp)) (
       bind (get (\<lambda>s. idev (itable s dp) \<noteq> idev (itable s ip))) (\<lambda>other.
       bind (if other then ret (- 1)
             else bind (get (\<lambda>s. inum (itable s ip))) (\<lambda>n. dirlink E dp name n)) (\<lambda>e.
       if e < 0 then seq (iunlockput E dp) (link_bad E ip)
       else
         seq (iunlockput E dp) (
         seq (iput E ip) (
         seq (end_op E)
         (ret 0))))))))))))))))"

definition isdirempty :: "'x fs_st_scheme env \<Rightarrow> nat \<Rightarrow> ('x fs_st_scheme, bool) kop" where
  "isdirempty E dp =
     bind (get (\<lambda>s. unat (isize (itable s dp)))) (\<lambda>n.
     bind (kfind (\<lambda>pos.
         bind (read_dirent E dp pos ''isdirempty: readi'') (\<lambda>de.
         ret (if de_inum de \<noteq> 0 then Some () else None))) (drop 2 (dir_offsets n))) (\<lambda>r.
     ret (r = None)))"

definition unlink_bad :: "'x fs_st_scheme env \<Rightarrow> nat \<Rightarrow> ('x fs_st_scheme, u64) kop" where
  "unlink_bad E dp = seq (iunlockput E dp) (end_fail E)"

text \<open>The part of \<^verbatim>\<open>sys_unlink\<close> after the entry has been found, with both inodes locked.\<close>

definition unlink_entry ::
  "'x fs_st_scheme env \<Rightarrow> nat \<Rightarrow> nat \<Rightarrow> u32 \<Rightarrow> ('x fs_st_scheme, u64) kop" where
  "unlink_entry E dp ip pos =
     bind (writei E dp (LocalSrc (replicate 16 0)) pos (of_nat DIRENT)) (\<lambda>r.
     seq (kwhen (r \<noteq> int DIRENT) (panic ''unlink: writei'')) (
     bind (get (\<lambda>s. itype (itable s ip))) (\<lambda>t.
     seq (kwhen (t = T_DIR) (seq (add_nlink dp (- 1)) (iupdate E dp))) (
     seq (iunlockput E dp) (
     seq (add_nlink ip (- 1)) (
     seq (iupdate E ip) (
     seq (iunlockput E ip) (
     seq (end_op E)
     (ret 0)))))))))"

definition sys_unlink :: "'x fs_st_scheme env \<Rightarrow> ('x fs_st_scheme, u64) kop" where
  "sys_unlink E =
     bind (argstr 0 MAXPATH) (\<lambda>path.
     case path of None \<Rightarrow> ret (- 1)
     | Some path \<Rightarrow>
     seq (begin_op E) (
     bind (nameiparent E path (\<lambda>_. 0)) (\<lambda>(dp, name).
     case dp of None \<Rightarrow> end_fail E
     | Some dp \<Rightarrow>
     seq (ilock E (Some dp)) (
     if namecmp name (lit ''.'') = 0 \<or> namecmp name (lit ''..'') = 0 then unlink_bad E dp
     else bind (dirlookup E dp name) (\<lambda>found.
       case found of None \<Rightarrow> unlink_bad E dp
       | Some (ip, pos) \<Rightarrow>
       seq (ilock E (Some ip)) (
       bind (get (\<lambda>s. itable s ip)) (\<lambda>r.
       seq (kwhen (sint (nlink r) < 1) (panic ''unlink: nlink < 1'')) (
       bind (if itype r = T_DIR then isdirempty E ip else ret True) (\<lambda>ok.
       if \<not> ok then seq (iunlockput E ip) (unlink_bad E dp)
       else unlink_entry E dp ip pos)))))))))"

section \<open>Creation\<close>

definition create_fail :: "'x fs_st_scheme env \<Rightarrow> nat \<Rightarrow> nat \<Rightarrow> ('x fs_st_scheme, nat option) kop" where
  "create_fail E ip dp =
     seq (upd_inode ip (\<lambda>r. r\<lparr>nlink := 0\<rparr>)) (
     seq (iupdate E ip) (
     seq (iunlockput E ip) (
     seq (iunlockput E dp)
     (ret None))))"

text \<open>The entries of a new inode: its own dot entries when it is a directory, and its name in the parent.\<close>

definition create_link ::
  "'x fs_st_scheme env \<Rightarrow> nat \<Rightarrow> nat \<Rightarrow> nat memory \<Rightarrow> u16 \<Rightarrow> ('x fs_st_scheme, nat option) kop" where
  "create_link E dp ip name ty =
     bind (get (\<lambda>s. inum (itable s ip))) (\<lambda>n.
     bind (get (\<lambda>s. inum (itable s dp))) (\<lambda>m.
     bind (if ty = T_DIR
           then bind (dirlink E ip (lit ''.'') n) (\<lambda>e.
                if e < 0 then ret False
                else bind (dirlink E ip (lit ''..'') m) (\<lambda>e. ret (\<not> e < 0)))
           else ret True) (\<lambda>ok.
     if \<not> ok then create_fail E ip dp
     else bind (dirlink E dp name n) (\<lambda>e.
       if e < 0 then create_fail E ip dp
       else
         seq (kwhen (ty = T_DIR) (seq (add_nlink dp 1) (iupdate E dp))) (
         seq (iunlockput E dp)
         (ret (Some ip)))))))"

definition create ::
  "'x fs_st_scheme env \<Rightarrow> u8 list \<Rightarrow> u16 \<Rightarrow> u16 \<Rightarrow> u16 \<Rightarrow> ('x fs_st_scheme, nat option) kop" where
  "create E path ty maj mnr =
     bind (nameiparent E path (\<lambda>_. 0)) (\<lambda>(dp, name).
     case dp of None \<Rightarrow> ret None
     | Some dp \<Rightarrow>
     seq (ilock E (Some dp)) (
     bind (dirlookup E dp name) (\<lambda>found.
     case found of
       Some (ip, _) \<Rightarrow>
         seq (iunlockput E dp) (
         seq (ilock E (Some ip)) (
         bind (get (\<lambda>s. itype (itable s ip))) (\<lambda>t.
         if ty = T_FILE \<and> (t = T_FILE \<or> t = T_DEVICE) then ret (Some ip)
         else seq (iunlockput E ip) (ret None))))
     | None \<Rightarrow>
         bind (get (\<lambda>s. idev (itable s dp))) (\<lambda>dev.
         bind (ialloc E dev ty) (\<lambda>n.
         case n of
           None \<Rightarrow> seq (iunlockput E dp) (ret None)
         | Some ip \<Rightarrow>
             seq (ilock E (Some ip)) (
             seq (upd_inode ip (\<lambda>r. r\<lparr>imajor := maj, iminor := mnr, nlink := 1\<rparr>)) (
             seq (iupdate E ip)
             (create_link E dp ip name ty))))))))"

definition O_RDONLY :: u32 where "O_RDONLY = 0"
definition O_WRONLY :: u32 where "O_WRONLY = 1"
definition O_RDWR :: u32 where "O_RDWR = 2"
definition O_CREATE :: u32 where "O_CREATE = 0x200"
definition O_TRUNC :: u32 where "O_TRUNC = 0x400"

text \<open>The inode to open, locked, or None after the end of the operation.\<close>

definition open_inode ::
  "'x fs_st_scheme env \<Rightarrow> u8 list \<Rightarrow> u32 \<Rightarrow> ('x fs_st_scheme, nat option) kop" where
  "open_inode E path omode =
     (if omode AND O_CREATE \<noteq> 0
      then bind (create E path T_FILE 0 0) (\<lambda>ip.
           seq (kwhen (ip = None) (end_op E)) (ret ip))
      else bind (namei E path) (\<lambda>ip.
           case ip of None \<Rightarrow> seq (end_op E) (ret None)
           | Some ip \<Rightarrow>
           seq (ilock E (Some ip)) (
           bind (get (\<lambda>s. itype (itable s ip))) (\<lambda>t.
           if t = T_DIR \<and> omode \<noteq> O_RDONLY
           then seq (iunlockput E ip) (seq (end_op E) (ret None))
           else ret (Some ip)))))"

definition open_fail :: "'x fs_st_scheme env \<Rightarrow> nat \<Rightarrow> ('x fs_st_scheme, u64) kop" where
  "open_fail E ip = seq (iunlockput E ip) (end_fail E)"

definition sys_open :: "'x file_st_scheme env \<Rightarrow> ('x file_st_scheme, u64) kop" where
  "sys_open E =
     bind (argint 1) (\<lambda>om.
     let omode = word_of_int om :: u32 in
     bind (argstr 0 MAXPATH) (\<lambda>path.
     case path of None \<Rightarrow> ret (- 1)
     | Some path \<Rightarrow>
     seq (begin_op E) (
     bind (open_inode E path omode) (\<lambda>ip.
     case ip of None \<Rightarrow> ret (- 1)
     | Some ip \<Rightarrow>
     bind (get (\<lambda>s. itable s ip)) (\<lambda>r.
     if itype r = T_DEVICE \<and> (sint (imajor r) < 0 \<or> sint (imajor r) \<ge> int NDEV) then open_fail E ip
     else bind filealloc (\<lambda>f.
       case f of None \<Rightarrow> open_fail E ip
       | Some f \<Rightarrow>
       bind (fdalloc f) (\<lambda>fd.
       case fd of None \<Rightarrow> seq (fileclose E f) (open_fail E ip)
       | Some fd \<Rightarrow>
       bind (get (\<lambda>s. itable s ip)) (\<lambda>r.
       seq (if itype r = T_DEVICE
            then upd_file f (\<lambda>q. q\<lparr>ftype := FD_DEVICE, fmajor := imajor r\<rparr>)
            else upd_file f (\<lambda>q. q\<lparr>ftype := FD_INODE, foff := 0\<rparr>)) (
       seq (upd_file f (\<lambda>q. q\<lparr>fip := Some ip, freadable := (omode AND O_WRONLY = 0),
              fwritable := (omode AND O_WRONLY \<noteq> 0 \<or> omode AND O_RDWR \<noteq> 0)\<rparr>)) (
       seq (kwhen (omode AND O_TRUNC \<noteq> 0 \<and> itype r = T_FILE) (itrunc E ip)) (
       seq (iunlock (Some ip)) (
       seq (end_op E)
       (ret (of_nat fd))))))))))))))"

definition sys_mkdir :: "'x fs_st_scheme env \<Rightarrow> ('x fs_st_scheme, u64) kop" where
  "sys_mkdir E =
     seq (begin_op E) (
     bind (argstr 0 MAXPATH) (\<lambda>path.
     case path of None \<Rightarrow> end_fail E
     | Some path \<Rightarrow>
     bind (create E path T_DIR 0 0) (\<lambda>ip.
     case ip of None \<Rightarrow> end_fail E
     | Some ip \<Rightarrow>
     seq (iunlockput E ip) (
     seq (end_op E)
     (ret 0)))))"

definition sys_mknod :: "'x fs_st_scheme env \<Rightarrow> ('x fs_st_scheme, u64) kop" where
  "sys_mknod E =
     seq (begin_op E) (
     bind (argint 1) (\<lambda>maj.
     bind (argint 2) (\<lambda>mnr.
     bind (argstr 0 MAXPATH) (\<lambda>path.
     case path of None \<Rightarrow> end_fail E
     | Some path \<Rightarrow>
     bind (create E path T_DEVICE (word_of_int maj) (word_of_int mnr)) (\<lambda>ip.
     case ip of None \<Rightarrow> end_fail E
     | Some ip \<Rightarrow>
     seq (iunlockput E ip) (
     seq (end_op E)
     (ret 0)))))))"

definition sys_chdir :: "'x fs_st_scheme env \<Rightarrow> ('x fs_st_scheme, u64) kop" where
  "sys_chdir E =
     bind myproc (\<lambda>p.
     seq (begin_op E) (
     bind (argstr 0 MAXPATH) (\<lambda>path.
     case path of None \<Rightarrow> end_fail E
     | Some path \<Rightarrow>
     bind (namei E path) (\<lambda>ip.
     case ip of None \<Rightarrow> end_fail E
     | Some ip \<Rightarrow>
     seq (ilock E (Some ip)) (
     bind (get (\<lambda>s. itype (itable s ip))) (\<lambda>t.
     if t \<noteq> T_DIR then seq (iunlockput E ip) (end_fail E)
     else
       seq (iunlock (Some ip)) (
       bind (deref p) (\<lambda>p.
       bind (bind (get (\<lambda>s. cwd (procs s p))) deref) (\<lambda>d.
       seq (iput E d) (
       seq (end_op E) (
       seq (upd_proc p (\<lambda>r. r\<lparr>cwd := Some ip\<rparr>))
       (ret 0))))))))))))"

section \<open>exec and pipe\<close>

text \<open>
  The loop of \<^verbatim>\<open>sys_exec\<close> from index \<open>i\<close>, with \<open>k\<close> free elements in \<^verbatim>\<open>argv\<close>: the strings with the pages that
  hold them, and whether the terminating null pointer was reached.
\<close>

primrec exec_args ::
  "nat \<Rightarrow> u64 \<Rightarrow> nat \<Rightarrow> ('x proc_st_scheme, (u64 \<times> u8 list) list \<times> bool) kop" where
  "exec_args 0 uargv i = ret ([], False)"
| "exec_args (Suc k) uargv i =
     bind (fetchaddr (uargv + 8 * of_nat i)) (\<lambda>r.
     case r of None \<Rightarrow> ret ([], False)
     | Some uarg \<Rightarrow>
     if uarg = 0 then ret ([], True)
     else bind kalloc (\<lambda>pg.
       if pg = 0 then ret ([], False)
       else bind (fetchstr uarg 4096) (\<lambda>r.
         case r of None \<Rightarrow> ret ([(pg, [])], False)
         | Some a \<Rightarrow>
         seq (modify (\<lambda>s. s\<lparr>mem := store_bytes (mem s) pg (a @ [0])\<rparr>)) (
         bind (exec_args k uargv (Suc i)) (\<lambda>(rest, ok).
         ret ((pg, a) # rest, ok))))))"

definition sys_exec :: "'x fs_st_scheme env \<Rightarrow> ('x fs_st_scheme, u64) kop" where
  "sys_exec E =
     bind (argaddr 1) (\<lambda>uargv.
     bind (argstr 0 MAXPATH) (\<lambda>path.
     case path of None \<Rightarrow> ret (- 1)
     | Some path \<Rightarrow>
     bind (exec_args MAXARG uargv 0) (\<lambda>(argv, ok).
     bind (if ok then exec E path (map snd argv) else ret (- 1)) (\<lambda>r.
     seq (kfor (\<lambda>(pg, _). kfree pg) argv)
     (ret (word_of_int r))))))"

definition pipe_fail :: "'x file_st_scheme env \<Rightarrow> nat \<Rightarrow> nat \<Rightarrow> ('x file_st_scheme, u64) kop" where
  "pipe_fail E rfl wfl =
     seq (fileclose E rfl) (
     seq (fileclose E wfl)
     (ret (- 1)))"

definition sys_pipe :: "'x file_st_scheme env \<Rightarrow> ('x file_st_scheme, u64) kop" where
  "sys_pipe E =
     bind myproc (\<lambda>p.
     bind (argaddr 0) (\<lambda>fdarray.
     bind (pipealloc E) (\<lambda>a.
     case a of None \<Rightarrow> ret (- 1)
     | Some (rfl, wfl) \<Rightarrow>
     bind (deref p) (\<lambda>p.
     bind (fdalloc rfl) (\<lambda>fd0.
     case fd0 of None \<Rightarrow> pipe_fail E rfl wfl
     | Some fd0 \<Rightarrow>
     bind (fdalloc wfl) (\<lambda>fd1.
     case fd1 of None \<Rightarrow> seq (set_ofile p fd0 None) (pipe_fail E rfl wfl)
     | Some fd1 \<Rightarrow>
     bind (get (\<lambda>s. pagetable (procs s p))) (\<lambda>pt.
     bind (copyout pt fdarray (le_bytes 4 (of_nat fd0 :: u32))) (\<lambda>e.
     bind (if e < 0 then ret e else copyout pt (fdarray + 4) (le_bytes 4 (of_nat fd1 :: u32))) (\<lambda>e.
     if e < 0
     then seq (set_ofile p fd0 None) (
          seq (set_ofile p fd1 None)
          (pipe_fail E rfl wfl))
     else ret 0)))))))))"

end
