(* ===== verification/Sysproc.thy ===== *)
theory Sysproc
  imports Sysfile
begin

text \<open>
  \<^verbatim>\<open>kernel/sysproc.c\<close> and \<^verbatim>\<open>kernel/sysutil.c\<close>: the system calls on processes, scheduling, the clock and the
  counters. \<open>mtime\<close> is the timer register at \<^verbatim>\<open>CLINT_MTIME\<close>; \<^verbatim>\<open>BOOT_EPOCH\<close>, which the Makefile defines, is a
  parameter of \<open>sys_datetime\<close>.
\<close>

section \<open>State\<close>

record sys_st = file_st +
  syscall_counter :: u32
  seed :: u32
  mtime :: u64

section \<open>Processes\<close>

definition sys_schedstats :: "('x proc_st_scheme, u64) kop" where
  "sys_schedstats =
     bind (argint 0) (\<lambda>mode.
     if mode < 0 \<or> mode > 2 then ret (- 1)
     else
       seq (modify (\<lambda>s. s\<lparr>sched_mode := mode\<rparr>)) (
       seq (modify (\<lambda>s. s\<lparr>global_turnaround_time := 0, global_waiting_time := 0,
              total_benchmark_processes := 0, completed_benchmark_processes := 0\<rparr>)) (
       bind (get sched_mode) (\<lambda>m.
       seq (if m = SCHED_ROUND_ROBIN then printf ''Scheduler mode set to: Round Robin\<newline>'' []
            else if m = SCHED_FCFS then printf ''Scheduler mode set to: FCFS\<newline>'' []
            else if m = SCHED_PRIORITY then printf ''Scheduler mode set to: Priority\<newline>'' []
            else printf ''Unknown scheduler mode!\<newline>'' [])
       (ret 0)))))"

definition perf_bytes :: "perf \<Rightarrow> u8 list" where
  "perf_bytes p = le_bytes 8 (perf_ctime p) @ le_bytes 8 (perf_completetime p) @ le_bytes 8 (perf_rtime p) @
     le_bytes 8 (perf_turnaround_time p) @ le_bytes 8 (perf_waiting_time p)"

definition sys_wait_stat :: "'x proc_st_scheme env \<Rightarrow> ('x proc_st_scheme, u64) kop" where
  "sys_wait_stat E =
     bind (argaddr 0) (\<lambda>status_addr.
     bind (argaddr 1) (\<lambda>perf_addr.
     bind (wait_stat_internal E) (\<lambda>r.
     case r of None \<Rightarrow> ret (- 1)
     | Some (n, status, p) \<Rightarrow>
     if n < 0 then ret (- 1)
     else bind my_pagetable (\<lambda>pt.
       bind (copyout pt status_addr (le_bytes 4 status)) (\<lambda>e.
       if e < 0 then ret (- 1)
       else bind my_pagetable (\<lambda>pt.
         bind (copyout pt perf_addr (perf_bytes p)) (\<lambda>e.
         ret (if e < 0 then - 1 else word_of_int n))))))))"

definition sys_getptable :: "nat memory \<Rightarrow> ('x proc_st_scheme, u64) kop" where
  "sys_getptable stack =
     bind (argint 0) (\<lambda>n.
     bind (argaddr 1) (\<lambda>addr.
     bind (getptable stack n addr) (\<lambda>r. ret (word_of_int r))))"

definition sys_getppid :: "('x proc_st_scheme, u64) kop" where
  "sys_getppid =
     bind myproc (\<lambda>p.
     bind (deref p) (\<lambda>p.
     bind (bind (get (\<lambda>s. parent (procs s p))) deref) (\<lambda>q.
     get (\<lambda>s. word_of_int (pid (procs s q))))))"

definition sys_setpriority :: "('x proc_st_scheme, u64) kop" where
  "sys_setpriority =
     bind (argint 0) (\<lambda>n.
     bind (argint 1) (\<lambda>prio.
     bind (kfind (\<lambda>p.
         seq (acquire (ProcLock p)) (
         bind (get (\<lambda>s. pid (procs s p))) (\<lambda>m.
         if m = n
         then seq (upd_proc p (\<lambda>r. r\<lparr>priority := prio\<rparr>)) (
              seq (release (ProcLock p))
              (ret (Some 0)))
         else seq (release (ProcLock p)) (ret None)))) [0..<NPROC]) (\<lambda>r.
     ret (case r of Some v \<Rightarrow> v | None \<Rightarrow> - 1))))"

definition sys_exit :: "'x file_st_scheme env \<Rightarrow> ('x file_st_scheme, u64) kop" where
  "sys_exit E = bind (argint 0) (\<lambda>n. seq (exit E n) (ret 0))"

definition sys_getpid :: "('x proc_st_scheme, u64) kop" where
  "sys_getpid = bind myproc (\<lambda>p. bind (deref p) (\<lambda>p. get (\<lambda>s. word_of_int (pid (procs s p)))))"

definition sys_fork :: "u64 \<Rightarrow> ('x file_st_scheme, u64) kop" where
  "sys_fork forkret = bind (fork forkret) (\<lambda>n. ret (word_of_int n))"

definition sys_wait :: "'x proc_st_scheme env \<Rightarrow> ('x proc_st_scheme, u64) kop" where
  "sys_wait E = bind (argaddr 0) (\<lambda>p. bind (wait E p) (\<lambda>n. ret (word_of_int n)))"

definition sys_sbrk :: "('x proc_st_scheme, u64) kop" where
  "sys_sbrk =
     bind (argint 0) (\<lambda>n.
     bind myproc (\<lambda>p.
     bind (deref p) (\<lambda>p.
     bind (get (\<lambda>s. sz (procs s p))) (\<lambda>addr.
     bind (growproc n) (\<lambda>e.
     ret (if e < 0 then - 1 else addr))))))"

text \<open>The loop of \<^verbatim>\<open>sys_sleep\<close>; True is the return of -1, after the release of the lock.\<close>

primrec sleep_loop :: "nat \<Rightarrow> 'x proc_st_scheme env \<Rightarrow> u32 \<Rightarrow> u32 \<Rightarrow> ('x proc_st_scheme, bool) kop" where
  "sleep_loop 0 E ticks0 n = spin"
| "sleep_loop (Suc k) E ticks0 n =
     bind (get (\<lambda>s. ticks s - ticks0 < n)) (\<lambda>more.
     if \<not> more then ret False
     else bind myproc (\<lambda>p.
       bind (deref p) (\<lambda>p.
       bind (killed p) (\<lambda>kl.
       if kl then seq (release TicksLock) (ret True)
       else seq (sleep E ChTicks TicksLock) (sleep_loop k E ticks0 n)))))"

definition sys_sleep :: "'x proc_st_scheme env \<Rightarrow> ('x proc_st_scheme, u64) kop" where
  "sys_sleep E =
     bind (argint 0) (\<lambda>n.
     let n = (if n < 0 then 0 else n) in
     seq (acquire TicksLock) (
     bind (get ticks) (\<lambda>ticks0.
     bind (get (\<lambda>s. Suc (length (choices s)))) (\<lambda>fuel.
     bind (sleep_loop fuel E ticks0 (word_of_int n)) (\<lambda>kl.
     if kl then ret (- 1)
     else seq (release TicksLock) (ret 0))))))"

definition sys_kill :: "('x proc_st_scheme, u64) kop" where
  "sys_kill = bind (argint 0) (\<lambda>n. bind (kill n) (\<lambda>r. ret (word_of_int r)))"

definition sys_uptime :: "('x proc_st_scheme, u64) kop" where
  "sys_uptime =
     seq (acquire TicksLock) (
     bind (get ticks) (\<lambda>xticks.
     seq (release TicksLock)
     (ret (ucast xticks))))"

section \<open>Counters and random numbers\<close>

definition sys_kbdint :: "('x sys_st_scheme, u64) kop" where
  "sys_kbdint = get (\<lambda>s. scast (kbd_intr_count s))"

definition sys_countsyscall :: "('x sys_st_scheme, u64) kop" where
  "sys_countsyscall = get (\<lambda>s. scast (syscall_counter s))"

definition sys_sysrand :: "('x sys_st_scheme, u64) kop" where
  "sys_sysrand =
     seq (modify (\<lambda>s. s\<lparr>seed := seed s * 1664525 + 1013904223\<rparr>))
     (get (\<lambda>s. ucast (seed s)))"

section \<open>Date and time\<close>

record rtcdate =
  year :: int
  month :: int
  day :: int
  hour :: int
  minute :: int
  second :: int

definition leap :: "int \<Rightarrow> bool" where
  "leap y \<longleftrightarrow> y mod 4 = 0 \<and> (y mod 100 \<noteq> 0 \<or> y mod 400 = 0)"

definition days_in_year :: "int \<Rightarrow> int" where
  "days_in_year y = (if leap y then 366 else 365)"

lemma days_in_year_pos [simp]: "0 < days_in_year y"
  by (simp add: days_in_year_def)

function find_year :: "int \<Rightarrow> int \<Rightarrow> int \<times> int" where
  "find_year y days =
     (if days \<ge> days_in_year y then find_year (y + 1) (days - days_in_year y) else (y, days))"
  by pat_completeness auto
termination
proof (relation "measure (\<lambda>(y, days). nat days)")
  fix y days assume a: "days_in_year y \<le> days"
  have "0 < days" using a days_in_year_pos [of y] by linarith
  with a show "((y + 1, days - days_in_year y), y, days) \<in> measure (\<lambda>(y, days). nat days)"
    by simp
qed simp

declare find_year.simps [simp del]

definition days_in_month :: "bool \<Rightarrow> int list" where
  "days_in_month lp = [31, if lp then 29 else 28, 31, 30, 31, 30, 31, 31, 30, 31, 30, 31]"

text \<open>The month loop over the array; None is an access beyond its end.\<close>

primrec find_month :: "int list \<Rightarrow> int \<Rightarrow> int \<Rightarrow> (int \<times> int) option" where
  "find_month [] m days = None"
| "find_month (d # ds) m days = (if days \<ge> d then find_month ds (m + 1) (days - d) else Some (m, days))"

definition convert_unix_time_to_rtcdate :: "u64 \<Rightarrow> rtcdate option" where
  "convert_unix_time_to_rtcdate t =
     (let days = sint (ucast (t div 86400) :: u32);
          secs = uint (t mod 86400);
          (y, days) = find_year 1970 days
      in map_option (\<lambda>(m, days).
           \<lparr>year = y, month = m + 1, day = days + 1, hour = secs div 3600,
            minute = secs mod 3600 div 60, second = secs mod 3600 mod 60\<rparr>)
         (find_month (days_in_month (leap y)) 0 days))"

definition MTIME_FREQ :: u64 where "MTIME_FREQ = 10100000"
definition TIMEZONE_OFFSET :: u64 where "TIMEZONE_OFFSET = 3 * 3600"
definition USERBASE :: u64 where "USERBASE = 0"
definition USERTOP :: u64 where "USERTOP = 0x40000000"

definition rtcdate_bytes :: "rtcdate \<Rightarrow> u8 list" where
  "rtcdate_bytes r = concat (map (\<lambda>v. le_bytes 4 (word_of_int v :: u32))
     [year r, month r, day r, hour r, minute r, second r])"

definition sys_datetime :: "u64 \<Rightarrow> ('x sys_st_scheme, u64) kop" where
  "sys_datetime BOOT_EPOCH =
     bind (argaddr 0) (\<lambda>user_dst.
     bind (get (\<lambda>s. BOOT_EPOCH + mtime s div MTIME_FREQ + TIMEZONE_OFFSET)) (\<lambda>now.
     case convert_unix_time_to_rtcdate now of None \<Rightarrow> undef
     | Some r \<Rightarrow>
     if user_dst < USERBASE \<or> user_dst \<ge> USERTOP then ret (- 1)
     else bind my_pagetable (\<lambda>pt.
       bind (copyout pt user_dst (rtcdate_bytes r)) (\<lambda>e.
       ret (if e < 0 then - 1 else 0)))))"

end
