(* ===== verification/Virtio.thy ===== *)
theory Virtio
  imports Sysproc
begin

text \<open>
  \<^verbatim>\<open>kernel/virtio_disk.c\<close>: the driver of the virtio block device, and \<^verbatim>\<open>kernel/plic.c\<close>.

  The descriptor table and the rings are in three pages shared with the device; the model keeps their
  fields in records. An address in a descriptor is one of the three kinds of objects the driver points
  at: a request header, the data of a buffer, a status byte. \<open>mmio\<close> holds what the device answers to a
  read of a register, \<open>mmio_out\<close> the writes to device registers in order, with their addresses, and
  \<open>claims\<close> the answers of the interrupt controller to the next claims. The field \<^verbatim>\<open>disk\<close> of a
  \<^verbatim>\<open>struct buf\<close> is \<open>bdisk\<close>.
\<close>

section \<open>State\<close>

definition NUM :: nat where "NUM = 8"

datatype dma = NoAddr | OpAddr nat | DataAddr nat | StatusAddr nat

record virtq_desc =
  desc_addr :: dma
  desc_len :: u32
  desc_flags :: u16
  desc_next :: u16

record virtio_blk_req =
  req_type :: u32
  req_sector :: u64

record vio_st = sys_st +
  vdesc :: "nat \<Rightarrow> virtq_desc"
  avail_idx :: u16
  avail_ring :: "nat \<Rightarrow> u16"
  used_ring_idx :: u16
  used_ring :: "nat \<Rightarrow> u32"
  vfree :: "nat \<Rightarrow> bool"
  used_idx :: u16
  info_b :: "nat \<Rightarrow> nat option"
  info_status :: "nat \<Rightarrow> u8"
  vops :: "nat \<Rightarrow> virtio_blk_req"
  bdisk :: "nat \<Rightarrow> bool"
  mmio :: "nat \<Rightarrow> u32"
  mmio_out :: "(u64 \<times> u32) list"
  claims :: "u32 list"

definition VRING_DESC_F_NEXT :: u16 where "VRING_DESC_F_NEXT = 1"
definition VRING_DESC_F_WRITE :: u16 where "VRING_DESC_F_WRITE = 2"
definition VIRTIO_BLK_T_IN :: u32 where "VIRTIO_BLK_T_IN = 0"
definition VIRTIO_BLK_T_OUT :: u32 where "VIRTIO_BLK_T_OUT = 1"

definition desc0 :: virtq_desc where
  "desc0 = \<lparr>desc_addr = NoAddr, desc_len = 0, desc_flags = 0, desc_next = 0\<rparr>"

definition upd_desc :: "nat \<Rightarrow> (virtq_desc \<Rightarrow> virtq_desc) \<Rightarrow> ('x vio_st_scheme, unit) kop" where
  "upd_desc i f = modify (\<lambda>s. s\<lparr>vdesc := (vdesc s)(i := f (vdesc s i))\<rparr>)"

definition write_mmio :: "u64 \<Rightarrow> u32 \<Rightarrow> ('x vio_st_scheme, unit) kop" where
  "write_mmio a v = modify (\<lambda>s. s\<lparr>mmio_out := mmio_out s @ [(a, v)]\<rparr>)"

text \<open>\<^verbatim>\<open>*R(r) = v\<close>\<close>

definition write_R :: "nat \<Rightarrow> u32 \<Rightarrow> ('x vio_st_scheme, unit) kop" where
  "write_R r v = write_mmio (VIRTIO0 + of_nat r) v"

section \<open>Initialisation\<close>

text \<open>The features the driver accepts: the device's without those it cannot use.\<close>

definition clear_features :: "u32 \<Rightarrow> u32" where
  "clear_features f = fold (\<lambda>k f. f AND NOT (push_bit k 1)) [5, 7, 11, 12, 27, 29, 28] f"

definition write_addr :: "nat \<Rightarrow> nat \<Rightarrow> u64 \<Rightarrow> ('x vio_st_scheme, unit) kop" where
  "write_addr lo hi a = seq (write_R lo (ucast a)) (write_R hi (ucast (drop_bit 32 a)))"

definition virtio_disk_init :: "('x vio_st_scheme, unit) kop" where
  "virtio_disk_init =
     seq (initlock VdiskLock ''virtio_disk'') (
     bind (get mmio) (\<lambda>R.
     seq (kwhen (R 0x000 \<noteq> 0x74726976 \<or> R 0x004 \<noteq> 2 \<or> R 0x008 \<noteq> 2 \<or> R 0x00c \<noteq> 0x554d4551)
            (panic ''could not find virtio disk'')) (
     seq (write_R 0x070 0) (
     seq (write_R 0x070 1) (
     seq (write_R 0x070 3) (
     seq (write_R 0x020 (clear_features (R 0x010))) (
     seq (write_R 0x070 11) (
     seq (kwhen (R 0x070 AND 8 = 0) (panic ''virtio disk FEATURES_OK unset'')) (
     seq (write_R 0x030 0) (
     seq (kwhen (R 0x044 \<noteq> 0) (panic ''virtio disk should not be ready'')) (
     seq (kwhen (R 0x034 = 0) (panic ''virtio disk has no queue 0'')) (
     seq (kwhen (R 0x034 < of_nat NUM) (panic ''virtio disk max queue too short'')) (
     bind kalloc (\<lambda>d.
     bind kalloc (\<lambda>a.
     bind kalloc (\<lambda>u.
     seq (kwhen (d = 0 \<or> a = 0 \<or> u = 0) (panic ''virtio disk kalloc'')) (
     seq (seq (kmemset d 0 4096) (modify (\<lambda>s. s\<lparr>vdesc := (\<lambda>_. desc0)\<rparr>))) (
     seq (seq (kmemset a 0 4096) (modify (\<lambda>s. s\<lparr>avail_idx := 0, avail_ring := (\<lambda>_. 0)\<rparr>))) (
     seq (seq (kmemset u 0 4096) (modify (\<lambda>s. s\<lparr>used_ring_idx := 0, used_ring := (\<lambda>_. 0)\<rparr>))) (
     seq (write_R 0x038 (of_nat NUM)) (
     seq (write_addr 0x080 0x084 d) (
     seq (write_addr 0x090 0x094 a) (
     seq (write_addr 0x0a0 0x0a4 u) (
     seq (write_R 0x044 1) (
     seq (kfor (\<lambda>i. modify (\<lambda>s. s\<lparr>vfree := (vfree s)(i := True)\<rparr>)) [0..<NUM])
     (write_R 0x070 (R 0x070 OR 4)))))))))))))))))))))))))))"

section \<open>Descriptors\<close>

definition alloc_desc :: "('x vio_st_scheme, nat option) kop" where
  "alloc_desc =
     bind (get (\<lambda>s. first_idx (vfree s) NUM)) (\<lambda>r.
     case r of
       None \<Rightarrow> ret None
     | Some i \<Rightarrow>
         seq (modify (\<lambda>s. s\<lparr>vfree := (vfree s)(i := False)\<rparr>))
         (ret (Some i)))"

definition free_desc :: "nat \<Rightarrow> ('x vio_st_scheme, unit) kop" where
  "free_desc i =
     seq (kwhen (i \<ge> NUM) (panic ''free_desc 1'')) (
     bind (get (\<lambda>s. vfree s i)) (\<lambda>f.
     seq (kwhen f (panic ''free_desc 2'')) (
     seq (upd_desc i (\<lambda>_. desc0)) (
     seq (modify (\<lambda>s. s\<lparr>vfree := (vfree s)(i := True)\<rparr>))
     (wakeup (Some ChDiskFree))))))"

text \<open>A chain longer than the table would visit a descriptor twice, and \<^verbatim>\<open>free_desc\<close> panics on the second visit:
  \<open>NUM\<close> turns and one more are enough.\<close>

primrec free_chain_loop :: "nat \<Rightarrow> nat \<Rightarrow> ('x vio_st_scheme, unit) kop" where
  "free_chain_loop 0 i = spin"
| "free_chain_loop (Suc k) i =
     bind (get (\<lambda>s. vdesc s i)) (\<lambda>d.
     seq (free_desc i)
     (kwhen (desc_flags d AND VRING_DESC_F_NEXT \<noteq> 0) (free_chain_loop k (unat (desc_next d)))))"

definition free_chain :: "nat \<Rightarrow> ('x vio_st_scheme, unit) kop" where
  "free_chain i = free_chain_loop (Suc NUM) i"

definition alloc3_desc :: "('x vio_st_scheme, (nat \<times> nat \<times> nat) option) kop" where
  "alloc3_desc =
     bind alloc_desc (\<lambda>i0.
     case i0 of None \<Rightarrow> ret None
     | Some i0 \<Rightarrow>
     bind alloc_desc (\<lambda>i1.
     case i1 of None \<Rightarrow> seq (free_desc i0) (ret None)
     | Some i1 \<Rightarrow>
     bind alloc_desc (\<lambda>i2.
     case i2 of None \<Rightarrow> seq (free_desc i0) (seq (free_desc i1) (ret None))
     | Some i2 \<Rightarrow> ret (Some (i0, i1, i2)))))"

section \<open>Requests\<close>

primrec alloc_wait :: "nat \<Rightarrow> 'x vio_st_scheme env \<Rightarrow> ('x vio_st_scheme, nat \<times> nat \<times> nat) kop" where
  "alloc_wait 0 E = spin"
| "alloc_wait (Suc k) E =
     bind alloc3_desc (\<lambda>r.
     case r of
       Some idx \<Rightarrow> ret idx
     | None \<Rightarrow> seq (sleep E ChDiskFree VdiskLock) (alloc_wait k E))"

text \<open>The three descriptors of a request.\<close>

definition format_request ::
  "nat \<Rightarrow> bool \<Rightarrow> u64 \<Rightarrow> nat \<times> nat \<times> nat \<Rightarrow> ('x vio_st_scheme, unit) kop" where
  "format_request b wr sector idx = (case idx of (i0, i1, i2) \<Rightarrow>
     seq (modify (\<lambda>s. s\<lparr>vops := (vops s)(i0 := \<lparr>req_type = (if wr then VIRTIO_BLK_T_OUT else VIRTIO_BLK_T_IN),
            req_sector = sector\<rparr>)\<rparr>)) (
     seq (upd_desc i0 (\<lambda>_. \<lparr>desc_addr = OpAddr i0, desc_len = 16, desc_flags = VRING_DESC_F_NEXT,
            desc_next = of_nat i1\<rparr>)) (
     seq (upd_desc i1 (\<lambda>_. \<lparr>desc_addr = DataAddr b, desc_len = of_nat BSIZE,
            desc_flags = (if wr then 0 else VRING_DESC_F_WRITE) OR VRING_DESC_F_NEXT, desc_next = of_nat i2\<rparr>)) (
     seq (modify (\<lambda>s. s\<lparr>info_status := (info_status s)(i0 := 0xff)\<rparr>))
     (upd_desc i2 (\<lambda>_. \<lparr>desc_addr = StatusAddr i0, desc_len = 1, desc_flags = VRING_DESC_F_WRITE,
            desc_next = 0\<rparr>))))))"

definition submit_request :: "nat \<Rightarrow> nat \<Rightarrow> ('x vio_st_scheme, unit) kop" where
  "submit_request b i0 =
     seq (modify (\<lambda>s. s\<lparr>bdisk := (bdisk s)(b := True)\<rparr>)) (
     seq (modify (\<lambda>s. s\<lparr>info_b := (info_b s)(i0 := Some b)\<rparr>)) (
     seq (modify (\<lambda>s. s\<lparr>avail_ring := (avail_ring s)(unat (avail_idx s) mod NUM := of_nat i0)\<rparr>)) (
     seq (modify (\<lambda>s. s\<lparr>avail_idx := avail_idx s + 1\<rparr>))
     (write_R 0x050 0))))"

primrec disk_wait :: "nat \<Rightarrow> 'x vio_st_scheme env \<Rightarrow> nat \<Rightarrow> ('x vio_st_scheme, unit) kop" where
  "disk_wait 0 E b = spin"
| "disk_wait (Suc k) E b =
     bind (get (\<lambda>s. bdisk s b)) (\<lambda>busy.
     kwhen busy (seq (sleep E (ChBuf b) VdiskLock) (disk_wait k E b)))"

definition virtio_disk_rw :: "'x vio_st_scheme env \<Rightarrow> nat \<Rightarrow> bool \<Rightarrow> ('x vio_st_scheme, unit) kop" where
  "virtio_disk_rw E b wr =
     bind (get (\<lambda>s. ucast (blockno (bufs s b) * 2))) (\<lambda>sector.
     seq (acquire VdiskLock) (
     bind (get (\<lambda>s. Suc (length (choices s)))) (\<lambda>fuel.
     bind (alloc_wait fuel E) (\<lambda>idx.
     seq (format_request b wr sector idx) (
     seq (submit_request b (fst idx)) (
     bind (get (\<lambda>s. Suc (length (choices s)))) (\<lambda>fuel.
     seq (disk_wait fuel E b) (
     seq (modify (\<lambda>s. s\<lparr>info_b := (info_b s)(fst idx := None)\<rparr>)) (
     seq (free_chain (fst idx))
     (release VdiskLock))))))))))"

text \<open>One completed request per turn of the loop of the interrupt handler; the counters have 16 bits.\<close>

primrec intr_loop :: "nat \<Rightarrow> ('x vio_st_scheme, unit) kop" where
  "intr_loop 0 = ret ()"
| "intr_loop (Suc k) =
     bind (get (\<lambda>s. used_idx s \<noteq> used_ring_idx s)) (\<lambda>more.
     kwhen more (
       bind (get (\<lambda>s. unat (used_ring s (unat (used_idx s) mod NUM)))) (\<lambda>id.
       if id \<ge> NUM then undef
       else
         bind (get (\<lambda>s. info_status s id)) (\<lambda>st.
         seq (kwhen (st \<noteq> 0) (panic ''virtio_disk_intr status'')) (
         bind (bind (get (\<lambda>s. info_b s id)) deref) (\<lambda>b.
         seq (modify (\<lambda>s. s\<lparr>bdisk := (bdisk s)(b := False)\<rparr>)) (
         seq (wakeup (Some (ChBuf b))) (
         seq (modify (\<lambda>s. s\<lparr>used_idx := used_idx s + 1\<rparr>))
         (intr_loop k)))))))))"

definition virtio_disk_intr :: "('x vio_st_scheme, unit) kop" where
  "virtio_disk_intr =
     seq (acquire VdiskLock) (
     seq (bind (get (\<lambda>s. mmio s 0x060 AND 0x3)) (write_R 0x064)) (
     seq (bind (get (\<lambda>s. unat (used_ring_idx s - used_idx s))) intr_loop)
     (release VdiskLock)))"

section \<open>Interrupt controller\<close>

definition UART0_IRQ :: u32 where "UART0_IRQ = 10"
definition VIRTIO0_IRQ :: u32 where "VIRTIO0_IRQ = 1"
definition PLIC_SENABLE :: "nat \<Rightarrow> u64" where "PLIC_SENABLE hart = PLIC + 0x2080 + of_nat hart * 0x100"
definition PLIC_SPRIORITY :: "nat \<Rightarrow> u64" where "PLIC_SPRIORITY hart = PLIC + 0x201000 + of_nat hart * 0x2000"
definition PLIC_SCLAIM :: "nat \<Rightarrow> u64" where "PLIC_SCLAIM hart = PLIC + 0x201004 + of_nat hart * 0x2000"

definition plicinit :: "('x vio_st_scheme, unit) kop" where
  "plicinit =
     seq (write_mmio (PLIC + ucast UART0_IRQ * 4) 1)
     (write_mmio (PLIC + ucast VIRTIO0_IRQ * 4) 1)"

definition plicinithart :: "('x vio_st_scheme, unit) kop" where
  "plicinithart =
     bind cpuid (\<lambda>hart.
     seq (write_mmio (PLIC_SENABLE hart) (push_bit (unat UART0_IRQ) 1 OR push_bit (unat VIRTIO0_IRQ) 1))
     (write_mmio (PLIC_SPRIORITY hart) 0))"

text \<open>The controller answers 0 when no interrupt is pending.\<close>

definition plic_claim :: "('x vio_st_scheme, u32) kop" where
  "plic_claim =
     bind cpuid (\<lambda>_.
     bind (get (\<lambda>s. case claims s of [] \<Rightarrow> 0 | c # _ \<Rightarrow> c)) (\<lambda>irq.
     seq (modify (\<lambda>s. s\<lparr>claims := tl (claims s)\<rparr>))
     (ret irq)))"

definition plic_complete :: "u32 \<Rightarrow> ('x vio_st_scheme, unit) kop" where
  "plic_complete irq = bind cpuid (\<lambda>hart. write_mmio (PLIC_SCLAIM hart) irq)"

end
