(* ===== verification/Trap.thy ===== *)
theory Trap
  imports Virtio
begin

text \<open>
  \<^verbatim>\<open>kernel/trap.c\<close>, the dispatch of system calls in \<^verbatim>\<open>kernel/syscall.c\<close>, \<^verbatim>\<open>forkret\<close> of \<^verbatim>\<open>kernel/proc.c\<close>, the boot of
  \<^verbatim>\<open>kernel/main.c\<close> and the machine-mode start of \<^verbatim>\<open>kernel/start.c\<close>.

  The fields below are the control registers of the executing hart; the interrupt-enable bit of sstatus
  is \<open>sie\<close> of the lock state. \<open>syms\<close> holds the addresses of the symbols the code takes. A return to
  user space sets \<open>to_user\<close> to the argument of \<^verbatim>\<open>userret\<close>, the page table to switch to.
\<close>

section \<open>State\<close>

record trap_st = vio_st +
  scause :: u64
  sepc :: u64
  stval :: u64
  sstatus :: u64
  stvec :: u64
  satp :: u64
  time_csr :: u64
  stimecmp :: u64
  forkret_first :: bool
  to_user :: "u64 option"

text \<open>Addresses of symbols, and what the stack holds where \<^verbatim>\<open>filestat\<close> and \<^verbatim>\<open>getptable\<close> put their objects.\<close>

record syms =
  sym_kernelvec :: u64
  sym_uservec :: u64
  sym_userret :: u64
  sym_usertrap :: u64
  sym_forkret :: u64
  boot_epoch :: u64
  stack_pad :: "u8 list"
  stack_mem :: "nat memory"

definition SSTATUS_SPP :: u64 where "SSTATUS_SPP = push_bit 8 1"
definition SSTATUS_SPIE :: u64 where "SSTATUS_SPIE = push_bit 5 1"
definition MAKE_SATP :: "u64 \<Rightarrow> u64" where "MAKE_SATP pt = push_bit 60 8 OR drop_bit 12 pt"

section \<open>System calls\<close>

definition syscalls ::
  "syms \<Rightarrow> 'x sys_st_scheme env \<Rightarrow> (nat \<times> ('x sys_st_scheme, u64) kop) list" where
  "syscalls sy E =
    [(1, sys_fork (sym_forkret sy)),
     (2, sys_exit E),
     (3, sys_wait E),
     (4, sys_pipe E),
     (5, sys_read E),
     (6, sys_kill),
     (7, sys_exec E),
     (8, sys_fstat E (stack_pad sy)),
     (9, sys_chdir E),
     (10, sys_dup),
     (11, sys_getpid),
     (12, sys_sbrk),
     (13, sys_sleep E),
     (14, sys_uptime),
     (15, sys_open E),
     (16, sys_write E),
     (17, sys_mknod E),
     (18, sys_unlink E),
     (19, sys_link E),
     (20, sys_mkdir E),
     (21, sys_close E),
     (22, sys_kbdint),
     (23, sys_countsyscall),
     (24, sys_getppid),
     (25, sys_datetime (boot_epoch sy)),
     (26, sys_getptable (stack_mem sy)),
     (27, sys_sysrand),
     (28, sys_schedstats),
     (29, sys_wait_stat E),
     (30, sys_setpriority)]"

definition syscall :: "syms \<Rightarrow> 'x sys_st_scheme env \<Rightarrow> ('x sys_st_scheme, unit) kop" where
  "syscall sy E =
     seq (modify (\<lambda>s. s\<lparr>syscall_counter := syscall_counter s + 1\<rparr>)) (
     bind myproc (\<lambda>p.
     bind (deref p) (\<lambda>p.
     bind (tf_get p tf_a7) (\<lambda>v.
     let num = sint (ucast v :: u32) in
     case (if num > 0 then map_of (syscalls sy E) (nat num) else None) of
       Some h \<Rightarrow> bind h (tf_set p tf_a0)
     | None \<Rightarrow>
         bind (get (\<lambda>s. procs s p)) (\<lambda>r.
         seq (printf ''%d %s: unknown sys call %d\<newline>''
                [PVal (word_of_int (pid r)), PStr (Some (name_str (pname r))), PVal (word_of_int num)])
         (tf_set p tf_a0 (- 1)))))))"

section \<open>Traps\<close>

definition trapinit :: "('x trap_st_scheme, unit) kop" where
  "trapinit = initlock TicksLock ''time''"

definition w_stvec :: "u64 \<Rightarrow> ('x trap_st_scheme, unit) kop" where
  "w_stvec v = modify (\<lambda>s. s\<lparr>stvec := v\<rparr>)"

definition trapinithart :: "syms \<Rightarrow> ('x trap_st_scheme, unit) kop" where
  "trapinithart sy = w_stvec (sym_kernelvec sy)"

definition clockintr :: "('x trap_st_scheme, unit) kop" where
  "clockintr =
     bind cpuid (\<lambda>id.
     seq (kwhen (id = 0) (
       seq (acquire TicksLock) (
       seq (modify (\<lambda>s. s\<lparr>ticks := ticks s + 1\<rparr>)) (
       seq update_time (
       seq (wakeup (Some ChTicks))
       (release TicksLock)))))) (
     modify (\<lambda>s. s\<lparr>stimecmp := time_csr s + 1000000\<rparr>)))"

definition devintr :: "('x trap_st_scheme, nat) kop" where
  "devintr =
     bind (get scause) (\<lambda>sc.
     if sc = 0x8000000000000009
     then bind plic_claim (\<lambda>irq.
          seq (if irq = UART0_IRQ then uartintr
               else if irq = VIRTIO0_IRQ then virtio_disk_intr
               else kwhen (irq \<noteq> 0) (printf ''unexpected interrupt irq=%d\<newline>'' [PVal (ucast irq)])) (
          seq (kwhen (irq \<noteq> 0) (plic_complete irq))
          (ret 1)))
     else if sc = 0x8000000000000005 then seq clockintr (ret 2)
     else ret 0)"

definition usertrapret :: "syms \<Rightarrow> ('x trap_st_scheme, unit) kop" where
  "usertrapret sy =
     bind myproc (\<lambda>p.
     seq intr_off (
     bind (get trampoline) (\<lambda>tr.
     seq (w_stvec (TRAMPOLINE + (sym_uservec sy - tr))) (
     bind (deref p) (\<lambda>p.
     seq (bind (get satp) (tf_set p tf_kernel_satp)) (
     seq (bind (get (\<lambda>s. kstack (procs s p) + PGSIZE)) (tf_set p tf_kernel_sp)) (
     seq (tf_set p tf_kernel_trap (sym_usertrap sy)) (
     seq (bind (get (\<lambda>s. of_nat (tp (hs s)))) (tf_set p tf_kernel_hartid)) (
     seq (modify (\<lambda>s. s\<lparr>sstatus := (sstatus s AND NOT SSTATUS_SPP) OR SSTATUS_SPIE\<rparr>)) (
     bind (tf_get p tf_epc) (\<lambda>epc.
     seq (modify (\<lambda>s. s\<lparr>sepc := epc\<rparr>))
     (modify (\<lambda>s. s\<lparr>to_user := Some (MAKE_SATP (pagetable (procs s p)))\<rparr>)))))))))))))"

definition usertrap :: "syms \<Rightarrow> 'x trap_st_scheme env \<Rightarrow> ('x trap_st_scheme, unit) kop" where
  "usertrap sy E =
     bind (get sstatus) (\<lambda>x.
     seq (kwhen (x AND SSTATUS_SPP \<noteq> 0) (panic ''usertrap: not from user mode'')) (
     seq (w_stvec (sym_kernelvec sy)) (
     bind (bind myproc deref) (\<lambda>p.
     seq (bind (get sepc) (tf_set p tf_epc)) (
     bind (get scause) (\<lambda>sc.
     bind (
       if sc = 8
       then seq (bind (killed p) (\<lambda>kl. kwhen kl (exit E (- 1)))) (
            seq (bind (tf_get p tf_epc) (\<lambda>epc. tf_set p tf_epc (epc + 4))) (
            seq intr_on (
            seq (syscall sy E)
            (ret 0))))
       else bind devintr (\<lambda>which_dev.
            seq (kwhen (which_dev = 0) (
              bind (get (\<lambda>s. pid (procs s p))) (\<lambda>n.
              seq (printf ''usertrap(): unexpected scause 0x%lx pid=%d\<newline>'' [PVal sc, PVal (word_of_int n)]) (
              seq (bind (get (\<lambda>s. (sepc s, stval s))) (\<lambda>(pc, v).
                     printf ''            sepc=0x%lx stval=0x%lx\<newline>'' [PVal pc, PVal v]))
              (setkilled p)))))
            (ret which_dev))) (\<lambda>which_dev.
     seq (bind (killed p) (\<lambda>kl. kwhen kl (exit E (- 1)))) (
     seq (kwhen (which_dev = 2) (yield E))
     (usertrapret sy)))))))))"

definition kerneltrap :: "'x trap_st_scheme env \<Rightarrow> ('x trap_st_scheme, unit) kop" where
  "kerneltrap E =
     bind (get (\<lambda>s. (sepc s, sstatus s, scause s))) (\<lambda>(pc, st, sc).
     seq (kwhen (st AND SSTATUS_SPP = 0) (panic ''kerneltrap: not from supervisor mode'')) (
     bind intr_get (\<lambda>i.
     seq (kwhen i (panic ''kerneltrap: interrupts enabled'')) (
     bind devintr (\<lambda>which_dev.
     seq (kwhen (which_dev = 0) (
       seq (bind (get (\<lambda>s. (sepc s, stval s))) (\<lambda>(pc, v).
              printf ''scause=0x%lx sepc=0x%lx stval=0x%lx\<newline>'' [PVal sc, PVal pc, PVal v]))
       (panic ''kerneltrap''))) (
     bind (if which_dev = 2 then myproc else ret None) (\<lambda>p.
     seq (kwhen (p \<noteq> None) (yield E)) (
     seq (modify (\<lambda>s. s\<lparr>sepc := pc\<rparr>)) (
     seq (modify (\<lambda>s. s\<lparr>sstatus := st\<rparr>))
     intr_off)))))))))"

definition forkret :: "syms \<Rightarrow> 'x trap_st_scheme env \<Rightarrow> ('x trap_st_scheme, unit) kop" where
  "forkret sy E =
     bind (bind myproc deref) (\<lambda>p.
     seq (release (ProcLock p)) (
     bind (get forkret_first) (\<lambda>first.
     seq (kwhen first (
       seq (fsinit E ROOTDEV)
       (modify (\<lambda>s. s\<lparr>forkret_first := False\<rparr>))))
     (usertrapret sy))))"

section \<open>Boot\<close>

definition kvminithart :: "('x trap_st_scheme, unit) kop" where
  "kvminithart = modify (\<lambda>s. s\<lparr>satp := MAKE_SATP (kernel_pagetable s)\<rparr>)"

text \<open>\<^verbatim>\<open>main\<close> up to the call of the scheduler, on the hart that boots; the other harts wait for it.\<close>

definition main_boot :: "syms \<Rightarrow> 'x trap_st_scheme env \<Rightarrow> ('x trap_st_scheme, unit) kop" where
  "main_boot sy E =
     seq consoleinit (
     seq printfinit (
     seq (printf ''\<newline>'' []) (
     seq (printf ''xv6 kernel is booting\<newline>'' []) (
     seq (printf ''\<newline>'' []) (
     seq kinit (
     seq kvminit (
     seq kvminithart (
     seq procinit (
     seq trapinit (
     seq (trapinithart sy) (
     seq plicinit (
     seq plicinithart (
     seq binit (
     seq iinit (
     seq fileinit (
     seq virtio_disk_init
     (userinit E (sym_forkret sy))))))))))))))))))"

definition main_hart :: "syms \<Rightarrow> ('x trap_st_scheme, unit) kop" where
  "main_hart sy =
     bind cpuid (\<lambda>id.
     seq (printf ''hart %d starting\<newline>'' [PVal (of_nat id)]) (
     seq kvminithart (
     seq (trapinithart sy)
     plicinithart)))"

text \<open>The registers of machine mode that \<^verbatim>\<open>start\<close> and \<^verbatim>\<open>timerinit\<close> set up.\<close>

record mregs =
  mstatus :: u64
  mepc :: u64
  msatp :: u64
  medeleg :: u64
  mideleg :: u64
  sie_reg :: u64
  pmpaddr0 :: u64
  pmpcfg0 :: u64
  mie_reg :: u64
  menvcfg :: u64
  mcounteren :: u64
  mstimecmp :: u64
  mtime_csr :: u64
  mhartid :: u64
  mtp :: u64

definition timerinit :: "mregs \<Rightarrow> mregs" where
  "timerinit r = r\<lparr>mie_reg := mie_reg r OR push_bit 5 1, menvcfg := menvcfg r OR push_bit 63 1,
     mcounteren := mcounteren r OR 2, mstimecmp := mtime_csr r + 1000000\<rparr>"

definition start :: "u64 \<Rightarrow> mregs \<Rightarrow> mregs" where
  "start sym_main r =
     (let r = r\<lparr>mstatus := (mstatus r AND NOT (push_bit 11 3)) OR push_bit 11 1\<rparr>;
          r = r\<lparr>mepc := sym_main\<rparr>;
          r = r\<lparr>msatp := 0\<rparr>;
          r = r\<lparr>medeleg := 0xffff\<rparr>;
          r = r\<lparr>mideleg := 0xffff\<rparr>;
          r = r\<lparr>sie_reg := sie_reg r OR push_bit 9 1 OR push_bit 5 1 OR push_bit 1 1\<rparr>;
          r = r\<lparr>pmpaddr0 := 0x3fffffffffffff\<rparr>;
          r = r\<lparr>pmpcfg0 := 0xf\<rparr>;
          r = timerinit r
      in r\<lparr>mtp := scast (ucast (mhartid r) :: u32)\<rparr>)"

end
