(* ===== verification/Fstxn.thy ===== *)
theory Fstxn
  imports Fs
begin

text \<open>
  File system operations inside a transaction. \<open>fs_view p d s C\<close> says that process \<open>p\<close> runs in the kernel,
  that no buffer is locked, that the cache shows the contents \<open>C\<close> of the blocks of device \<open>d\<close>, and that exactly
  the logged blocks are pinned; \<open>in_txn\<close> says in addition that an operation has begun. The rules of the buffer cache and of the log become two rules, for reading
  a block and for changing one; the block allocator, \<^verbatim>\<open>iupdate\<close>, \<^verbatim>\<open>readi\<close> and \<^verbatim>\<open>writei\<close> are proved with them.
\<close>

section \<open>Transactions\<close>

definition logged :: "'x log_st_scheme \<Rightarrow> u32 set" where
  "logged s = lh_block s ` {..<nat (lh_n s)}"

definition pins :: "u32 set \<Rightarrow> u32 \<Rightarrow> nat" where
  "pins M m = (if m \<in> M then 1 else 0)"

definition fs_view :: "nat \<Rightarrow> u32 \<Rightarrow> 'x log_st_scheme \<Rightarrow> (u32 \<Rightarrow> block) \<Rightarrow> bool" where
  "fs_view p d s C \<longleftrightarrow> cache p d s C (pins (logged s)) (\<lambda>_. None) \<and> txn_ok s (nat (lh_n s))"

definition in_txn :: "nat \<Rightarrow> u32 \<Rightarrow> 'x log_st_scheme \<Rightarrow> (u32 \<Rightarrow> block) \<Rightarrow> bool" where
  "in_txn p d s C \<longleftrightarrow> fs_view p d s C \<and> outstanding s \<ge> 1"

text \<open>The log has room for \<open>k\<close> more blocks.\<close>

definition log_room :: "nat \<Rightarrow> 'x log_st_scheme \<Rightarrow> bool" where
  "log_room k s \<longleftrightarrow> lh_n s + int k \<le> int LOGSIZE \<and> lh_n s + int k < log_size s"

text \<open>What the operations below leave alone: everything but the buffers and their locks, the list of the
  logged blocks, and the run state of the processes.\<close>

definition inode_locks :: "(slk \<Rightarrow> sleeplock) \<Rightarrow> slk \<Rightarrow> sleeplock" where
  "inode_locks L k = (case k of InodeLk i \<Rightarrow> L k | BufLk b \<Rightarrow> \<lparr>slocked = False, sname = [], spid = 0\<rparr>)"

definition fixed_part :: "'x log_st_scheme \<Rightarrow> 'x log_st_scheme" where
  "fixed_part s = s\<lparr>procs := (\<lambda>q. (procs s q)\<lparr>state := UNUSED\<rparr>),
     slocks := inode_locks (slocks s),
     bufs := (\<lambda>_. buf0), lh_n := 0, lh_block := (\<lambda>_. 0)\<rparr>"

definition fframe :: "'x log_st_scheme \<Rightarrow> 'x log_st_scheme \<Rightarrow> bool" where
  "fframe s t \<longleftrightarrow> fixed_part t = fixed_part s"

lemma fframe_refl [simp]: "fframe s s"
  by (simp add: fframe_def)

lemma fframe_trans: "fframe s t \<Longrightarrow> fframe t u \<Longrightarrow> fframe s u"
  by (simp add: fframe_def)

lemma fframe_bframe: "bframe s t \<Longrightarrow> disk t = disk s \<Longrightarrow> dwrites t = dwrites s \<Longrightarrow> fframe s t"
  unfolding bframe_def fframe_def
  by (elim conjE exE) (auto simp: fixed_part_def inode_locks_def fun_eq_iff split: slk.splits)

lemma fframe_log: "fframe s (s\<lparr>bufs := B, lh_block := K, lh_n := N\<rparr>)"
  by (simp add: fframe_def fixed_part_def)

lemma fframe_fields:
  assumes "fframe s t"
  shows "hs t = hs s" "mem t = mem s" "disk t = disk s" "dwrites t = dwrites s" "log_start t = log_start s"
    "log_size t = log_size s" "outstanding t = outstanding s" "choices t = choices s" "panicked t = panicked s"
    "pid (procs t q) = pid (procs s q)" "log_st.more t = log_st.more s" "slocks t (InodeLk i) = slocks s (InodeLk i)"
proof -
  have e: "fixed_part t = fixed_part s" using assms by (simp add: fframe_def)
  show "hs t = hs s" "mem t = mem s" "disk t = disk s" "dwrites t = dwrites s"
    using e [THEN arg_cong, of hs] e [THEN arg_cong, of mem] e [THEN arg_cong, of disk] e [THEN arg_cong, of dwrites]
    by (simp_all add: fixed_part_def)
  show "log_start t = log_start s" "log_size t = log_size s" "outstanding t = outstanding s" "choices t = choices s"
    using e [THEN arg_cong, of log_start] e [THEN arg_cong, of log_size] e [THEN arg_cong, of outstanding]
      e [THEN arg_cong, of choices] by (simp_all add: fixed_part_def)
  show "panicked t = panicked s" "log_st.more t = log_st.more s"
    using e [THEN arg_cong, of panicked] e [THEN arg_cong, of log_st.more] by (simp_all add: fixed_part_def)
  show "pid (procs t q) = pid (procs s q)" "slocks t (InodeLk i) = slocks s (InodeLk i)"
    using e [THEN arg_cong, of "\<lambda>s. pid (procs s q)"] e [THEN arg_cong, of "\<lambda>s. slocks s (InodeLk i)"]
    by (simp_all add: fixed_part_def inode_locks_def)
qed

lemma fframe_fs:
  fixes s :: "'x fs_st_scheme"
  assumes "fframe s t"
  shows "itable t = itable s" "sb t = sb s"
  using assms unfolding fframe_def
  by (auto simp: fixed_part_def dest: arg_cong [of _ _ itable] arg_cong [of _ _ sb])

lemma fframe_area: "fframe s t \<Longrightarrow> log_area t = log_area s"
  by (simp add: log_area_def log_head_def log_slot_def log_slots_def fframe_fields fun_eq_iff)

section \<open>Reading and changing a block\<close>

lemma card_logged: "txn_ok s (nat (lh_n s)) \<Longrightarrow> int (card (logged s)) = lh_n s \<and> finite (logged s)"
  by (simp add: txn_ok_def logged_def card_image)

lemma pins_set [simp]: "{m. 0 < pins M m} = M"
  by (auto simp: pins_def)

lemma log_room_spare: "log_room k s \<Longrightarrow> 0 < k \<Longrightarrow> lh_n s < int NBUF"
  by (simp add: log_room_def NBUF_def LOGSIZE_def MAXOPBLOCKS_def)

lemma bread_txn:
  assumes "fs_view p d s C" "lh_n s < int NBUF"
  shows "\<exists>b t. bread E d m s = Ret b t \<and> fframe s t \<and> logged t = logged s \<and> lh_n t = lh_n s \<and> txn_ok t (nat (lh_n s)) \<and>
    buf_of d (bufs t) m = Some b \<and> bdata (bufs t b) = C m \<and>
    cache p d t C ((pins (logged s))(m := Suc (pins (logged s) m))) ((\<lambda>_. None)(m := Some (pid (procs t p))))"
proof -
  have c: "cache p d s C (pins (logged s)) (\<lambda>_. None)" and x: "txn_ok s (nat (lh_n s))"
    using assms(1) by (simp_all add: fs_view_def)
  have "card {m. pins (logged s) m \<noteq> 0} < NBUF"
    using card_logged [OF x] assms(2) by simp
  moreover have "Suc (pins (logged s) m) < 2 ^ 32" by (simp add: pins_def)
  ultimately obtain b t where t: "bread E d m s = Ret b t" "bframe s t" "disk t = disk s" "dwrites t = dwrites s"
      "buf_of d (bufs t) m = Some b"
      "cache p d t C ((pins (logged s))(m := Suc (pins (logged s) m))) ((\<lambda>_. None)(m := Some (pid (procs s p))))"
    using bread_rule [OF c, of m E] by auto
  have "bdata (bufs t b) = C m" using cacheD(6) [OF t(6,5)] by simp
  with t show ?thesis
    by (simp add: fframe_bframe logged_def bframe_log bframe_txn x bframe_pid)
qed

lemma view_block:
  assumes "fs_view p d s C" "lh_n s < int NBUF"
  shows "\<exists>b t u. bread E d m s = Ret b t \<and> fframe s t \<and> bdata (bufs t b) = C m \<and> brelse b t = Ret () u \<and> fframe s u \<and>
    fs_view p d u C \<and> lh_n u = lh_n s \<and> logged u = logged s"
proof -
  obtain b t where t: "bread E d m s = Ret b t" "fframe s t" "logged t = logged s" "lh_n t = lh_n s" "txn_ok t (nat (lh_n s))"
      "buf_of d (bufs t) m = Some b" "bdata (bufs t b) = C m"
      "cache p d t C ((pins (logged s))(m := Suc (pins (logged s) m))) ((\<lambda>_. None)(m := Some (pid (procs t p))))"
    using bread_txn [OF assms, of E m] by blast
  have "C m = disk t m" if "pins (logged s) m = 0"
    using cache_clean [of p d s C "pins (logged s)" "\<lambda>_. None" m] that assms(1) fframe_fields(3) [OF t(2)]
    by (simp add: fs_view_def)
  then obtain u where u: "brelse b t = Ret () u" "bframe t u" "disk u = disk t" "dwrites u = dwrites t"
      "cache p d u C (((pins (logged s))(m := Suc (pins (logged s) m)))(m := pins (logged s) m)) (((\<lambda>_. None)(m := Some (pid (procs t p))))(m := None))"
    using brelse_rule [OF t(8,6)] by auto
  have f: "fframe s u" using fframe_trans [OF t(2) fframe_bframe [OF u(2-4)]] .
  have l: "logged u = logged s" "lh_n u = lh_n s" "txn_ok u (nat (lh_n s))"
    using t(3-5) u(2) by (simp_all add: logged_def bframe_log bframe_txn)
  have "fs_view p d u C" using u(5) l by (simp add: fs_view_def)
  with t u(1) f l show ?thesis by blast
qed

lemma change_block:
  assumes "in_txn p d s C" "log_room 1 s" "m \<notin> log_area s"
  shows "\<exists>b t u v w. bread E d m s = Ret b t \<and> fframe s t \<and> bdata (bufs t b) = C m \<and> set_data b f t = Ret () u \<and>
    log_write b u = Ret () v \<and> brelse b v = Ret () w \<and> fframe s w \<and> in_txn p d w (C(m := f (C m))) \<and>
    lh_n w \<le> lh_n s + 1 \<and> logged w = insert m (logged s)"
proof -
  let ?R = "pins (logged s)" and ?H = "\<lambda>t. (\<lambda>_. None)(m := Some (pid (procs t p)))" and ?C = "C(m := f (C m))"
  obtain b t where t: "bread E d m s = Ret b t" "fframe s t" "logged t = logged s" "lh_n t = lh_n s" "txn_ok t (nat (lh_n s))"
      "buf_of d (bufs t) m = Some b" "bdata (bufs t b) = C m" "cache p d t C (?R(m := Suc (?R m))) (?H t)"
    using bread_txn [OF _ log_room_spare [OF assms(2)], of p d C E m] assms(1) by (auto simp: in_txn_def)
  obtain u where u: "set_data b f t = Ret () u" "bframe t u" "disk u = disk t" "dwrites u = dwrites t"
      "buf_of d (bufs u) = buf_of d (bufs t)" "cache p d u ?C (?R(m := Suc (?R m))) (?H t)"
    using set_data_rule [OF t(8,6), of f] by (auto simp: set_data_def)
  have fu: "fframe s u" using fframe_trans [OF t(2) fframe_bframe [OF u(2-4)]] .
  have xu: "txn_ok u (nat (lh_n s))" and bu: "lh_block u = lh_block t" using t(5) u(2) by (simp_all add: bframe_txn bframe_log)
  have n0: "0 \<le> lh_n s" using assms(1) by (simp add: in_txn_def fs_view_def txn_ok_def split: if_splits)
  have lg: "lh_block u ` {..<nat (lh_n s)} = logged s" using t(3,4) bu by (simp add: logged_def)
  obtain v n where v: "log_write b u = Ret () v" "txn_ok v n" "n \<le> Suc (nat (lh_n s))" "lh_block v ` {..<n} = insert m (logged s)"
      "\<exists>B K. v = u\<lparr>bufs := B, lh_block := K, lh_n := int n\<rparr>" "buf_of d (bufs v) = buf_of d (bufs u)"
      "cache p d v ?C ((pins (insert m (logged s)))(m := 2)) (?H t)"
  proof -
    have r: "m \<notin> log_area u" "nat (lh_n s) < LOGSIZE" "int (nat (lh_n s)) < log_size u - 1" "outstanding u \<ge> 1"
      using assms n0 fframe_area [OF fu] fframe_fields(6,7) [OF fu] by (auto simp: log_room_def in_txn_def)
    let ?S = "?R(m := Suc (?R m))"
    have e: "(if m \<in> logged s then ?S else ?S(m := Suc (?S m))) = (pins (insert m (logged s)))(m := 2)"
      by (auto simp: pins_def fun_eq_iff)
    have "buf_of d (bufs u) m = Some b" "?S m \<noteq> 0" "Suc (?S m) < 2 ^ 32" using t(6) u(5) by (simp_all add: pins_def)
    from log_write_rule [OF u(6) this xu r, unfolded lg e] that show ?thesis by blast
  qed
  have fv: "fframe u v" using v(5) fframe_log by auto
  obtain w where w: "brelse b v = Ret () w" "bframe v w" "disk w = disk v" "dwrites w = dwrites v"
      "cache p d w ?C (((pins (insert m (logged s)))(m := 2))(m := 1)) ((?H t)(m := None))"
    using brelse_rule [OF v(7), of m b] v(6) u(5) t(6) fframe_fields(10) [OF fu] fframe_fields(10) [OF fv]
      fframe_fields(10) [OF t(2)] by auto
  have fw: "fframe s w" using fframe_trans [OF fu fframe_trans [OF fv fframe_bframe [OF w(2-4)]]] .
  have "lh_n v = int n" using v(2) by (simp add: txn_ok_def)
  then have lw: "lh_n w = int n" "logged w = insert m (logged s)" "txn_ok w n"
    using v(2,4) w(2) by (simp_all add: bframe_log bframe_txn logged_def)
  have "((pins (insert m (logged s)))(m := 2))(m := 1) = pins (logged w)" by (auto simp: pins_def lw(2) fun_eq_iff)
  then have "in_txn p d w ?C" using w(5) lw fframe_fields(7) [OF fw] assms(1) by (simp add: in_txn_def fs_view_def)
  moreover have "lh_n w \<le> lh_n s + 1" using lw(1) v(3) n0 by simp
  ultimately show ?thesis using t u(1) v(1) w(1) fw lw(2) by blast
qed

section \<open>The block allocator\<close>

text \<open>Whether the free map of the contents \<open>C\<close> marks block \<open>b\<close> as used.\<close>

definition in_use :: "(u32 \<Rightarrow> block) \<Rightarrow> superblock \<Rightarrow> nat \<Rightarrow> bool" where
  "in_use C S b = map_bit (C (BBLOCK (of_nat b) S)) (b mod BPB)"

definition zeroed :: "block \<Rightarrow> block" where
  "zeroed v = memset v 0 0 BSIZE"

lemma zeroed_nth: "i < BSIZE \<Longrightarrow> zeroed v i = 0"
  by (simp add: zeroed_def memset_nat)

lemma map_bit_iff: "map_bit v i \<longleftrightarrow> bit (v (i div 8)) (i mod 8)"
  by (simp add: map_bit_def push_bit_of_1 and_exp_eq_0_iff_not_bit)

lemma bit_8: "bit (2 ^ n :: u8) k \<longleftrightarrow> k = n \<and> n < 8"
  by (auto simp: bit_exp_iff)

lemma div_mod_eq: "i div n = j div n \<Longrightarrow> i mod n = j mod n \<Longrightarrow> i = (j :: nat)"
  by (metis div_mult_mod_eq)

lemma map_bit_set: "map_bit (set_map_bit i v) j \<longleftrightarrow> j = i \<or> map_bit v j"
  by (auto simp: map_bit_iff set_map_bit_def bit_or_iff bit_8 intro: div_mod_eq)

lemma map_bit_clear: "map_bit (clear_map_bit i v) j \<longleftrightarrow> j \<noteq> i \<and> map_bit v j"
proof -
  have "bit (v k) n \<Longrightarrow> n < 8" for k n using bit_imp_le_length [of "v k" n] by simp
  then show ?thesis
    by (auto simp: map_bit_iff clear_map_bit_def bit_and_iff bit_not_iff bit_8 dest: div_mod_eq)
qed

lemma BBLOCK_eq:
  assumes "b < 2 ^ 32" "c < 2 ^ 32"
  shows "BBLOCK (of_nat b) S = BBLOCK (of_nat c) S \<longleftrightarrow> b div BPB = c div BPB"
proof -
  have u: "unat ((of_nat b :: u32) div of_nat BPB) = b div BPB" if "b < 2 ^ 32" for b
    using that by (simp add: unat_div unat_of_nat_small BPB_def)
  show ?thesis using u [OF assms(1)] u [OF assms(2)] unfolding BBLOCK_def add_right_cancel by (metis word_unat_eq_iff)
qed

lemma in_use_upd:
  assumes "b < 2 ^ 32" "c < 2 ^ 32" "n = BBLOCK (of_nat b) S"
  shows "in_use (C(n := set_map_bit (b mod BPB) (C n))) S c \<longleftrightarrow> c = b \<or> in_use C S c"
    and "in_use (C(n := clear_map_bit (b mod BPB) (C n))) S c \<longleftrightarrow> c \<noteq> b \<and> in_use C S c"
proof -
  have "c = b \<longleftrightarrow> c div BPB = b div BPB \<and> c mod BPB = b mod BPB"
    using div_mod_eq by blast
  then show "in_use (C(n := set_map_bit (b mod BPB) (C n))) S c \<longleftrightarrow> c = b \<or> in_use C S c"
    "in_use (C(n := clear_map_bit (b mod BPB) (C n))) S c \<longleftrightarrow> c \<noteq> b \<and> in_use C S c"
    using BBLOCK_eq [OF assms(2,1), of S] by (auto simp: in_use_def assms(3) map_bit_set map_bit_clear)
qed

lemma bzero_rule:
  assumes "in_txn p d s C" "log_room 1 s" "m \<notin> log_area s"
  shows "\<exists>t. bzero E d m s = Ret () t \<and> fframe s t \<and> in_txn p d t (C(m := zeroed (C m))) \<and>
    lh_n t \<le> lh_n s + 1 \<and> logged t = insert m (logged s)"
  using change_block [OF assms, of E "\<lambda>v. memset v 0 0 BSIZE"] by (auto simp: bzero_def kexec zeroed_def)

lemma balloc_in_full:
  fixes s :: "'x fs_st_scheme"
  assumes "in_txn p d s C" "log_room 1 s" "\<And>bi. bi < BPB \<Longrightarrow> b + bi < nb \<Longrightarrow> map_bit (C (BBLOCK (of_nat b) (sb s))) bi"
  shows "\<exists>t. balloc_in E d nb b s = Ret None t \<and> fframe s t \<and> in_txn p d t C \<and> lh_n t = lh_n s \<and> logged t = logged s"
proof -
  have "first_idx (\<lambda>bi. \<not> map_bit (C (BBLOCK (of_nat b) (sb s))) bi) (min BPB (nb - b)) = None"
    using assms(3) by (auto simp: first_idx_None)
  then show ?thesis using view_block [OF _ log_room_spare [OF assms(2)], of p d C E "BBLOCK (of_nat b) (sb s)"] assms(1)
    by (auto simp: balloc_in_def kexec in_txn_def fframe_fields)
qed

lemma balloc_in_free:
  fixes s :: "'x fs_st_scheme"
  assumes n: "n = BBLOCK (of_nat b) (sb s)"
    and "in_txn p d s C" "log_room 2 s" "n \<notin> log_area s" "of_nat (b + bi) \<notin> log_area s"
    and "first_idx (\<lambda>bi. \<not> map_bit (C (n)) bi) (min BPB (nb - b)) = Some bi"
    and "C1 = C(n := set_map_bit bi (C (n)))"
  shows "\<exists>t. balloc_in E d nb b s = Ret (Some (of_nat (b + bi))) t \<and> fframe s t \<and>
    in_txn p d t (C1(of_nat (b + bi) := zeroed (C1 (of_nat (b + bi))))) \<and> lh_n t \<le> lh_n s + 2"
proof -
  have r: "log_room 1 s" using assms(3) by (simp add: log_room_def)
  obtain bp t u v w where w: "bread E d (n) s = Ret bp t" "bdata (bufs t bp) = C (n)"
      "set_data bp (set_map_bit bi) t = Ret () u" "log_write bp u = Ret () v" "brelse bp v = Ret () w" "fframe s w"
      "in_txn p d w C1" "lh_n w \<le> lh_n s + 1"
    using change_block [OF assms(2) r assms(4), of E "set_map_bit bi"] unfolding assms(7) by blast
  have "log_room 1 w" using assms(3) w(6,8) by (auto simp: log_room_def fframe_fields)
  from bzero_rule [OF w(7) this, of "of_nat (b + bi)" E] obtain x where
      x: "bzero E d (of_nat (b + bi)) w = Ret () x" "fframe w x" "lh_n x \<le> lh_n w + 1"
      "in_txn p d x (C1(of_nat (b + bi) := zeroed (C1 (of_nat (b + bi)))))"
    using assms(5) fframe_area [OF w(6)] by blast
  have "balloc_in E d nb b s = Ret (Some (of_nat (b + bi))) x"
    using w(1-5) x(1) assms(6) by (simp add: balloc_in_def kexec n)
  then show ?thesis using x w(8) fframe_trans [OF w(6) x(2)] by auto
qed

lemma in_txn_emit [simp]: "in_txn p d (emit cs s) C = in_txn p d s C"
proof -
  have "content d (emit cs s) = content d s" "refs d (emit cs s) = refs d s" "owner d (emit cs s) = owner d s"
    by (simp_all add: emit_def fun_eq_iff content_def refs_def owner_def cong: option.case_cong if_cong)
  then have "cache p d (emit cs s) C R H = cache p d s C R H" for R H
    by (simp add: cache_def cache_inv_def) (simp add: emit_def)
  moreover have "logged (emit cs s) = logged s" "txn_ok (emit cs s) n = txn_ok s n" "lh_n (emit cs s) = lh_n s"
      "outstanding (emit cs s) = outstanding s" for n
    by (simp_all add: emit_def logged_def txn_ok_def log_area_def log_slots_def log_head_def log_slot_def)
  ultimately show ?thesis by (simp add: in_txn_def fs_view_def)
qed

lemma balloc_scan:
  fixes s :: "'x fs_st_scheme"
  assumes "in_txn p d s C" "log_room 1 s"
    and "\<And>k bi. k \<in> set ks \<Longrightarrow> bi < BPB \<Longrightarrow> k * BPB + bi < n \<Longrightarrow> map_bit (C (BBLOCK (of_nat (k * BPB)) (sb s))) bi"
  shows "\<exists>t. kfind (balloc_in E d n) (map (\<lambda>k. k * BPB) ks) s = Ret None t \<and> fframe s t \<and> in_txn p d t C \<and> lh_n t = lh_n s"
  using assms
proof (induction ks arbitrary: s)
  case (Cons k ks)
  obtain t where t: "balloc_in E d n (k * BPB) s = Ret None t" "fframe s t" "in_txn p d t C" "lh_n t = lh_n s"
    using balloc_in_full [OF Cons.prems(1,2), of "k * BPB" n E] Cons.prems(3) [of k] by auto
  have "log_room 1 t" using Cons.prems(2) t(2,4) by (simp add: log_room_def fframe_fields)
  from Cons.IH [OF t(3) this] Cons.prems(3) obtain u where
      "kfind (balloc_in E d n) (map (\<lambda>k. k * BPB) ks) t = Ret None u" "fframe t u" "in_txn p d u C" "lh_n u = lh_n t"
    using fframe_fs(2) [OF t(2)] by auto
  with t show ?case using fframe_trans by (auto simp: kexec)
qed simp

lemma in_use_block:
  assumes "k * BPB + bi < 2 ^ 32" "bi < BPB"
  shows "in_use C S (k * BPB + bi) = map_bit (C (BBLOCK (of_nat (k * BPB)) S)) bi"
proof -
  have "BBLOCK (of_nat (k * BPB + bi)) S = BBLOCK (of_nat (k * BPB)) S"
    using assms by (subst BBLOCK_eq) (auto simp: BPB_def)
  then show ?thesis using assms(2) by (simp add: in_use_def del: of_nat_add)
qed

lemma balloc_first:
  fixes s :: "'x fs_st_scheme"
  assumes "in_txn p d s C" "log_room 2 s" "S = sb s" "n < 2 ^ 32" "BBLOCK (of_nat b) S \<notin> log_area s" "of_nat b \<notin> log_area s"
    and b: "b < n" "\<not> in_use C S b" "\<And>c. c < b \<Longrightarrow> in_use C S c"
    and C1: "C1 = C(BBLOCK (of_nat b) S := set_map_bit (b mod BPB) (C (BBLOCK (of_nat b) S)))"
  shows "\<exists>t. kfind (balloc_in E d n) (map_starts n) s = Ret (Some (of_nat b)) t \<and> fframe s t \<and>
    in_txn p d t (C1(of_nat b := zeroed (C1 (of_nat b)))) \<and> lh_n t \<le> lh_n s + 2"
proof -
  define k where "k = b div BPB"
  define bi where "bi = b mod BPB"
  have bk: "b = k * BPB + bi" "bi < BPB" by (simp_all add: k_def bi_def BPB_def)
  let ?n = "BBLOCK (of_nat (k * BPB)) (sb s)"
  have nb: "?n = BBLOCK (of_nat b) S" using bk assms(4) b(1) unfolding assms(3) by (subst BBLOCK_eq) (auto simp: BPB_def)
  have full: "map_bit (C (BBLOCK (of_nat (j * BPB)) (sb s))) i" if "j \<in> set [0..<k]" "i < BPB" for j i
  proof -
    have "j * BPB + i < Suc j * BPB" using that(2) by simp
    also have "\<dots> \<le> k * BPB" using that(1) by (intro mult_le_mono1) simp
    finally have lt: "j * BPB + i < b" using bk(1) by simp
    then show ?thesis using b(1) b(3) [of "j * BPB + i"] in_use_block [of j i C S] that(2) assms(3,4) by simp
  qed
  have r: "log_room 1 s" using assms(2) by (simp add: log_room_def)
  obtain t where t: "kfind (balloc_in E d n) (map (\<lambda>k. k * BPB) [0..<k]) s = Ret None t" "fframe s t" "in_txn p d t C" "lh_n t = lh_n s"
    using balloc_scan [OF assms(1) r full] by blast
  have sbt: "sb t = sb s" "log_area t = log_area s" using fframe_fs(2) [OF t(2)] fframe_area [OF t(2)] .
  have m: "map_bit (C ?n) i = in_use C S (k * BPB + i)" if "i \<le> bi" for i
    using in_use_block [of k i C S] that bk b(1) assms(3,4) by simp
  have "first_idx (\<lambda>bi. \<not> map_bit (C ?n) bi) (min BPB (n - k * BPB)) = Some bi"
    using bk b m by (simp add: first_idx_Some)
  then have "\<exists>u. balloc_in E d n (k * BPB) t = Ret (Some (of_nat (k * BPB + bi))) u \<and> fframe t u \<and>
      in_txn p d u (C1(of_nat (k * BPB + bi) := zeroed (C1 (of_nat (k * BPB + bi))))) \<and> lh_n u \<le> lh_n t + 2"
    using assms(2,5,6) t(4) fframe_fields(6) [OF t(2)] sbt nb C1 bk
    by (intro balloc_in_free [OF _ t(3)]) (auto simp: log_room_def simp flip: bi_def)
  then obtain u where u: "balloc_in E d n (k * BPB) t = Ret (Some (of_nat b)) u" "fframe t u" "lh_n u \<le> lh_n s + 2"
      "in_txn p d u (C1(of_nat b := zeroed (C1 (of_nat b))))" unfolding bk(1) [symmetric] t(4) by blast
  let ?N = "(n + BPB - 1) div BPB"
  have "k < ?N" using b(1) by (auto simp: k_def BPB_def)
  then have "[0..<?N] = [0..<k] @ k # [Suc k..<?N]" by (rule upt_split)
  then have "kfind (balloc_in E d n) (map_starts n) s = Ret (Some (of_nat b)) u"
    using t(1) u(1) by (simp add: map_starts_def kfind_append kexec)
  with u fframe_trans [OF t(2)] show ?thesis by blast
qed

text \<open>C8: \<^verbatim>\<open>balloc\<close> allocates the first block that the free map shows as free, whatever the number of map blocks:
  afterwards exactly this block is used in addition, its contents are zero and no other block but the map
  block has changed. It runs inside a transaction and adds at most two blocks to it. With every block in use it
  returns 0 and changes no block.\<close>

theorem balloc_spec:
  fixes s :: "'x fs_st_scheme"
  assumes "in_txn p d s C" "log_room 2 s" "\<not> panicked s" "S = sb s" "n = unat (sb_size S)"
    and "\<forall>b<n. BBLOCK (of_nat b) S \<notin> log_area s"
    and "\<forall>b<n. \<not> in_use C S b \<longrightarrow> of_nat b \<notin> log_area s \<and> (\<forall>c<n. of_nat b \<noteq> BBLOCK (of_nat c) S)"
  shows "case first_idx (\<lambda>b. \<not> in_use C S b) n of
      None \<Rightarrow> \<exists>t. balloc E d s = Ret 0 t \<and> in_txn p d t C
    | Some b \<Rightarrow> \<exists>t C'. balloc E d s = Ret (of_nat b) t \<and> in_txn p d t C' \<and> fframe s t \<and> lh_n t \<le> lh_n s + 2 \<and>
        (\<forall>c<n. in_use C' S c \<longleftrightarrow> c = b \<or> in_use C S c) \<and> (\<forall>i<BSIZE. C' (of_nat b) i = 0) \<and>
        (\<forall>m. m \<noteq> of_nat b \<and> m \<noteq> BBLOCK (of_nat b) S \<longrightarrow> C' m = C m)"
proof -
  have n: "n < 2 ^ 32" using assms(5) unsigned_less [of "sb_size S"] by simp
  have r: "log_room 1 s" using assms(2) by (simp add: log_room_def)
  let ?N = "(n + BPB - 1) div BPB"
  show ?thesis
  proof (cases "first_idx (\<lambda>b. \<not> in_use C S b) n")
    case None
    then have u: "in_use C S b" if "b < n" for b using that by (simp add: first_idx_None)
    have "map_bit (C (BBLOCK (of_nat (k * BPB)) (sb s))) bi" if "bi < BPB" "k * BPB + bi < n" for k bi
      using u [OF that(2)] in_use_block [of k bi C S] that n assms(4) by simp
    then obtain t where t: "kfind (balloc_in E d n) (map_starts n) s = Ret None t" "fframe s t" "in_txn p d t C"
      using balloc_scan [OF assms(1) r, of "[0..<?N]" n E] unfolding map_starts_def by blast
    have "can_print t" "free PrLock (hs t)"
      using assms(1,3) fframe_fields(1,9) [OF t(2)] by (auto simp: in_txn_def fs_view_def cache_def can_print_def)
    moreover have "\<exists>cs. fmt_chars ''balloc: out of blocks\<newline>'' [] = Some cs" by (rule fmt_chars_plain) simp
    ultimately obtain cs where "printf ''balloc: out of blocks\<newline>'' [] t = Ret () (emit cs t)" using printf_emits by blast
    then show ?thesis using None t(1,3) assms(4,5) by (auto simp: balloc_def kexec)
  next
    case (Some b)
    then have b: "b < n" "\<not> in_use C S b" "\<And>c. c < b \<Longrightarrow> in_use C S c" by (auto simp: first_idx_Some)
    let ?n = "BBLOCK (of_nat b) S"
    let ?C = "C(?n := set_map_bit (b mod BPB) (C ?n))"
    have o: "of_nat b \<notin> log_area s" "\<And>c. c < n \<Longrightarrow> of_nat b \<noteq> BBLOCK (of_nat c) S" "?n \<notin> log_area s"
      using assms(6,7) b(1,2) by auto
    obtain t where t: "kfind (balloc_in E d n) (map_starts n) s = Ret (Some (of_nat b)) t" "fframe s t" "lh_n t \<le> lh_n s + 2"
        "in_txn p d t (?C(of_nat b := zeroed (?C (of_nat b))))"
      using balloc_first [OF assms(1,2,4) n o(3,1) b refl] by blast
    define D where "D = ?C(of_nat b := zeroed (?C (of_nat b)))"
    have "in_use D S c \<longleftrightarrow> c = b \<or> in_use C S c" if "c < n" for c
      using o(2) [OF that] in_use_upd(1) [of b c ?n S C] that b(1) n by (simp add: in_use_def D_def)
    moreover have "balloc E d s = Ret (of_nat b) t" using t(1) assms(4,5) by (simp add: balloc_def kexec)
    moreover have "D (of_nat b) i = 0" if "i < BSIZE" for i using that by (simp add: D_def zeroed_nth)
    moreover have "D m = C m" if "m \<noteq> of_nat b" "m \<noteq> ?n" for m using that by (simp add: D_def)
    ultimately show ?thesis using Some t(2-4) unfolding D_def [symmetric] by auto
  qed
qed

text \<open>C18: \<^verbatim>\<open>bfree\<close> marks a used block as free and changes nothing else; freeing a block that is already free
  panics.\<close>

theorem bfree_spec:
  fixes s :: "'x fs_st_scheme"
  assumes "in_txn p d s C" "log_room 1 s" "S = sb s" "BBLOCK b S \<notin> log_area s"
  shows "if in_use C S (unat b)
    then \<exists>t C'. bfree E d b s = Ret () t \<and> in_txn p d t C' \<and> fframe s t \<and> lh_n t \<le> lh_n s + 1 \<and>
      (\<forall>c<2 ^ 32. in_use C' S c \<longleftrightarrow> c \<noteq> unat b \<and> in_use C S c) \<and> (\<forall>m. m \<noteq> BBLOCK b S \<longrightarrow> C' m = C m)
    else bfree E d b s = Panic ''freeing free block''"
proof -
  let ?n = "BBLOCK b S" and ?i = "unat b mod BPB"
  let ?C = "C(?n := clear_map_bit ?i (C ?n))"
  obtain bp t u v w where w: "bread E d ?n s = Ret bp t" "bdata (bufs t bp) = C ?n"
      "set_data bp (clear_map_bit ?i) t = Ret () u" "log_write bp u = Ret () v" "brelse bp v = Ret () w" "fframe s w"
      "in_txn p d w ?C" "lh_n w \<le> lh_n s + 1"
    using change_block [OF assms(1,2,4), of E "clear_map_bit ?i"] by blast
  have iu: "in_use C S (unat b) = map_bit (C ?n) ?i" by (simp add: in_use_def)
  have "unat b < 2 ^ 32" using unsigned_less [of b, where 'a = nat] by simp
  then have "\<forall>c<2 ^ 32. in_use ?C S c \<longleftrightarrow> c \<noteq> unat b \<and> in_use C S c"
    using in_use_upd(2) [of "unat b" _ ?n S C] by simp
  moreover have "bfree E d b s = (if in_use C S (unat b) then Ret () w else Panic ''freeing free block'')"
    using w(1-5) assms(3) unfolding iu by (simp add: bfree_def kexec)
  moreover have "\<forall>m. m \<noteq> ?n \<longrightarrow> ?C m = C m" by simp
  ultimately show ?thesis using w(6-8) by auto
qed

section \<open>Inodes on disk\<close>

lemma load_store_other:
  fixes v :: "nat memory"
  shows "b + 2 \<le> a \<or> a + 2 \<le> b \<Longrightarrow> load16 (store16 v a x) b = load16 v b"
    "b + 2 \<le> a \<or> a + 4 \<le> b \<Longrightarrow> load16 (store32 v a y) b = load16 v b"
    "b + 4 \<le> a \<or> a + 2 \<le> b \<Longrightarrow> load32 (store16 v a x) b = load32 v b"
  by (simp_all add: mem_defs load_store_disjoint_nat)

lemma put_addrs_Suc: "put_addrs f (Suc n) a v = store32 (put_addrs f n a v) (a + 4 * n) (f n)"
  by (simp add: put_addrs_def)

lemma put_addrs_load:
  "i < n \<Longrightarrow> load32 (put_addrs f n a v) (a + 4 * i) = f i"
  "b + 4 \<le> a \<Longrightarrow> load32 (put_addrs f n a v) b = load32 v b"
  "b + 2 \<le> a \<Longrightarrow> load16 (put_addrs f n a v) b = load16 v b"
  by (induction n) (auto simp: put_addrs_Suc load32_store32_other load_store_other less_Suc_eq put_addrs_def [of f 0])

lemma store_other:
  fixes v :: "nat memory"
  shows "x < a \<or> a + 2 \<le> x \<Longrightarrow> store16 v a y x = v x" "x < a \<or> a + 4 \<le> x \<Longrightarrow> store32 v a z x = v x"
  by (auto simp: mem_defs store_bytes_nat)

lemma put_addrs_other: "x < a \<or> a + 4 * n \<le> x \<Longrightarrow> put_addrs f n a v x = v x"
  by (induction n) (auto simp: put_addrs_Suc store_other put_addrs_def [of f 0])

lemma put_dinode_other: "x < a \<or> a + 64 \<le> x \<Longrightarrow> put_dinode r a v x = v x"
  by (auto simp: put_dinode_def put_addrs_other store_other NDIRECT_def)

definition same_dinode :: "dinode \<Rightarrow> dinode \<Rightarrow> bool" where
  "same_dinode r q \<longleftrightarrow> dtype r = dtype q \<and> dmajor r = dmajor q \<and> dminor r = dminor q \<and> dnlink r = dnlink q \<and>
     dsize r = dsize q \<and> (\<forall>i\<le>NDIRECT. daddrs r i = daddrs q i)"

definition disk_inode :: "(u32 \<Rightarrow> block) \<Rightarrow> superblock \<Rightarrow> u32 \<Rightarrow> dinode" where
  "disk_inode C S i = get_dinode (C (IBLOCK i S)) (dinode_off i)"

lemma get_put_dinode: "same_dinode (get_dinode (put_dinode r a v) a) r"
  by (simp add: same_dinode_def get_dinode_def put_dinode_def put_addrs_load load_store_other)

lemma get_dinode_cong:
  assumes "\<And>x. b \<le> x \<Longrightarrow> x < b + 64 \<Longrightarrow> v x = w x"
  shows "same_dinode (get_dinode v b) (get_dinode w b)"
proof -
  have "load_bytes v (b + k) l = load_bytes w (b + k) l" if "k + l \<le> 64" for k l
    using that assms by (intro load_bytes_cong) auto
  from this [of 0 2] this [of 2 2] this [of 4 2] this [of 6 2] this [of 8 4] this [of "12 + 4 * _" 4]
  show ?thesis by (simp add: same_dinode_def get_dinode_def mem_defs NDIRECT_def add.assoc)
qed

lemma load_inode_same: "same_dinode r (inode_disk q) \<Longrightarrow> load_inode r q = q"
  by (simp add: same_dinode_def inode_disk_def load_inode_def fun_eq_iff)

lemma dinode_off_distinct:
  assumes "i \<noteq> j" "IBLOCK i S = IBLOCK j S"
  shows "dinode_off i + 64 \<le> dinode_off j \<or> dinode_off j + 64 \<le> dinode_off i"
proof -
  have "unat i div IPB = unat j div IPB"
    using assms(2) unfolding IBLOCK_def add_right_cancel by (simp add: word_unat_eq_iff unat_div IPB_def)
  with assms(1) have "unat i mod IPB \<noteq> unat j mod IPB" using div_mod_eq by (metis word_unat_eq_iff)
  moreover have "k \<noteq> l \<Longrightarrow> 64 * k + 64 \<le> 64 * l \<or> 64 * l + 64 \<le> 64 * k" for k l :: nat by arith
  ultimately show ?thesis unfolding dinode_off_def by blast
qed

lemma iupdate_rule:
  fixes s :: "'x fs_st_scheme"
  assumes "in_txn p d s C" "log_room 1 s" "S = sb s" "r = itable s ip" "idev r = d" "IBLOCK (inum r) S \<notin> log_area s"
  shows "\<exists>t C'. iupdate E ip s = Ret () t \<and> in_txn p d t C' \<and> fframe s t \<and> lh_n t \<le> lh_n s + 1 \<and>
    same_dinode (disk_inode C' S (inum r)) (inode_disk r) \<and> load_inode (disk_inode C' S (inum r)) r = r \<and>
    (\<forall>i. i \<noteq> inum r \<longrightarrow> same_dinode (disk_inode C' S i) (disk_inode C S i)) \<and>
    (\<forall>m. m \<noteq> IBLOCK (inum r) S \<longrightarrow> C' m = C m)"
proof -
  let ?n = "IBLOCK (inum r) S" and ?f = "put_dinode (inode_disk r) (dinode_off (inum r))"
  let ?C = "C(?n := ?f (C ?n))"
  obtain bp t u v w where w: "bread E d ?n s = Ret bp t" "fframe s t"
      "set_data bp ?f t = Ret () u" "log_write bp u = Ret () v" "brelse bp v = Ret () w" "fframe s w"
      "in_txn p d w ?C" "lh_n w \<le> lh_n s + 1"
    using change_block [OF assms(1,2,6), of E ?f] by blast
  have "iupdate E ip s = Ret () w" using w(1-5) assms(3-5) fframe_fs(1) [OF w(2)] by (simp add: iupdate_def kexec)
  moreover have "same_dinode (disk_inode ?C S (inum r)) (inode_disk r)" by (simp add: disk_inode_def get_put_dinode)
  moreover have "same_dinode (disk_inode ?C S i) (disk_inode C S i)" if "i \<noteq> inum r" for i
  proof (cases "IBLOCK i S = ?n")
    case True
    show ?thesis using dinode_off_distinct [OF that True] True unfolding disk_inode_def
      by (intro get_dinode_cong) (auto simp: put_dinode_other)
  qed (simp add: disk_inode_def same_dinode_def)
  ultimately show ?thesis using w(6-8) load_inode_same by (intro exI [of _ w] exI [of _ ?C]) simp
qed

lemma in_txn_itable [simp]:
  fixes s :: "'x fs_st_scheme"
  shows "in_txn p d (s\<lparr>itable := I\<rparr>) C = in_txn p d s C"
proof -
  let ?t = "s\<lparr>itable := I\<rparr>"
  have "content d ?t = content d s" "refs d ?t = refs d s" "owner d ?t = owner d s"
    by (simp_all add: fun_eq_iff content_def refs_def owner_def cong: option.case_cong if_cong)
  then have "cache p d ?t C R H = cache p d s C R H" for R H
    by (simp add: cache_def cache_inv_def)
  moreover have "logged ?t = logged s" "txn_ok ?t n = txn_ok s n" for n
    by (simp_all add: logged_def txn_ok_def log_area_def log_slots_def log_head_def log_slot_def)
  ultimately show ?thesis by (simp add: in_txn_def fs_view_def)
qed

text \<open>C17: \<^verbatim>\<open>iupdate\<close> writes the in-memory inode to its place on the disk: reading it back, as \<^verbatim>\<open>ilock\<close> does, gives the
  same inode, every other inode on the disk (also those in the same block) is unchanged, and so is every other
  block.\<close>

theorem iupdate_spec:
  fixes s :: "'x fs_st_scheme"
  assumes "in_txn p d s C" "log_room 1 s" "S = sb s" "r = itable s ip" "idev r = d" "IBLOCK (inum r) S \<notin> log_area s"
  shows "\<exists>t C'. iupdate E ip s = Ret () t \<and> in_txn p d t C' \<and> fframe s t \<and> lh_n t \<le> lh_n s + 1 \<and>
    same_dinode (disk_inode C' S (inum r)) (inode_disk r) \<and> load_inode (disk_inode C' S (inum r)) r = r \<and>
    (\<forall>i. i \<noteq> inum r \<longrightarrow> same_dinode (disk_inode C' S i) (disk_inode C S i)) \<and>
    (\<forall>m. m \<noteq> IBLOCK (inum r) S \<longrightarrow> C' m = C m)"
  by (rule iupdate_rule [OF assms])

section \<open>Example\<close>

text \<open>The first 48 blocks are in use.\<close>

definition disk_ex :: "u32 \<Rightarrow> block" where
  "disk_ex n i = (if i < 6 then 255 else 0)"

lemma fs_ex_txn: "in_txn 3 1 (fs_ex D I) D" "log_room 29 (fs_ex D I)"
proof -
  have "pins {} = (\<lambda>_. 0)" by (simp add: pins_def fun_eq_iff)
  then show "in_txn 3 1 (fs_ex D I) D"
    using fs_ex_cache [of D I] by (simp add: in_txn_def fs_view_def logged_def txn_ok_def)
  show "log_room 29 (fs_ex D I)" by (simp add: log_room_def LOGSIZE_def MAXOPBLOCKS_def)
qed

lemma log_room_mono: "log_room k s \<Longrightarrow> j \<le> k \<Longrightarrow> log_room j s"
  by (simp add: log_room_def)

lemma fs_ex_area: "m \<in> log_area (fs_ex D I) \<Longrightarrow> unat m < 32"
proof -
  assume "m \<in> log_area (fs_ex D I)"
  then consider "m = 2" | i where "i < 29" "m = 3 + of_nat i"
    by (auto simp: log_area_def log_head_def log_slot_def log_slots_def)
  then show ?thesis
  proof cases
    case 2
    have "unat (of_nat (3 + i) :: u32) = 3 + i" using 2(1) by (intro unat_of_nat_small) simp
    then show ?thesis using 2 by simp
  qed simp
qed

lemma BBLOCK_ex: "b < 2000 \<Longrightarrow> BBLOCK (of_nat b) sb_ex = 45"
  using BBLOCK_eq [of b 0 sb_ex] by (simp add: BPB_def) (simp add: BBLOCK_def sb_ex_def)

lemma in_use_ex: "b < 2000 \<Longrightarrow> in_use disk_ex sb_ex b \<longleftrightarrow> b < 48"
proof -
  have "(255 :: u8) = - 1" by simp
  then have "bit (255 :: u8) (b mod 8)" by (simp only: bit_minus_1_iff) simp
  then show "b < 2000 \<Longrightarrow> ?thesis" by (auto simp: in_use_def BBLOCK_ex map_bit_iff disk_ex_def BPB_def)
qed

theorem balloc_spec_witness:
  "\<exists>t C'. balloc (\<lambda>_ u. u) 1 (fs_ex disk_ex (\<lambda>_. inode0)) = Ret 48 t \<and> in_txn 3 1 t C' \<and> in_use C' sb_ex 48"
proof -
  let ?s = "fs_ex disk_ex (\<lambda>_. inode0)"
  have f: "first_idx (\<lambda>b. \<not> in_use disk_ex sb_ex b) 2000 = Some 48" by (simp add: first_idx_Some in_use_ex)
  have m: "\<forall>b<2000. BBLOCK (of_nat b) sb_ex \<notin> log_area ?s" using fs_ex_area [of 45] by (auto simp: BBLOCK_ex)
  have g: "\<forall>b<2000. \<not> in_use disk_ex sb_ex b \<longrightarrow> of_nat b \<notin> log_area ?s \<and> (\<forall>c<2000. of_nat b \<noteq> BBLOCK (of_nat c) sb_ex)"
  proof (intro allI impI conjI)
    fix b :: nat assume b: "b < 2000" "\<not> in_use disk_ex sb_ex b"
    then have u: "unat (of_nat b :: u32) = b" "48 \<le> b" by (simp_all add: unat_of_nat_small in_use_ex)
    then show "of_nat b \<notin> log_area ?s" using fs_ex_area [of "of_nat b"] by auto
    show "of_nat b \<noteq> BBLOCK (of_nat c) sb_ex" if "c < 2000" for c using u that by (auto simp: BBLOCK_ex)
  qed
  have "unat (sb_size sb_ex) = 2000" by (simp add: sb_ex_def)
  then obtain t C' where "balloc (\<lambda>_ u. u) 1 ?s = Ret 48 t" "in_txn 3 1 t C'"
      and u: "\<forall>c<2000. in_use C' sb_ex c = (c = 48 \<or> in_use disk_ex sb_ex c)"
    using balloc_spec [OF fs_ex_txn(1) log_room_mono [OF fs_ex_txn(2)], of disk_ex "\<lambda>_. inode0" sb_ex 2000 "\<lambda>_ u. u"] f m g
    by auto
  moreover have "in_use C' sb_ex 48" using u by simp
  ultimately show ?thesis by blast
qed

theorem bfree_spec_witness:
  "(\<exists>t C'. bfree (\<lambda>_ u. u) 1 47 (fs_ex disk_ex (\<lambda>_. inode0)) = Ret () t \<and> in_txn 3 1 t C' \<and> \<not> in_use C' sb_ex 47) \<and>
   bfree (\<lambda>_ u. u) 1 48 (fs_ex disk_ex (\<lambda>_. inode0)) = Panic ''freeing free block''"
proof -
  have b: "BBLOCK 47 sb_ex = 45" "BBLOCK 48 sb_ex = 45" using BBLOCK_ex [of 47] BBLOCK_ex [of 48] by simp_all
  have "45 \<notin> log_area (fs_ex disk_ex (\<lambda>_. inode0))" using fs_ex_area [of 45] by auto
  then show ?thesis
    using bfree_spec [OF fs_ex_txn(1) log_room_mono [OF fs_ex_txn(2)], of sb_ex disk_ex "\<lambda>_. inode0" 47 "\<lambda>_ u. u"]
      bfree_spec [OF fs_ex_txn(1) log_room_mono [OF fs_ex_txn(2)], of sb_ex disk_ex "\<lambda>_. inode0" 48 "\<lambda>_ u. u"]
    by (auto simp: b in_use_ex elim!: allE [of _ 47])
qed

theorem iupdate_spec_witness:
  "\<exists>t C'. iupdate (\<lambda>_ u. u) 0 (fs_ex disk_ex (\<lambda>_. inode0\<lparr>idev := 1, inum := 7, isize := 99\<rparr>)) = Ret () t \<and>
    in_txn 3 1 t C' \<and> dsize (disk_inode C' sb_ex 7) = 99"
proof -
  let ?r = "inode0\<lparr>idev := 1, inum := 7, isize := 99\<rparr>"
  have "IBLOCK 7 sb_ex = 32" by (simp add: IBLOCK_def sb_ex_def IPB_def)
  moreover have "32 \<notin> log_area (fs_ex disk_ex (\<lambda>_. ?r))" using fs_ex_area [of 32] by auto
  ultimately show ?thesis
    using iupdate_spec [OF fs_ex_txn(1) log_room_mono [OF fs_ex_txn(2)], of sb_ex disk_ex "\<lambda>_. ?r" ?r 0 "\<lambda>_ u. u"]
    by (auto simp: same_dinode_def inode_disk_def)
qed

end
