(* ===== verification/Fsdata.thy ===== *)
theory Fsdata
  imports Fstxn
begin

text \<open>
  The contents of files: \<^verbatim>\<open>readi\<close> and \<^verbatim>\<open>writei\<close> of \<^verbatim>\<open>kernel/fs.c\<close> as operations on the array of bytes that an
  inode with its direct and indirect blocks stands for.
\<close>

section \<open>The bytes of a file\<close>

definition file_block :: "(u32 \<Rightarrow> block) \<Rightarrow> inode \<Rightarrow> nat \<Rightarrow> u32" where
  "file_block C r bn = (if bn < NDIRECT then addrs r bn else load32 (C (addrs r NDIRECT)) (4 * (bn - NDIRECT)))"

definition file_byte :: "(u32 \<Rightarrow> block) \<Rightarrow> inode \<Rightarrow> nat \<Rightarrow> u8" where
  "file_byte C r i = C (file_block C r (i div BSIZE)) (i mod BSIZE)"

text \<open>The blocks of the first \<open>n\<close> bytes are allocated.\<close>

definition mapped :: "(u32 \<Rightarrow> block) \<Rightarrow> inode \<Rightarrow> nat \<Rightarrow> bool" where
  "mapped C r n \<longleftrightarrow> n \<le> MAXFILE * BSIZE \<and>
     (\<forall>i<n. file_block C r (i div BSIZE) \<noteq> 0 \<and> (NDIRECT \<le> i div BSIZE \<longrightarrow> addrs r NDIRECT \<noteq> 0))"

lemma mappedD:
  assumes "mapped C r n" "i < n"
  shows "file_block C r (i div BSIZE) \<noteq> 0" "NDIRECT \<le> i div BSIZE \<Longrightarrow> addrs r NDIRECT \<noteq> 0" "i div BSIZE < MAXFILE"
    "unat (of_nat (i div BSIZE) :: u32) = i div BSIZE"
proof -
  show "file_block C r (i div BSIZE) \<noteq> 0" "NDIRECT \<le> i div BSIZE \<Longrightarrow> addrs r NDIRECT \<noteq> 0"
    using assms by (auto simp: mapped_def)
  show m: "i div BSIZE < MAXFILE" using assms by (auto simp: mapped_def intro!: less_mult_imp_div_less)
  then show "unat (of_nat (i div BSIZE) :: u32) = i div BSIZE"
    by (intro unat_of_nat_small) (simp add: MAXFILE_def NDIRECT_def NINDIRECT_def)
qed

lemma bmap_mapped:
  fixes s :: "'x fs_st_scheme"
  assumes "fs_view p d s C" "lh_n s < int NBUF" "r = itable s ip" "idev r = d" "mapped C r n" "i < n"
  shows "\<exists>t. bmap E ip (of_nat (i div BSIZE)) s = Ret (file_block C r (i div BSIZE)) t \<and> fframe s t \<and> fs_view p d t C \<and>
    lh_n t = lh_n s"
proof -
  note m = mappedD [OF assms(5,6)]
  show ?thesis
  proof (cases "i div BSIZE < NDIRECT")
    case True
    then show ?thesis using m assms(1,3) by (simp add: bmap_def kexec file_block_def)
  next
    case False
    obtain b t u where t: "bread E d (addrs r NDIRECT) s = Ret b t" "bdata (bufs t b) = C (addrs r NDIRECT)"
        "brelse b t = Ret () u" "fframe s u" "fs_view p d u C" "lh_n u = lh_n s"
      using view_block [OF assms(1,2), of E "addrs r NDIRECT"] by blast
    have "i div BSIZE - NDIRECT < NINDIRECT" using m(3) False by (simp add: MAXFILE_def)
    then have "bmap E ip (of_nat (i div BSIZE)) s = Ret (file_block C r (i div BSIZE)) u"
      using False m t(1-3) assms(3,4) by (simp add: bmap_def kexec file_block_def Let_def)
    then show ?thesis using t(4-6) by blast
  qed
qed

lemma fs_view_calm: "fs_view p d s C \<Longrightarrow> calm p s"
  by (simp add: fs_view_def cache_def)

section \<open>Reading\<close>

lemma chunk_bytes:
  assumes "j < chunk left pos"
  shows "(pos + j) div BSIZE = pos div BSIZE" "(pos + j) mod BSIZE = pos mod BSIZE + j"
proof -
  have lt: "pos mod BSIZE + j < BSIZE" using assms by (simp add: chunk_def less_diff_conv add.commute)
  have "pos + j = pos div BSIZE * BSIZE + (pos mod BSIZE + j)" by simp
  then show "(pos + j) div BSIZE = pos div BSIZE" "(pos + j) mod BSIZE = pos mod BSIZE + j"
    using lt by (metis div_mult_self3 div_less add.commute add_0 BSIZE_def zero_neq_numeral, metis mod_mult_self3 mod_less)
qed

lemma chunk_file_bytes:
  "load_bytes (C (file_block C r (pos div BSIZE))) (pos mod BSIZE) (chunk left pos) =
   map (file_byte C r) [pos..<pos + chunk left pos]"
  by (rule nth_equalityI) (auto simp: nth_load_bytes file_byte_def chunk_bytes)

lemma readi_loop_local:
  fixes s :: "'x fs_st_scheme"
  assumes "fs_view p d s C" "lh_n s < int NBUF" "r = itable s ip" "idev r = d" "mapped C r (pos + left)"
  shows "\<exists>t. readi_loop E ip left pos LocalDst s = Ret (Some left, map (file_byte C r) [pos..<pos + left]) t \<and>
    fframe s t \<and> fs_view p d t C \<and> lh_n t = lh_n s"
  using assms(1-3,5-)
proof (induction left arbitrary: pos s rule: less_induct)
  case (less left)
  show ?case
  proof (cases "left = 0")
    case True
    then show ?thesis using less.prems(1) by (subst readi_loop.simps) simp
  next
    case False
    let ?m = "chunk left pos"
    have m: "?m \<le> left" "0 < ?m" using False by (auto simp: chunk_def BSIZE_def)
    have p: "pos < pos + left" using False by simp
    obtain t where t: "bmap E ip (of_nat (pos div BSIZE)) s = Ret (file_block C r (pos div BSIZE)) t" "fframe s t"
        "fs_view p d t C" "lh_n t = lh_n s"
      using bmap_mapped [OF less.prems(1,2,3) assms(4) less.prems(4) p, of E] by blast
    have "lh_n t < int NBUF" using less.prems(2) t(4) by simp
    from view_block [OF t(3) this, of E "file_block C r (pos div BSIZE)"] obtain b u v where
        u: "bread E d (file_block C r (pos div BSIZE)) t = Ret b u" "fframe t u"
          "bdata (bufs u b) = C (file_block C r (pos div BSIZE))" "brelse b u = Ret () v" "fframe t v" "fs_view p d v C"
          "lh_n v = lh_n t" by blast
    have it: "itable t = itable s" "itable v = itable s" "hs v = hs s" and f: "fframe s v"
      using fframe_fs(1) [OF t(2)] fframe_fs(1) [OF u(5)] fframe_fields(1) [OF t(2)] fframe_fields(1) [OF u(5)]
        fframe_trans [OF t(2) u(5)] by simp_all
    have "myproc u = Ret (Some p) u"
      using fs_view_calm [OF less.prems(1)] fframe_fields(1) [OF t(2)] fframe_fields(1) [OF u(2)] by (simp add: lock_rules)
    moreover obtain w where w: "readi_loop E ip (left - ?m) (pos + ?m) LocalDst v =
        Ret (Some (left - ?m), map (file_byte C r) [pos + ?m..<pos + left]) w" "fframe v w" "fs_view p d w C" "lh_n w = lh_n v"
      using less.IH [of "left - ?m" v "pos + ?m"] m less.prems u(6,7) t(4) it by auto
    ultimately have "readi_loop E ip left pos LocalDst s =
        Ret (Some left, map (file_byte C r) [pos..<pos + ?m] @ map (file_byte C r) [pos + ?m..<pos + left]) w"
      using False t(1) u(1,3,4) less.prems(3) assms(4) it(1) m mappedD(1) [OF less.prems(4) p]
      by (subst readi_loop.simps) (simp add: kexec Let_def either_copyout_def chunk_file_bytes)
    moreover have "[pos..<pos + ?m] @ [pos + ?m..<pos + left] = [pos..<pos + left]" using m(1) upt_add_eq_append [of pos "pos + ?m" "left - ?m"] by simp
    ultimately show ?thesis using fframe_trans [OF f w(2)] w(3,4) u(7) t(4) by (simp flip: map_append)
  qed
qed

lemma readi_rule:
  fixes s :: "'x fs_st_scheme"
  assumes "fs_view p d s C" "lh_n s < int NBUF" "r = itable s ip" "idev r = d" "mapped C r (unat (isize r))"
    and k: "k = min (unat n) (unat (isize r) - unat pos)"
  shows "if pos > isize r \<or> pos + n < pos then readi E ip LocalDst pos n s = Ret (0, []) s
    else \<exists>t. readi E ip LocalDst pos n s = Ret (int k, map (file_byte C r) [unat pos..<unat pos + k]) t \<and>
      fframe s t \<and> fs_view p d t C \<and> lh_n t = lh_n s"
proof (cases "pos > isize r \<or> pos + n < pos")
  case True
  then show ?thesis using assms(3) by (simp add: readi_def kexec)
next
  case False
  let ?n = "if pos + n > isize r then isize r - pos else n"
  have u: "unat (pos + n) = unat pos + unat n" "unat pos \<le> unat (isize r)"
    using False unat_plus_if' [of pos n] unsigned_less [of pos, where 'a = nat] unsigned_less [of n, where 'a = nat]
    by (auto simp: word_less_nat_alt not_less split: if_splits)
  have n: "unat ?n = k" using u by (auto simp: k word_less_nat_alt not_less unat_sub word_le_nat_alt)
  have "mapped C r (unat pos + k)" using assms(5) u(2) by (auto simp: mapped_def k)
  then obtain t where "readi_loop E ip k (unat pos) LocalDst s = Ret (Some k, map (file_byte C r) [unat pos..<unat pos + k]) t"
      "fframe s t" "fs_view p d t C" "lh_n t = lh_n s" using readi_loop_local [OF assms(1-4)] by blast
  then show ?thesis using False assms(3) n unfolding readi_def by (auto simp: kexec Let_def split: if_splits)
qed

section \<open>Writing\<close>

text \<open>The blocks of the first \<open>n\<close> bytes are allocated, distinct, not the block of indirect addresses and outside \<open>A\<close>.\<close>

definition laid_out :: "u32 set \<Rightarrow> (u32 \<Rightarrow> block) \<Rightarrow> inode \<Rightarrow> nat \<Rightarrow> bool" where
  "laid_out A C r n \<longleftrightarrow> mapped C r n \<and>
     (\<forall>i<n. file_block C r (i div BSIZE) \<noteq> addrs r NDIRECT \<and> file_block C r (i div BSIZE) \<notin> A) \<and>
     (\<forall>i<n. \<forall>j<n. file_block C r (i div BSIZE) = file_block C r (j div BSIZE) \<longrightarrow> i div BSIZE = j div BSIZE)"

text \<open>\<open>C'\<close> differs from \<open>C\<close> at most in the blocks of the first \<open>n\<close> bytes.\<close>

definition only_file :: "(u32 \<Rightarrow> block) \<Rightarrow> (u32 \<Rightarrow> block) \<Rightarrow> inode \<Rightarrow> nat \<Rightarrow> bool" where
  "only_file C C' r n \<longleftrightarrow> (\<forall>m. (\<forall>i<n. m \<noteq> file_block C r (i div BSIZE)) \<longrightarrow> C' m = C m)"

lemma only_file_block:
  assumes "laid_out A C r n" "only_file C C' r n"
  shows "file_block C' r bn = file_block C r bn"
proof -
  have "C' (addrs r NDIRECT) = C (addrs r NDIRECT)"
    using assms unfolding only_file_def laid_out_def by metis
  then show ?thesis by (simp add: file_block_def)
qed

lemma only_file_layout: "laid_out A C r n \<Longrightarrow> only_file C C' r n \<Longrightarrow> laid_out A C' r n"
  by (simp add: laid_out_def [of A C'] mapped_def only_file_block) (simp add: laid_out_def mapped_def)

lemma only_file_trans:
  "laid_out A C r n \<Longrightarrow> only_file C C' r n \<Longrightarrow> only_file C' C'' r n \<Longrightarrow> only_file C C'' r n"
  by (simp add: only_file_def [of C'] only_file_block) (simp add: only_file_def)

text \<open>Storing a chunk in its block.\<close>

definition put_chunk :: "(u32 \<Rightarrow> block) \<Rightarrow> inode \<Rightarrow> nat \<Rightarrow> u8 list \<Rightarrow> u32 \<Rightarrow> block" where
  "put_chunk C r pos bs = C(file_block C r (pos div BSIZE) := store_bytes (C (file_block C r (pos div BSIZE))) (pos mod BSIZE) bs)"

lemma put_chunk_only: "pos < n \<Longrightarrow> only_file C (put_chunk C r pos bs) r n"
  by (auto simp: only_file_def put_chunk_def)

lemma put_chunk_bytes:
  assumes "laid_out A C r n" "length bs = chunk left pos" "pos < n" "i < n"
  shows "file_byte (put_chunk C r pos bs) r i = (if pos \<le> i \<and> i < pos + length bs then bs ! (i - pos) else file_byte C r i)"
proof -
  let ?D = "put_chunk C r pos bs"
  have fb: "file_block ?D r bn = file_block C r bn" for bn
    by (rule only_file_block [OF assms(1) put_chunk_only [OF assms(3)]])
  show ?thesis
  proof (cases "i div BSIZE = pos div BSIZE")
    case True
    have b: "i = pos div BSIZE * BSIZE + i mod BSIZE" "pos = pos div BSIZE * BSIZE + pos mod BSIZE"
      using True by (metis div_mult_mod_eq, simp)
    have "pos \<le> i \<longleftrightarrow> pos mod BSIZE \<le> i mod BSIZE" "i < pos + length bs \<longleftrightarrow> i mod BSIZE < pos mod BSIZE + length bs"
      "i - pos = i mod BSIZE - pos mod BSIZE" using b by linarith+
    then show ?thesis using True by (simp add: file_byte_def fb) (simp add: put_chunk_def store_bytes_nat)
  next
    case False
    then have "file_block C r (i div BSIZE) \<noteq> file_block C r (pos div BSIZE)" using assms(1,3,4) by (auto simp: laid_out_def)
    moreover have "\<not> (pos \<le> i \<and> i < pos + length bs)"
    proof
      assume a: "pos \<le> i \<and> i < pos + length bs"
      then have "i - pos < chunk left pos" using assms(2) by linarith
      from chunk_bytes(1) [OF this] a False show False by simp
    qed
    ultimately show ?thesis by (auto simp: file_byte_def fb) (simp_all add: put_chunk_def)
  qed
qed

text \<open>The number of blocks that \<open>left\<close> bytes from \<open>pos\<close> on touch.\<close>

definition nblk :: "nat \<Rightarrow> nat \<Rightarrow> nat" where
  "nblk left pos = (if left = 0 then 0 else Suc ((pos mod BSIZE + left - 1) div BSIZE))"

lemma nblk_chunk:
  assumes "0 < left"
  shows "nblk left pos = Suc (nblk (left - chunk left pos) (pos + chunk left pos))"
proof (cases "pos mod BSIZE + left \<le> BSIZE")
  case True
  then have "chunk left pos = left" by (simp add: chunk_def)
  then show ?thesis using assms True by (simp add: nblk_def)
next
  case False
  let ?k = "BSIZE - pos mod BSIZE"
  have B: "pos mod BSIZE < BSIZE" by (simp add: BSIZE_def)
  have c: "chunk left pos = ?k" using False by (simp add: chunk_def)
  have "(pos + ?k) mod BSIZE = (pos mod BSIZE + ?k) mod BSIZE" by (simp add: mod_simps)
  then have m: "(pos + ?k) mod BSIZE = 0" using B by simp
  have "pos mod BSIZE + left - 1 = (left - ?k - 1) + BSIZE" using False B by simp
  then have "(pos mod BSIZE + left - 1) div BSIZE = Suc ((left - ?k - 1) div BSIZE)"
    using B by (simp only: div_add_self2)
  then show ?thesis using assms False B m by (simp add: nblk_def c)
qed

lemma writei_step:
  fixes s :: "'x fs_st_scheme"
  assumes "in_txn p d s C" "log_room 1 s" "r = itable s ip" "idev r = d" "laid_out A C r n" "log_area s \<subseteq> A"
    and "0 < left" "pos + left \<le> n" "length bs = left" "m = chunk left pos" "C1 = put_chunk C r pos (take m bs)"
  shows "\<exists>t. fframe s t \<and> in_txn p d t C1 \<and> lh_n t \<le> lh_n s + 1 \<and>
    writei_loop E ip left pos (LocalSrc bs) s =
      bind (writei_loop E ip (left - m) (pos + m) (LocalSrc (drop m bs))) (\<lambda>tot. ret (m + tot)) t"
proof -
  let ?a = "file_block C r (pos div BSIZE)"
  have pn: "pos < n" using assms(7,8) by simp
  have lo: "mapped C r n" "?a \<notin> log_area s" "?a \<noteq> 0"
    using assms(5,6) pn mappedD(1) [of C r n pos] by (auto simp: laid_out_def)
  have v: "fs_view p d s C" "lh_n s < int NBUF" using assms(1) log_room_spare [OF assms(2)] by (simp_all add: in_txn_def)
  obtain t where t: "bmap E ip (of_nat (pos div BSIZE)) s = Ret ?a t" "fframe s t" "fs_view p d t C" "lh_n t = lh_n s"
    using bmap_mapped [OF v assms(3,4) lo(1) pn, of E] by blast
  have it: "itable t = itable s" "in_txn p d t C" "log_room 1 t" "?a \<notin> log_area t"
    using fframe_fs(1) [OF t(2)] t(2-4) assms(1,2) lo(2) by (simp_all add: in_txn_def fframe_fields log_room_def fframe_area)
  obtain b u x y z where u: "bread E d ?a t = Ret b u" "fframe t u"
      "set_data b (\<lambda>v. store_bytes v (pos mod BSIZE) (take m bs)) u = Ret () x"
      "log_write b x = Ret () y" "brelse b y = Ret () z" "fframe t z" "in_txn p d z C1" "lh_n z \<le> lh_n t + 1"
    using change_block [OF it(2-4), of E "\<lambda>v. store_bytes v (pos mod BSIZE) (take m bs)"]
    unfolding assms(11) put_chunk_def by blast
  have "myproc u = Ret (Some p) u"
    using fs_view_calm [OF v(1)] fframe_fields(1) [OF t(2)] fframe_fields(1) [OF u(2)] by (simp add: lock_rules)
  then have "writei_loop E ip left pos (LocalSrc bs) s =
      bind (writei_loop E ip (left - m) (pos + m) (LocalSrc (drop m bs))) (\<lambda>tot. ret (m + tot)) z"
    using assms(3,4,7,10) t(1) u(1,3-5) it(1) lo(3)
    by (subst writei_loop.simps) (simp add: kexec Let_def either_copyin_def)
  then show ?thesis using fframe_trans [OF t(2) u(6)] u(7,8) t(4) by auto
qed

lemma writei_loop_local:
  fixes s :: "'x fs_st_scheme"
  assumes "in_txn p d s C" "log_room (nblk left pos) s" "r = itable s ip" "idev r = d" "laid_out A C r n" "log_area s \<subseteq> A"
    and "pos + left \<le> n" "length bs = left"
  shows "\<exists>t C'. writei_loop E ip left pos (LocalSrc bs) s = Ret left t \<and> fframe s t \<and> in_txn p d t C' \<and>
    lh_n t \<le> lh_n s + int (nblk left pos) \<and> only_file C C' r n \<and>
    (\<forall>i<n. file_byte C' r i = (if pos \<le> i \<and> i < pos + left then bs ! (i - pos) else file_byte C r i))"
  using assms(1-3,5-)
proof (induction left arbitrary: pos s C bs rule: less_induct)
  case (less left)
  show ?case
  proof (cases "left = 0")
    case True
    then show ?thesis using less.prems(1)
      by (subst writei_loop.simps) (auto simp: nblk_def only_file_def intro!: exI [of _ C])
  next
    case False
    define m where "m = chunk left pos"
    define C1 where "C1 = put_chunk C r pos (take m bs)"
    have m: "m \<le> left" "0 < m" "length (take m bs) = m" using False less.prems(7) by (auto simp: m_def chunk_def BSIZE_def)
    have nb: "nblk left pos = Suc (nblk (left - m) (pos + m))" using nblk_chunk False by (simp add: m_def)
    have pn: "pos < n" using False less.prems(6) by simp
    obtain t where t: "fframe s t" "in_txn p d t C1" "lh_n t \<le> lh_n s + 1"
        "writei_loop E ip left pos (LocalSrc bs) s =
          bind (writei_loop E ip (left - m) (pos + m) (LocalSrc (drop m bs))) (\<lambda>tot. ret (m + tot)) t"
      using writei_step [OF less.prems(1) _ less.prems(3) assms(4) less.prems(4,5) _ less.prems(6,7) m_def C1_def, of E]
        False less.prems(2) nb by (auto simp: log_room_def)
    have o: "only_file C C1 r n" unfolding C1_def by (rule put_chunk_only [OF pn])
    have "log_room (nblk (left - m) (pos + m)) t" using less.prems(2) t(1,3) nb by (auto simp: log_room_def fframe_fields)
    then obtain u C2 where u: "writei_loop E ip (left - m) (pos + m) (LocalSrc (drop m bs)) t = Ret (left - m) u"
        "fframe t u" "in_txn p d u C2" "lh_n u \<le> lh_n t + int (nblk (left - m) (pos + m))" "only_file C1 C2 r n"
        "\<forall>i<n. file_byte C2 r i = (if pos + m \<le> i \<and> i < pos + left then drop m bs ! (i - (pos + m)) else file_byte C1 r i)"
      using less.IH [of "left - m" t C1 "pos + m" "drop m bs"] m less.prems(3,5-7) t(1,2)
        fframe_fs(1) [OF t(1)] fframe_area [OF t(1)] only_file_layout [OF less.prems(4) o] False by auto
    have "file_byte C2 r i = (if pos \<le> i \<and> i < pos + left then bs ! (i - pos) else file_byte C r i)" if "i < n" for i
      using u(6) that m put_chunk_bytes [OF less.prems(4) m(3) [unfolded m_def] pn that] unfolding C1_def m_def [symmetric]
      by (auto simp: less.prems(7))
    then show ?thesis using t(3,4) u(1,3,4) nb m(1) fframe_trans [OF t(1) u(2)] only_file_trans [OF less.prems(4) o u(5)]
      by (intro exI [of _ u] exI [of _ C2]) (simp add: kexec)
  qed
qed

lemma file_byte_isize [simp]: "file_byte C (r\<lparr>isize := z\<rparr>) i = file_byte C r i"
  by (simp add: file_byte_def file_block_def)

lemma mapped_isize [simp]: "mapped C (r\<lparr>isize := z\<rparr>) n = mapped C r n"
  by (simp add: mapped_def file_block_def)

lemma laid_out_isize [simp]: "laid_out A C (r\<lparr>isize := z\<rparr>) n = laid_out A C r n"
  by (simp add: laid_out_def mapped_def file_block_def)

lemma file_byte_cong:
  assumes "laid_out A C r n" "i < n" "a \<in> A" "addrs r NDIRECT \<noteq> a" "\<forall>m. m \<noteq> a \<longrightarrow> C' m = C m"
  shows "file_byte C' r i = file_byte C r i" "file_block C' r bn = file_block C r bn"
proof -
  show fb: "file_block C' r bn = file_block C r bn" for bn using assms(4,5) by (simp add: file_block_def)
  have "file_block C r (i div BSIZE) \<noteq> a" using assms(1-3) by (auto simp: laid_out_def)
  then show "file_byte C' r i = file_byte C r i" using assms(5) by (simp add: file_byte_def fb)
qed

lemma writei_refused:
  fixes s :: "'x fs_st_scheme"
  assumes "r = itable s ip" "length bs < 2 ^ 32" "pos > isize r \<or> MAXFILE * BSIZE < unat pos + length bs"
  shows "writei E ip (LocalSrc bs) pos (of_nat (length bs)) s = Ret (- 1) s"
proof -
  have n: "unat (of_nat (length bs) :: u32) = length bs" using assms(2) by (intro unat_of_nat_small) simp
  have "pos > isize r \<or> pos + of_nat (length bs) < pos \<or> MAXFILE * BSIZE < unat (pos + of_nat (length bs))"
    using assms(2,3) n unat_plus_if' [of pos "of_nat (length bs)"] by (auto simp: word_less_nat_alt split: if_splits)
  then show ?thesis using assms(1) by (auto simp: writei_def kexec)
qed

lemma writei_rule:
  fixes s :: "'x fs_st_scheme"
  assumes "in_txn p d s C" "r = itable s ip" "idev r = d" "S = sb s" "pos \<le> isize r"
    and "N = max (unat (isize r)) (unat pos + length bs)" "laid_out (insert (IBLOCK (inum r) S) (log_area s)) C r N"
    and "IBLOCK (inum r) S \<notin> log_area s" "addrs r NDIRECT \<noteq> IBLOCK (inum r) S"
    and "log_room (nblk (length bs) (unat pos) + 2) s"
  shows "\<exists>t C'. writei E ip (LocalSrc bs) pos (of_nat (length bs)) s = Ret (int (length bs)) t \<and> in_txn p d t C' \<and>
    itable t = (itable s)(ip := r\<lparr>isize := of_nat N\<rparr>) \<and> unat (of_nat N :: u32) = N \<and> mapped C' r N \<and> lh_n t < int NBUF \<and>
    (\<forall>i<N. file_byte C' r i = (if unat pos \<le> i \<and> i < unat pos + length bs then bs ! (i - unat pos) else file_byte C r i))"
proof -
  let ?A = "insert (IBLOCK (inum r) S) (log_area s)" and ?n = "length bs" and ?c = "nblk (length bs) (unat pos)"
  have N: "N \<le> MAXFILE * BSIZE" using assms(7) by (simp add: laid_out_def mapped_def)
  have "MAXFILE * BSIZE < 2 ^ 32" by (simp add: MAXFILE_def NDIRECT_def NINDIRECT_def BSIZE_def)
  then have lt: "unat pos + ?n < 2 ^ 32" "N < 2 ^ 32" "unat (isize r) \<le> N" "unat pos + ?n \<le> N"
    using N assms(6) unsigned_less [of "isize r", where 'a = nat] by simp_all
  have un: "unat (of_nat ?n :: u32) = ?n" "unat (of_nat N :: u32) = N" using lt by (simp_all add: unat_of_nat_small)
  have up: "unat (pos + of_nat ?n) = unat pos + ?n" using lt(1) un by (simp add: unat_plus_if')
  obtain t C1 where t: "writei_loop E ip ?n (unat pos) (LocalSrc bs) s = Ret ?n t" "fframe s t" "in_txn p d t C1"
      "lh_n t \<le> lh_n s + int ?c" "only_file C C1 r N"
      "\<forall>i<N. file_byte C1 r i = (if unat pos \<le> i \<and> i < unat pos + ?n then bs ! (i - unat pos) else file_byte C r i)"
    using writei_loop_local [OF assms(1) log_room_mono [OF assms(10)] assms(2,3,7) _ lt(4) refl, of E] by auto
  define q where "q = r\<lparr>isize := of_nat N\<rparr>"
  define u where "u = t\<lparr>itable := (itable t)(ip := q)\<rparr>"
  have it: "itable t = itable s" "itable t ip = r" "sb t = sb s" using fframe_fs [OF t(2)] assms(2) by simp_all
  have q: "(if pos + of_nat ?n > isize r then r\<lparr>isize := pos + of_nat ?n\<rparr> else r) = q"
    using up un lt assms(6) by (auto simp: q_def word_less_nat_alt max_def word_unat_eq_iff intro: inode.equality split: if_splits)
  have qf: "inum q = inum r" "idev q = d" "addrs q = addrs r" using assms(3) by (simp_all add: q_def)
  have fu: "log_area u = log_area s" "sb u = sb s" "lh_n u = lh_n t" "itable u ip = q" "log_size u = log_size s"
    using fframe_area [OF t(2)] it(3) fframe_fields(6) [OF t(2)]
    by (simp_all add: u_def log_area_def log_slots_def log_head_def log_slot_def)
  have "in_txn p d u C1" "log_room 1 u" using t(3,4) assms(10) fu by (auto simp: u_def log_room_def)
  from iupdate_rule [OF this refl refl, of ip E] obtain v C2 where
      v: "iupdate E ip u = Ret () v" "in_txn p d v C2" "fframe u v" "lh_n v \<le> lh_n u + 1"
        "\<forall>m. m \<noteq> IBLOCK (inum r) S \<longrightarrow> C2 m = C1 m"
    using assms(4,8) fu qf by auto
  have g: "\<not> pos > isize (itable s ip)" "\<not> pos + of_nat ?n < pos" "\<not> MAXFILE * BSIZE < unat (pos + of_nat ?n)"
    using assms(2,5) up N lt(4) by (simp_all add: word_less_nat_alt word_le_nat_alt)
  have "writei E ip (LocalSrc bs) pos (of_nat ?n) s =
      bind (get (\<lambda>s. isize (itable s ip))) (\<lambda>z. seq (kwhen (pos + of_nat ?n > z) (upd_inode ip (\<lambda>r. r\<lparr>isize := pos + of_nat ?n\<rparr>)))
        (seq (iupdate E ip) (ret (int ?n)))) t"
    using t(1) un(1) g by (simp add: writei_def kexec Let_def)
  also have "\<dots> = Ret (int ?n) v"
    using v(1) q it(2) unfolding u_def by (auto simp: kexec upd_inode_def fun_upd_idem split: if_splits)
  finally have w: "writei E ip (LocalSrc bs) pos (of_nat ?n) s = Ret (int ?n) v" .
  note l1 = only_file_layout [OF assms(7) t(5)]
  have fb: "file_byte C2 r i = file_byte C1 r i" "file_block C2 r bn = file_block C1 r bn" if "i < N" for i bn
    using file_byte_cong [OF l1 that _ assms(9) v(5)] by simp_all
  have "mapped C2 r N" using l1 fb(2) unfolding laid_out_def mapped_def by (metis fb(2))
  moreover have "itable v = (itable s)(ip := q)" using fframe_fs(1) [OF v(3)] it(1) by (simp add: u_def)
  moreover have "lh_n v < int NBUF" using v(4) fu(3) t(4) assms(10) by (simp add: log_room_def NBUF_def LOGSIZE_def MAXOPBLOCKS_def)
  ultimately show ?thesis using w v(2) un(2) t(6) fb(1) unfolding q_def by (intro exI [of _ v] exI [of _ C2]) auto
qed

section \<open>Properties\<close>



section \<open>Example\<close>

text \<open>A file of 1030 bytes in the blocks 50 and 51.\<close>

definition file_ex :: inode where
  "file_ex = inode0\<lparr>idev := 1, inum := 7, isize := 1030, addrs := (\<lambda>i. 50 + of_nat i)\<rparr>"

definition data_ex :: "u32 \<Rightarrow> block" where
  "data_ex n i = ucast n + of_nat i"

lemma file_ex_fields: "idev file_ex = 1" "inum file_ex = 7" "isize file_ex = 1030" "addrs file_ex i = 50 + of_nat i"
  by (simp_all add: file_ex_def)

lemma file_ex_div: "i < 1030 \<Longrightarrow> i div BSIZE = (if i < 1024 then 0 else 1)"
  by (auto simp: BSIZE_def intro: div_nat_eqI)

lemma file_ex_blocks: "file_block C file_ex 0 = 50" "file_block C file_ex (Suc 0) = 51"
  by (simp_all add: file_block_def NDIRECT_def file_ex_fields)

lemma file_ex_block: "i < 1030 \<Longrightarrow> file_block C file_ex (i div BSIZE) = (if i < 1024 then 50 else 51)"
  by (simp add: file_ex_div file_block_def NDIRECT_def file_ex_fields)

lemma file_ex_mapped: "mapped C file_ex 1030"
proof -
  have "1030 \<le> MAXFILE * BSIZE" by (simp add: MAXFILE_def NDIRECT_def NINDIRECT_def BSIZE_def)
  then show ?thesis by (simp add: mapped_def file_ex_blocks file_ex_div NDIRECT_def)
qed

lemma file_ex_bytes: "i < 1030 \<Longrightarrow> file_byte data_ex file_ex i = (if i < 1024 then 50 else 51) + of_nat (i mod BSIZE)"
  by (simp add: file_byte_def file_ex_block data_ex_def)

lemma file_ex_laid_out: "laid_out (insert (IBLOCK 7 sb_ex) (log_area (fs_ex data_ex I))) C file_ex 1030"
proof -
  have "IBLOCK 7 sb_ex = 32" by (simp add: IBLOCK_def sb_ex_def IPB_def)
  moreover have "50 \<notin> log_area (fs_ex data_ex I)" "51 \<notin> log_area (fs_ex data_ex I)" using fs_ex_area [of 50] fs_ex_area [of 51] by auto
  ultimately show ?thesis
    unfolding laid_out_def by (simp add: file_ex_mapped file_ex_blocks file_ex_div file_ex_fields NDIRECT_def)
qed



end
