(* ===== verification/Names.thy ===== *)
theory Names
  imports Fstxn
begin

text \<open>
  Path names and the inode table of \<^verbatim>\<open>kernel/fs.c\<close>: \<^verbatim>\<open>skipelem\<close> takes a path apart at its slashes, and \<^verbatim>\<open>iget\<close> keeps at
  most one table entry for an inode.
\<close>

section \<open>The elements of a path\<close>

primrec split_slash :: "u8 list \<Rightarrow> u8 list list" where
  "split_slash [] = [[]]"
| "split_slash (c # cs) =
     (if c = slash then [] # split_slash cs else (c # hd (split_slash cs)) # tl (split_slash cs))"

definition elements :: "u8 list \<Rightarrow> u8 list list" where
  "elements path = filter (\<lambda>x. x \<noteq> []) (split_slash path)"

lemma split_slash_ne [simp]: "split_slash path \<noteq> []"
  by (cases path) simp_all

lemma split_slash_plain: "slash \<notin> set x \<Longrightarrow> split_slash (x @ p) = (x @ hd (split_slash p)) # tl (split_slash p)"
  by (induction x) simp_all

lemma elements_slash [simp]: "elements (slash # p) = elements p"
  by (simp add: elements_def)

lemma elements_Nil [simp]: "elements [] = []"
  by (simp add: elements_def)

lemma elements_dropWhile: "elements (dropWhile (\<lambda>c. c = slash) p) = elements p"
  by (induction p) simp_all

lemma elements_plain:
  assumes "slash \<notin> set x" "x \<noteq> []" "p = [] \<or> hd p = slash"
  shows "elements (x @ p) = x # elements p"
proof (cases p)
  case Nil
  then show ?thesis using assms by (simp add: elements_def split_slash_plain [of x "[]", simplified])
next
  case (Cons c q)
  then show ?thesis using assms by (simp add: elements_def split_slash_plain)
qed

lemma elements_empty: "elements p = [] \<Longrightarrow> p = [] \<or> hd p = slash"
  by (cases p) (auto simp: elements_def split: if_splits)

lemma takeWhile_plain: "slash \<notin> set (takeWhile (\<lambda>c. c \<noteq> slash) p)"
  by (auto dest: set_takeWhileD)

text \<open>C15: \<^verbatim>\<open>skipelem\<close> agrees with splitting the path at its slashes and leaving out the empty pieces: it finds no element
  exactly when there is none; otherwise it stores the first element in the name buffer, cut to DIRSIZ bytes
  and ended by a NUL if it is shorter, writes nothing behind the buffer, and the rest of the path has the
  other elements. The rest is empty exactly when the element was the last, on which \<^verbatim>\<open>nameiparent\<close> relies.\<close>

theorem skipelem_elements:
  "case elements path of
     [] \<Rightarrow> skipelem path name = None
   | x # xs \<Rightarrow> \<exists>rest name'. skipelem path name = Some (rest, name') \<and> elements rest = xs \<and> (rest = [] \<longleftrightarrow> xs = []) \<and>
       (\<forall>i<min DIRSIZ (length x). name' i = x ! i) \<and> (length x < DIRSIZ \<longrightarrow> name' (length x) = 0) \<and>
       (\<forall>i\<ge>DIRSIZ. name' i = name i)"
proof -
  let ?p = "dropWhile (\<lambda>c. c = slash) path"
  show ?thesis
  proof (cases "?p = []")
    case True
    then have "elements path = []" using elements_dropWhile [of path] by (simp only: elements_Nil)
    with True show ?thesis by (simp add: skipelem_def)
  next
    case False
    let ?x = "takeWhile (\<lambda>c. c \<noteq> slash) ?p" and ?q = "dropWhile (\<lambda>c. c \<noteq> slash) ?p"
    let ?r = "dropWhile (\<lambda>c. c = slash) ?q"
    let ?n = "if length ?x \<ge> DIRSIZ then store_bytes name 0 (take DIRSIZ ?x) else (store_bytes name 0 ?x)(length ?x := 0)"
    have "hd ?p \<noteq> slash" using hd_dropWhile [OF False] .
    then have x: "?x \<noteq> []" using False by (cases ?p) auto
    have q: "?q = [] \<or> hd ?q = slash" using hd_dropWhile [of "\<lambda>c. c \<noteq> slash" ?p] by blast
    have "elements path = elements (?x @ ?q)" using elements_dropWhile [of path] by simp
    also have "\<dots> = ?x # elements ?r"
      using elements_plain [OF takeWhile_plain x q] elements_dropWhile [of ?q] by simp
    finally have e: "elements path = ?x # elements ?r" .
    define r where "r = ?r"
    define nm where "nm = ?n"
    have "r = []" if "elements r = []" using elements_empty [OF that] hd_dropWhile [of "\<lambda>c. c = slash" ?q] unfolding r_def by blast
    then have "r = [] \<longleftrightarrow> elements r = []" by auto
    moreover have "skipelem path name = Some (r, nm)" using False by (simp add: skipelem_def Let_def r_def nm_def)
    moreover have "\<forall>i<min DIRSIZ (length ?x). nm i = ?x ! i" "length ?x < DIRSIZ \<longrightarrow> nm (length ?x) = 0" "\<forall>i\<ge>DIRSIZ. nm i = name i"
      by (simp_all add: store_bytes_nat nm_def)
    ultimately show ?thesis unfolding e list.case r_def [symmetric] by blast
  qed
qed

theorem skipelem_elements_witness:
  "\<exists>rest name'. skipelem [47, 47, 97, 47, 98, 98] (\<lambda>_. 7) = Some (rest, name') \<and> elements rest = [[98, 98]] \<and>
    name' 0 = 97 \<and> name' 1 = 0"
proof -
  have "elements [47, 47, 97, 47, 98, 98] = [[97], [98, 98]]" by (simp add: elements_def)
  then show ?thesis using skipelem_elements [of "[47, 47, 97, 47, 98, 98]" "\<lambda>_. 7"] by (auto simp: DIRSIZ_def)
qed

section \<open>The inode table\<close>

definition in_core :: "u32 \<Rightarrow> u32 \<Rightarrow> inode \<Rightarrow> bool" where
  "in_core dev n r \<longleftrightarrow> iref r > 0 \<and> idev r = dev \<and> inum r = n"

text \<open>No reference count is negative and no inode has two entries in use.\<close>

definition itable_ok :: "(nat \<Rightarrow> inode) \<Rightarrow> bool" where
  "itable_ok I \<longleftrightarrow> (\<forall>i<NINODE. 0 \<le> iref (I i)) \<and>
     (\<forall>dev n i j. i < NINODE \<and> j < NINODE \<and> in_core dev n (I i) \<and> in_core dev n (I j) \<longrightarrow> i = j)"

definition entry_refs :: "u32 \<Rightarrow> u32 \<Rightarrow> inode \<Rightarrow> int" where
  "entry_refs dev n r = (if in_core dev n r then iref r else 0)"

lemma iget_found:
  fixes s :: "'x fs_st_scheme"
  assumes "calm p s" "itable_ok (itable s)" "i < NINODE" "in_core dev n (itable s i)"
  shows "iget dev n s = Ret i (s\<lparr>itable := (itable s)(i := (itable s i)\<lparr>iref := iref (itable s i) + 1\<rparr>)\<rparr>)"
proof -
  have u: "j = i" if "j < NINODE" "in_core dev n (itable s j)" for j
    using that assms(2-4) unfolding itable_ok_def by blast
  have "\<not> in_core dev n (itable s j)" if "j < i" for j using u [of j] that assms(3) by auto
  then have "first_idx (\<lambda>i. iref (itable s i) > 0 \<and> idev (itable s i) = dev \<and> inum (itable s i) = n) NINODE = Some i"
    using assms(3,4) by (simp add: first_idx_Some in_core_def)
  then show ?thesis using assms(1) by (simp add: iget_def kexec lock_rules upd_inode_def upd_order)
qed

lemma iget_new:
  fixes s :: "'x fs_st_scheme"
  assumes "calm p s" "\<forall>j<NINODE. \<not> in_core dev n (itable s j)"
  shows "iget dev n s = (case first_idx (\<lambda>i. iref (itable s i) = 0) NINODE of None \<Rightarrow> Panic ''iget: no inodes''
    | Some i \<Rightarrow> Ret i (s\<lparr>itable := (itable s)(i := (itable s i)\<lparr>idev := dev, inum := n, iref := 1, ivalid := False\<rparr>)\<rparr>))"
proof -
  have "first_idx (\<lambda>i. iref (itable s i) > 0 \<and> idev (itable s i) = dev \<and> inum (itable s i) = n) NINODE = None"
    using assms(2) by (auto simp: first_idx_None in_core_def)
  then show ?thesis using assms(1)
    by (simp add: iget_def kexec lock_rules upd_inode_def upd_order split: option.split)
qed

lemma itable_ok_bump:
  assumes "itable_ok I" "i < NINODE" "iref (I i) > 0"
  shows "itable_ok (I(i := (I i)\<lparr>iref := iref (I i) + 1\<rparr>))"
proof -
  have "in_core d m ((I(i := (I i)\<lparr>iref := iref (I i) + 1\<rparr>)) j) = in_core d m (I j)" for d m j
    using assms(3) by (simp add: in_core_def)
  then show ?thesis using assms(1,2) unfolding itable_ok_def by simp blast
qed

lemma itable_ok_new:
  assumes "itable_ok I" "i < NINODE" "\<forall>j<NINODE. \<not> in_core dev n (I j)"
  shows "itable_ok (I(i := (I i)\<lparr>idev := dev, inum := n, iref := 1, ivalid := False\<rparr>))"
proof -
  let ?r = "(I i)\<lparr>idev := dev, inum := n, iref := 1, ivalid := False\<rparr>"
  have "in_core d m ((I(i := ?r)) j) = (if j = i then d = dev \<and> m = n else in_core d m (I j))" for d m j
    by (auto simp: in_core_def)
  then show ?thesis using assms unfolding itable_ok_def by (auto split: if_splits)
qed



end
