(* ===== verification/Calendar.thy ===== *)
theory Calendar
  imports Sysproc
begin

text \<open>
  The calendar of \<^verbatim>\<open>kernel/sysutil.c\<close>: \<^verbatim>\<open>convert_unix_time_to_rtcdate\<close> against the day numbers of the Gregorian calendar.
\<close>

section \<open>Day numbers\<close>

text \<open>The number of leap days before the year \<open>y\<close>, and the number of the first day of the year.\<close>

definition leap_days :: "int \<Rightarrow> int" where
  "leap_days y = (y - 1) div 4 - (y - 1) div 100 + (y - 1) div 400"

definition day_number :: "int \<Rightarrow> int" where
  "day_number y = 365 * y + leap_days y"

lemma div_step:
  fixes y k :: int
  assumes "0 < k"
  shows "y div k = (y - 1) div k + (if y mod k = 0 then 1 else 0)"
proof -
  let ?q = "(y - 1) div k" and ?r = "(y - 1) mod k"
  have r: "0 \<le> ?r" "?r < k" using assms by simp_all
  have "k * ?q + ?r = y - 1" by (rule mult_div_mod_eq)
  then have y: "y = k * ?q + (?r + 1)" by simp
  show ?thesis
  proof (cases "?r + 1 = k")
    case True
    then have "y = k * (?q + 1) + 0" using y by (simp add: distrib_left)
    then show ?thesis using assms int_div_pos_eq [of y k "?q + 1" 0] int_mod_pos_eq [of y k "?q + 1" 0] by simp
  next
    case False
    then show ?thesis using r y int_div_pos_eq [of y k ?q "?r + 1"] int_mod_pos_eq [of y k ?q "?r + 1"] by simp
  qed
qed

lemma mod_400: "y mod 400 = 0 \<Longrightarrow> y mod 100 = 0" "y mod 100 = 0 \<Longrightarrow> y mod 4 = (0 :: int)"
  using dvd_trans [of 100 400 y] dvd_trans [of 4 100 y] unfolding mod_eq_0_iff_dvd by simp_all

lemma leap_step:
  fixes a b c :: int
  assumes "a' = a + (if p then 1 else 0)" "b' = b + (if q then 1 else 0)" "c' = c + (if r then 1 else 0)" "r \<Longrightarrow> q" "q \<Longrightarrow> p"
  shows "365 * (y + 1) + (a' - b' + c') = 365 * y + (a - b + c) + (if p \<and> (\<not> q \<or> r) then 366 else 365)"
  using assms by (cases p; cases q; cases r) simp_all

lemma day_number_Suc: "day_number (y + 1) = day_number y + days_in_year y"
  unfolding day_number_def leap_days_def days_in_year_def leap_def add_diff_cancel_right'
  by (rule leap_step [OF div_step div_step div_step mod_400]) simp_all

lemma find_year_spec:
  assumes "0 \<le> days" "find_year y days = (y', d)"
  shows "y \<le> y' \<and> 0 \<le> d \<and> d < days_in_year y' \<and> day_number y' + d = day_number y + days"
  using assms
proof (induction y days rule: find_year.induct)
  case (1 y days)
  show ?case
  proof (cases "days \<ge> days_in_year y")
    case True
    then show ?thesis using 1 day_number_Suc [of y] by (auto simp: find_year.simps [of y])
  next
    case False
    then show ?thesis using 1(2,3) by (auto simp: find_year.simps [of y])
  qed
qed

section \<open>Months\<close>

lemma find_month_spec:
  assumes "0 \<le> days" "days < sum_list ds"
  shows "\<exists>k d. find_month ds m days = Some (m + int k, d) \<and> k < length ds \<and> 0 \<le> d \<and> d < ds ! k \<and>
    sum_list (take k ds) + d = days"
  using assms
proof (induction ds arbitrary: m days)
  case (Cons l ds)
  show ?case
  proof (cases "days \<ge> l")
    case True
    then obtain k d where "find_month ds (m + 1) (days - l) = Some (m + 1 + int k, d)" "k < length ds" "0 \<le> d" "d < ds ! k"
        "sum_list (take k ds) + d = days - l"
      using Cons.IH [of "days - l" "m + 1"] Cons.prems by auto
    then show ?thesis using True by (intro exI [of _ "Suc k"] exI [of _ d]) simp
  next
    case False
    then show ?thesis using Cons.prems(1) by (intro exI [of _ 0] exI [of _ days]) simp
  qed
qed simp

lemma sum_days_in_month: "sum_list (days_in_month (leap y)) = days_in_year y" "length (days_in_month lp) = 12"
  by (simp_all add: days_in_month_def days_in_year_def)

section \<open>Dates\<close>

definition valid_date :: "rtcdate \<Rightarrow> bool" where
  "valid_date r \<longleftrightarrow> 1970 \<le> year r \<and> 1 \<le> month r \<and> month r \<le> 12 \<and> 1 \<le> day r \<and>
     day r \<le> days_in_month (leap (year r)) ! nat (month r - 1) \<and> 0 \<le> hour r \<and> hour r < 24 \<and>
     0 \<le> minute r \<and> minute r < 60 \<and> 0 \<le> second r \<and> second r < 60"

definition unix_time :: "rtcdate \<Rightarrow> int" where
  "unix_time r = (day_number (year r) - day_number 1970 + sum_list (take (nat (month r - 1)) (days_in_month (leap (year r)))) +
     day r - 1) * 86400 + hour r * 3600 + minute r * 60 + second r"

lemma seconds_split:
  fixes s :: int
  assumes "0 \<le> s" "s < 86400"
  shows "s div 3600 * 3600 + s mod 3600 div 60 * 60 + s mod 3600 mod 60 = s" "0 \<le> s div 3600" "s div 3600 < 24"
    "0 \<le> s mod 3600 div 60" "s mod 3600 div 60 < 60" "0 \<le> s mod 3600 mod 60" "s mod 3600 mod 60 < 60"
proof -
  have e: "s div 3600 * 3600 + s mod 3600 = s" "s mod 3600 div 60 * 60 + s mod 3600 mod 60 = s mod 3600"
    by (rule div_mult_mod_eq)+
  have b: "0 \<le> s mod 3600" "s mod 3600 < 3600" "0 \<le> s mod 3600 mod 60" "s mod 3600 mod 60 < 60" by simp_all
  show "s div 3600 * 3600 + s mod 3600 div 60 * 60 + s mod 3600 mod 60 = s" using e by linarith
  show "s div 3600 < 24" "s mod 3600 div 60 < 60" using e b assms by linarith+
  show "0 \<le> s div 3600" "0 \<le> s mod 3600 div 60" using assms b by (simp_all add: pos_imp_zdiv_nonneg_iff)
qed simp_all

text \<open>C16: For every time up to 2^31 days after 1970, \<^verbatim>\<open>convert_unix_time_to_rtcdate\<close> gives a well-formed date (the month loop stays
  inside its table, the day exists in that month of that year, leap years included), and the date is the
  right one: counting its days by the Gregorian rule gives the time back. So different times give different
  dates.\<close>

theorem convert_unix_time_date:
  assumes "unat t div 86400 < 2 ^ 31"
  shows "\<exists>r. convert_unix_time_to_rtcdate t = Some r \<and> valid_date r \<and> unix_time r = uint t"
proof -
  let ?days = "uint t div 86400" and ?s = "uint t mod 86400"
  have u: "uint (t div 86400) = ?days" "uint (t mod 86400) = ?s" by (simp_all add: uint_div uint_mod)
  have "uint (t div 86400) < 2 ^ 31" using assms by (simp add: uint_nat unat_div flip: zdiv_int)
  then have d: "0 \<le> ?days" "?days < 2 ^ 31" using u by (simp_all add: pos_imp_zdiv_nonneg_iff)
  have "uint (ucast (t div 86400) :: u32) = ?days"
    using d u(1) by (simp add: unsigned_ucast_eq take_bit_int_eq_self)
  then have sd: "sint (ucast (t div 86400) :: u32) = ?days" using d
    by (simp add: sint_uint signed_take_bit_int_eq_self)
  obtain y days where y: "find_year 1970 ?days = (y, days)" by fastforce
  note ys = find_year_spec [OF d(1) y]
  obtain k e where k: "find_month (days_in_month (leap y)) 0 days = Some (int k, e)" "k < 12" "0 \<le> e"
      "e < days_in_month (leap y) ! k" "sum_list (take k (days_in_month (leap y))) + e = days"
    using find_month_spec [of days "days_in_month (leap y)" 0] ys by (auto simp: sum_days_in_month)
  define sc where "sc = ?s"
  have s: "0 \<le> sc" "sc < 86400" by (simp_all add: sc_def)
  let ?r = "\<lparr>year = y, month = int k + 1, day = e + 1, hour = sc div 3600, minute = sc mod 3600 div 60,
    second = sc mod 3600 mod 60\<rparr>"
  have "convert_unix_time_to_rtcdate t = Some ?r"
    unfolding convert_unix_time_to_rtcdate_def sd u(2) sc_def [symmetric] Let_def y using k(1) by simp
  moreover have "valid_date ?r" using ys k(2-4) seconds_split(2-) [OF s] by (simp add: valid_date_def)
  moreover have "unix_time ?r = uint t"
  proof -
    have a: "day_number y - day_number 1970 + sum_list (take k (days_in_month (leap y))) + e = ?days" using ys k(5) by linarith
    have "unix_time ?r = (day_number y - day_number 1970 + sum_list (take k (days_in_month (leap y))) + e) * 86400 +
      (sc div 3600 * 3600 + sc mod 3600 div 60 * 60 + sc mod 3600 mod 60)" by (simp add: unix_time_def)
    also have "\<dots> = ?days * 86400 + sc" unfolding a seconds_split(1) [OF s] ..
    also have "\<dots> = uint t" unfolding sc_def by (rule div_mult_mod_eq)
    finally show ?thesis .
  qed
  ultimately show ?thesis by blast
qed

theorem convert_unix_time_date_witness:
  "\<exists>r. convert_unix_time_to_rtcdate 951827696 = Some r \<and> valid_date r \<and> unix_time r = 951827696"
  using convert_unix_time_date [of 951827696] by simp

end
