(* ===== verification/Disk.thy ===== *)
theory Disk
  imports Virtio
begin

text \<open>
  The disk driver implements the block transfer \<open>disk_rw\<close> of the buffer cache, given a device that serves the
  requests it finds in the queue as the virtio specification says.
\<close>

section \<open>The device\<close>

text \<open>A block transfer between buffer \<open>b\<close> and block \<open>n\<close> of the medium.\<close>

definition moved :: "bool \<Rightarrow> u32 \<Rightarrow> nat \<Rightarrow> 'x vio_st_scheme \<Rightarrow> 'x vio_st_scheme" where
  "moved wr n b t =
     (if wr then t\<lparr>disk := (disk t)(n := bdata (bufs t b)), dwrites := dwrites t @ [(n, bdata (bufs t b))]\<rparr>
      else t\<lparr>bufs := (bufs t)(b := (bufs t b)\<lparr>bdata := disk t n\<rparr>)\<rparr>)"

text \<open>The newest request in the queue, read from the available ring and the chain of descriptors: the head of the chain, the
  direction, the block and the buffer. A request has a header of 16 bytes, one block of data, which the
  device may write only when reading from the medium, and a status byte.\<close>

definition request :: "'x vio_st_scheme \<Rightarrow> (nat \<times> bool \<times> u32 \<times> nat) option" where
  "request t =
     (let i0 = unat (avail_ring t (unat (avail_idx t - 1) mod NUM));
          d0 = vdesc t i0; d1 = vdesc t (unat (desc_next d0)); d2 = vdesc t (unat (desc_next d1))
      in case (desc_addr d0, desc_addr d1, desc_addr d2) of
           (OpAddr k, DataAddr b, StatusAddr j) \<Rightarrow>
             let wr = (req_type (vops t k) = VIRTIO_BLK_T_OUT) in
             if j = i0 \<and> desc_len d0 = 16 \<and> desc_len d1 = 1024 \<and> desc_len d2 = 1 \<and>
               desc_flags d0 = VRING_DESC_F_NEXT \<and> desc_flags d2 = VRING_DESC_F_WRITE \<and>
               desc_flags d1 = (if wr then VRING_DESC_F_NEXT else VRING_DESC_F_WRITE OR VRING_DESC_F_NEXT)
             then Some (i0, wr, ucast (req_sector (vops t k) div 2), b) else None
         | _ \<Rightarrow> None)"

definition completed :: "nat \<times> bool \<times> u32 \<times> nat \<Rightarrow> 'x vio_st_scheme \<Rightarrow> 'x vio_st_scheme" where
  "completed r t = (case r of (i0, wr, n, b) \<Rightarrow>
     (moved wr n b t)\<lparr>info_status := (info_status t)(i0 := 0),
        used_ring := (used_ring t)(unat (used_ring_idx t) mod NUM := of_nat i0), used_ring_idx := used_ring_idx t + 1\<rparr>)"

definition virtio_device :: "('x vio_st_scheme \<Rightarrow> 'x vio_st_scheme) \<Rightarrow> bool" where
  "virtio_device dev \<longleftrightarrow> (\<forall>t r. request t = Some r \<longrightarrow> dev t = completed r t)"

text \<open>While process \<open>p\<close> sleeps, the device works and then interrupts a hart whose lock state is \<open>h0\<close>; the interrupt handler
  runs, and the scheduler picks \<open>p\<close> again.\<close>

definition disk_env :: "('x vio_st_scheme \<Rightarrow> 'x vio_st_scheme) \<Rightarrow> harts \<Rightarrow> nat \<Rightarrow> 'x vio_st_scheme env" where
  "disk_env dev h0 p c t = (case virtio_disk_intr ((dev t)\<lparr>hs := h0\<rparr>) of
       Ret _ u \<Rightarrow> u\<lparr>hs := hs t, choices := choices t, procs := (procs u)(p := (procs u p)\<lparr>state := RUNNING\<rparr>)\<rparr>
     | _ \<Rightarrow> t)"

lemma same_hart_disk_env: "same_hart (disk_env dev h0 p)"
  unfolding same_hart_def disk_env_def
proof (intro allI)
  fix c and t :: "'a vio_st_scheme"
  show "hs (case virtio_disk_intr ((dev t)\<lparr>hs := h0\<rparr>) of
       Ret _ u \<Rightarrow> u\<lparr>hs := hs t, choices := choices t, procs := (procs u)(p := (procs u p)\<lparr>state := RUNNING\<rparr>)\<rparr>
     | _ \<Rightarrow> t) = hs t \<and> choices (case virtio_disk_intr ((dev t)\<lparr>hs := h0\<rparr>) of
       Ret _ u \<Rightarrow> u\<lparr>hs := hs t, choices := choices t, procs := (procs u)(p := (procs u p)\<lparr>state := RUNNING\<rparr>)\<rparr>
     | _ \<Rightarrow> t) = choices t"
    by (cases "virtio_disk_intr ((dev t)\<lparr>hs := h0\<rparr>)") simp_all
qed

section \<open>Descriptors\<close>

lemma unat_small_16: "i < NUM \<Longrightarrow> unat (of_nat i :: u16) = i" "i < NUM \<Longrightarrow> unat (of_nat i :: u32) = i"
  by (rule unat_of_nat_small; simp add: NUM_def)+

lemma alloc_desc_free:
  assumes "\<exists>i<NUM. vfree s i"
  shows "\<exists>i<NUM. vfree s i \<and> alloc_desc s = Ret (Some i) (s\<lparr>vfree := (vfree s)(i := False)\<rparr>)"
proof -
  obtain i where "first_idx (vfree s) NUM = Some i"
    using assms first_idx_None [of "vfree s" NUM] by (cases "first_idx (vfree s) NUM") auto
  moreover from this have "i < NUM" "vfree s i" by (simp_all add: first_idx_Some)
  ultimately show ?thesis by (intro exI [of _ i]) (simp add: alloc_desc_def kexec)
qed

lemma card_free:
  assumes "Suc k \<le> card {i. i < NUM \<and> F i}"
  shows "\<exists>i<NUM. F i" "i < NUM \<Longrightarrow> k \<le> card {j. j < NUM \<and> (F(i := False)) j}"
proof -
  show "\<exists>i<NUM. F i" 
  proof (rule ccontr)
    assume "\<not> (\<exists>i<NUM. F i)"
    then have "{i. i < NUM \<and> F i} = {}" by blast
    with assms show False by (simp only: card.empty)
  qed
  have "{j. j < NUM \<and> (F(i := False)) j} = {i. i < NUM \<and> F i} - {i}" by auto
  then show "k \<le> card {j. j < NUM \<and> (F(i := False)) j}"
    using assms diff_card_le_card_Diff [of "{i}" "{i. i < NUM \<and> F i}"] by simp
qed

lemma alloc3_desc_free:
  assumes "3 \<le> card {i. i < NUM \<and> vfree s i}"
  shows "\<exists>i0 i1 i2. distinct [i0, i1, i2] \<and> i0 < NUM \<and> i1 < NUM \<and> i2 < NUM \<and> vfree s i0 \<and> vfree s i1 \<and> vfree s i2 \<and>
    alloc3_desc s = Ret (Some (i0, i1, i2)) (s\<lparr>vfree := (vfree s)(i0 := False, i1 := False, i2 := False)\<rparr>)"
proof -
  have c0: "Suc 2 \<le> card {i. i < NUM \<and> vfree s i}" using assms by simp
  obtain i0 where i0: "i0 < NUM" "vfree s i0" "alloc_desc s = Ret (Some i0) (s\<lparr>vfree := (vfree s)(i0 := False)\<rparr>)"
    using alloc_desc_free [OF card_free(1) [OF c0]] by blast
  let ?s1 = "s\<lparr>vfree := (vfree s)(i0 := False)\<rparr>"
  have f1: "vfree ?s1 = (vfree s)(i0 := False)" by simp
  have c1: "Suc 1 \<le> card {i. i < NUM \<and> vfree ?s1 i}" using card_free(2) [OF c0 i0(1)] unfolding f1 by simp
  obtain i1 where i1: "i1 < NUM" "vfree ?s1 i1" "alloc_desc ?s1 = Ret (Some i1) (?s1\<lparr>vfree := (vfree ?s1)(i1 := False)\<rparr>)"
    using alloc_desc_free [OF card_free(1) [OF c1]] by blast
  let ?s2 = "?s1\<lparr>vfree := (vfree ?s1)(i1 := False)\<rparr>"
  have f2: "vfree ?s2 = (vfree ?s1)(i1 := False)" by simp
  have c2: "Suc 0 \<le> card {i. i < NUM \<and> vfree ?s2 i}" using card_free(2) [OF c1 i1(1)] unfolding f2 by (simp only: One_nat_def)
  obtain i2 where i2: "i2 < NUM" "vfree ?s2 i2" "alloc_desc ?s2 = Ret (Some i2) (?s2\<lparr>vfree := (vfree ?s2)(i2 := False)\<rparr>)"
    using alloc_desc_free [OF card_free(1) [OF c2]] by blast
  have "i1 \<noteq> i0" "vfree s i1" "i2 \<noteq> i0" "i2 \<noteq> i1" "vfree s i2" using i1(2) i2(2) by (auto split: if_splits)
  moreover have "alloc3_desc s = Ret (Some (i0, i1, i2)) (?s2\<lparr>vfree := (vfree ?s2)(i2 := False)\<rparr>)"
    unfolding alloc3_desc_def by (simp only: bind_case i0(3) i1(3) i2(3) res.case option.case ret_app)
  ultimately show ?thesis using i0(1,2) i1(1) i2(1) by (intro exI [of _ i0] exI [of _ i1] exI [of _ i2]) simp
qed

definition freed :: "nat \<Rightarrow> nat \<Rightarrow> 'x vio_st_scheme \<Rightarrow> 'x vio_st_scheme" where
  "freed p i x = x\<lparr>vdesc := (vdesc x)(i := desc0), vfree := (vfree x)(i := True),
    procs := woken_procs (Some p) ChDiskFree (procs x)\<rparr>"

lemma chain_freed_fields [simp]:
  "hs (freed p i x) = hs x" "vdesc (freed p i x) = (vdesc x)(i := desc0)" "vfree (freed p i x) = (vfree x)(i := True)"
  "bufs (freed p i x) = bufs x" "disk (freed p i x) = disk x" "dwrites (freed p i x) = dwrites x"
  "used_idx (freed p i x) = used_idx x" "used_ring_idx (freed p i x) = used_ring_idx x"
  "info_b (freed p i x) = info_b x" "bdisk (freed p i x) = bdisk x"
  by (simp_all add: freed_def)

lemma free_desc_eq:
  assumes "calm_hart p h" "hs x = acq VdiskLock h" "i < NUM" "\<not> vfree x i"
  shows "free_desc i x = Ret () (freed p i x)"
proof -
  let ?y = "x\<lparr>vdesc := (vdesc x)(i := desc0), vfree := (vfree x)(i := True)\<rparr>"
  have "proc_ready ?y" using assms(1,2) by (simp add: proc_ready_def)
  then have "wakeup (Some ChDiskFree) ?y = Ret () (freed p i x)"
    using assms(1,2) by (simp add: wakeup_woken woken_def freed_def)
  then show ?thesis using assms(3,4) by (simp add: free_desc_def kexec upd_desc_def)
qed

lemma free_chain_step:
  assumes "calm_hart p h" "hs x = acq VdiskLock h" "i < NUM" "\<not> vfree x i"
  shows "free_chain_loop (Suc k) i x = (if desc_flags (vdesc x i) AND VRING_DESC_F_NEXT \<noteq> 0
    then free_chain_loop k (unat (desc_next (vdesc x i))) (freed p i x) else Ret () (freed p i x))"
  using free_desc_eq [OF assms] by (simp add: kexec)

lemma free_chain_eq:
  assumes "calm_hart p h" "hs x = acq VdiskLock h" "distinct [i0, i1, i2]" "i0 < NUM" "i1 < NUM" "i2 < NUM"
    "\<not> vfree x i0" "\<not> vfree x i1" "\<not> vfree x i2"
    "desc_flags (vdesc x i0) AND VRING_DESC_F_NEXT \<noteq> 0" "desc_next (vdesc x i0) = of_nat i1"
    "desc_flags (vdesc x i1) AND VRING_DESC_F_NEXT \<noteq> 0" "desc_next (vdesc x i1) = of_nat i2"
    "desc_flags (vdesc x i2) AND VRING_DESC_F_NEXT = 0"
  shows "free_chain i0 x = Ret () (freed p i2 (freed p i1 (freed p i0 x)))"
proof -
  obtain k where N: "Suc NUM = Suc (Suc (Suc k))" by (simp add: NUM_def)
  have "free_chain i0 x = free_chain_loop (Suc (Suc k)) i1 (freed p i0 x)"
    using assms(10,11) unat_small_16(1) [OF assms(5)] unfolding free_chain_def N free_chain_step [OF assms(1,2,4,7)] by simp
  also have "\<dots> = free_chain_loop (Suc k) i2 (freed p i1 (freed p i0 x))"
    using assms(2,3,8,12,13) unat_small_16(1) [OF assms(6)]
    by (subst free_chain_step [OF assms(1) _ assms(5)]) simp_all
  also have "\<dots> = Ret () (freed p i2 (freed p i1 (freed p i0 x)))"
    using assms(2,3,9,14) by (subst free_chain_step [OF assms(1) _ assms(6)]) simp_all
  finally show ?thesis .
qed

section \<open>A request\<close>

text \<open>The state after the request is in the queue.\<close>

definition queued :: "nat \<Rightarrow> bool \<Rightarrow> u64 \<Rightarrow> nat \<Rightarrow> nat \<Rightarrow> nat \<Rightarrow> 'x vio_st_scheme \<Rightarrow> 'x vio_st_scheme \<Rightarrow> bool" where
  "queued b wr sector i0 i1 i2 s t \<longleftrightarrow>
     vdesc t i0 = \<lparr>desc_addr = OpAddr i0, desc_len = 16, desc_flags = VRING_DESC_F_NEXT, desc_next = of_nat i1\<rparr> \<and>
     vdesc t i1 = \<lparr>desc_addr = DataAddr b, desc_len = 1024, desc_flags = (if wr then 0 else VRING_DESC_F_WRITE) OR VRING_DESC_F_NEXT,
       desc_next = of_nat i2\<rparr> \<and>
     vdesc t i2 = \<lparr>desc_addr = StatusAddr i0, desc_len = 1, desc_flags = VRING_DESC_F_WRITE, desc_next = 0\<rparr> \<and>
     vops t i0 = \<lparr>req_type = (if wr then VIRTIO_BLK_T_OUT else VIRTIO_BLK_T_IN), req_sector = sector\<rparr> \<and>
     avail_ring t (unat (avail_idx t - 1) mod NUM) = of_nat i0 \<and> info_b t i0 = Some b \<and> bdisk t b \<and>
     hs t = hs s \<and> choices t = choices s \<and> bufs t = bufs s \<and> disk t = disk s \<and> dwrites t = dwrites s \<and> vfree t = vfree s \<and>
     used_idx t = used_idx s \<and> used_ring_idx t = used_ring_idx s \<and> info_b t = (info_b s)(i0 := Some b)"

lemma submit_queued:
  assumes "distinct [i0, i1, i2]"
  shows "\<exists>t. seq (format_request b wr sector (i0, i1, i2)) (submit_request b i0) s = Ret () t \<and> queued b wr sector i0 i1 i2 s t"
  using assms
  by (simp add: format_request_def submit_request_def kexec upd_desc_def write_R_def write_mmio_def queued_def BSIZE_def)

lemma queued_request:
  assumes "queued b wr (ucast (n * 2)) i0 i1 i2 s t" "i0 < NUM" "i1 < NUM" "i2 < NUM" "n < 2 ^ 31"
  shows "request t = Some (i0, wr, n, b)"
proof -
  have "unat n * 2 < 2 ^ 32" using assms(5) by (simp add: word_less_nat_alt)
  then have m: "unat (n * 2) = unat n * 2" by (simp add: unat_word_ariths)
  have "unat (ucast (n * 2) :: u64) = unat n * 2"
    using m unsigned_less [of "n * 2", where 'a = nat] by (simp add: unsigned_ucast_eq take_bit_nat_eq_self)
  then have "unat (ucast (n * 2) div 2 :: u64) = unat n" by (simp add: unat_div)
  then have "ucast ((ucast (n * 2) :: u64) div 2) = n"
    using unsigned_less [of n, where 'a = nat] by (simp add: word_unat_eq_iff unsigned_ucast_eq take_bit_nat_eq_self)
  then show ?thesis using assms(1) unat_small_16 [OF assms(2)] unat_small_16 [OF assms(3)] unat_small_16 [OF assms(4)]
    by (auto simp: queued_def request_def Let_def VIRTIO_BLK_T_OUT_def VIRTIO_BLK_T_IN_def VRING_DESC_F_NEXT_def VRING_DESC_F_WRITE_def)
qed

section \<open>Completion\<close>

lemma intr_completes:
  assumes "settled (hs v)" "\<forall>lk. free lk (hs v)" "used_ring_idx v = used_idx v + 1"
    "used_ring v (unat (used_idx v) mod NUM) = of_nat i0" "i0 < NUM" "info_status v i0 = 0" "info_b v i0 = Some b"
  shows "\<exists>P m. virtio_disk_intr v =
    Ret () (v\<lparr>procs := P, bdisk := (bdisk v)(b := False), used_idx := used_ring_idx v, mmio_out := m\<rparr>)"
proof -
  let ?m = "mmio_out v @ [(VIRTIO0 + of_nat 0x064, mmio v 0x060 AND 0x3)]"
  let ?w = "v\<lparr>hs := acq VdiskLock (hs v), mmio_out := ?m, bdisk := (bdisk v)(b := False)\<rparr>"
  have "proc_ready ?w" using assms(1,2) by (simp add: proc_ready_def)
  then have w: "wakeup (Some (ChBuf b)) ?w = Ret () (woken (ChBuf b) ?w)" by (rule wakeup_woken)
  have "unat (used_ring_idx v - used_idx v) = Suc 0" using assms(3) by simp
  then have "virtio_disk_intr v = Ret () (v\<lparr>procs := woken_procs (cproc (this_cpu (hs ?w))) (ChBuf b) (procs v),
      bdisk := (bdisk v)(b := False), used_idx := used_ring_idx v, mmio_out := ?m\<rparr>)"
    using assms unat_small_16(2) [OF assms(5)] w
    by (simp add: virtio_disk_intr_def kexec lock_rules write_R_def write_mmio_def woken_def upd_order)
  then show ?thesis by blast
qed

lemma env_completes:
  assumes "virtio_device dev" "settled h0" "\<forall>lk. free lk h0" "request t = Some (i0, wr, n, b)" "i0 < NUM"
    "used_ring_idx t = used_idx t" "info_b t i0 = Some b"
  shows "\<exists>u. disk_env dev h0 p c t = u \<and> hs u = hs t \<and> choices u = choices t \<and> \<not> bdisk u b \<and> used_idx u = used_ring_idx u \<and>
    vdesc u = vdesc t \<and> vfree u = vfree t \<and> info_b u = info_b t \<and> bufs u = bufs (moved wr n b t) \<and>
    disk u = disk (moved wr n b t) \<and> dwrites u = dwrites (moved wr n b t)"
proof -
  let ?v = "(completed (i0, wr, n, b) t)\<lparr>hs := h0\<rparr>"
  have d: "dev t = completed (i0, wr, n, b) t" using assms(1,4) by (simp add: virtio_device_def)
  have f: "hs ?v = h0" "used_ring_idx ?v = used_idx ?v + 1" "used_ring ?v (unat (used_idx ?v) mod NUM) = of_nat i0"
      "info_status ?v i0 = 0" "info_b ?v i0 = Some b" using assms(6,7) by (simp_all add: completed_def moved_def)
  obtain P m where "virtio_disk_intr ?v =
      Ret () (?v\<lparr>procs := P, bdisk := (bdisk ?v)(b := False), used_idx := used_ring_idx ?v, mmio_out := m\<rparr>)"
    using intr_completes [of ?v i0 b] assms(2,3,5) f by auto
  then show ?thesis by (simp add: disk_env_def d completed_def moved_def)
qed

lemma disk_wait_completes:
  fixes s t :: "'x vio_st_scheme"
  assumes "virtio_device dev" "settled h0" "\<forall>lk. free lk h0" "calm_hart p h"
    and q: "queued b wr (ucast (n * 2)) i0 i1 i2 s t" and i: "i0 < NUM" "i1 < NUM" "i2 < NUM" and n: "n < 2 ^ 31"
    and "hs s = acq VdiskLock h" "choices s = c # cs" "used_ring_idx s = used_idx s"
  shows "\<exists>u. disk_wait (Suc (length (choices t))) (disk_env dev h0 p) b t = Ret () u \<and> hs u = acq VdiskLock h \<and> \<not> bdisk u b \<and>
    used_idx u = used_ring_idx u \<and> vdesc u = vdesc t \<and> vfree u = vfree s \<and> bufs u = bufs (moved wr n b s) \<and>
    disk u = disk (moved wr n b s) \<and> dwrites u = dwrites (moved wr n b s)"
proof -
  let ?E = "disk_env dev h0 p"
  let ?a = "(asleep p (ChBuf b) h t)\<lparr>choices := cs\<rparr>"
  have ht: "hs t = acq VdiskLock h" "choices t = c # cs" "bdisk t b" "info_b t i0 = Some b" "vfree t = vfree s"
      "used_ring_idx t = used_idx t" "bufs t = bufs s" "disk t = disk s" "dwrites t = dwrites s"
    using q assms(10-12) by (simp_all add: queued_def)
  have "queued b wr (ucast (n * 2)) i0 i1 i2 ?a ?a" using q by (simp add: queued_def asleep_def)
  from queued_request [OF this i n] have r: "request ?a = Some (i0, wr, n, b)" .
  obtain u where u: "?E c ?a = u" "\<not> bdisk u b" "used_idx u = used_ring_idx u" "vdesc u = vdesc t" "vfree u = vfree t"
      "bufs u = bufs (moved wr n b ?a)" "disk u = disk (moved wr n b ?a)" "dwrites u = dwrites (moved wr n b ?a)"
    using env_completes [OF assms(1-3) r i(1), of p c] ht(4,6) by (auto simp: asleep_def)
  let ?w = "u\<lparr>procs := (procs u)(p := (procs u p)\<lparr>pchan := None\<rparr>), hs := acq VdiskLock h\<rparr>"
  have "sleep ?E (ChBuf b) VdiskLock t = Ret () ?w"
    using sleep_eq [OF _ ht(1) _ _ same_hart_disk_env, of p dev h0 p "ChBuf b"] assms(4) ht(2) u(1) by (simp add: Let_def)
  then have "disk_wait (Suc (length (choices t))) ?E b t = Ret () ?w" using ht(2,3) u(2) by (simp add: kexec)
  moreover have "bufs (moved wr n b ?a) = bufs (moved wr n b s)" "disk (moved wr n b ?a) = disk (moved wr n b s)"
      "dwrites (moved wr n b ?a) = dwrites (moved wr n b s)" using ht(7-9) by (simp_all add: moved_def asleep_def)
  ultimately show ?thesis using u(2-8) ht(5) by simp
qed

text \<open>C3: The driver of the virtio disk, its interrupt handler and a device that serves the requests it finds in the queue together
  implement the atomic block transfer that the buffer cache is built on: with three free descriptors,
  \<^verbatim>\<open>virtio_disk_rw\<close> builds a chain the device accepts, sleeps, is woken by the interrupt of its own request and
  returns with the block moved in the right direction, every descriptor returned to the free list, nothing
  left in the used ring and the lock released.\<close>

theorem virtio_disk_refines:
  fixes s :: "'x vio_st_scheme"
  assumes "calm p s" "choices s = c # cs" "3 \<le> card {i. i < NUM \<and> vfree s i}" "used_ring_idx s = used_idx s"
    and "blockno (bufs s b) < 2 ^ 31" "virtio_device dev" "settled h0" "\<forall>lk. free lk h0"
  shows "\<exists>t u. virtio_disk_rw (disk_env dev h0 p) b wr s = Ret () t \<and> disk_rw b wr s = Ret () u \<and> bufs t = bufs u \<and>
    disk t = disk u \<and> dwrites t = dwrites u \<and> hs t = hs s \<and> vfree t = vfree s \<and> used_idx t = used_ring_idx t \<and> \<not> bdisk t b"
proof -
  let ?E = "disk_env dev h0 p" and ?h = "hs s" and ?n = "blockno (bufs s b)"
  let ?s0 = "s\<lparr>hs := acq VdiskLock ?h\<rparr>"
  obtain i0 i1 i2 where i: "distinct [i0, i1, i2]" "i0 < NUM" "i1 < NUM" "i2 < NUM" "vfree s i0" "vfree s i1" "vfree s i2"
      "alloc3_desc ?s0 = Ret (Some (i0, i1, i2)) (?s0\<lparr>vfree := (vfree s)(i0 := False, i1 := False, i2 := False)\<rparr>)"
    using alloc3_desc_free [of ?s0] assms(3) by auto
  let ?s1 = "?s0\<lparr>vfree := (vfree s)(i0 := False, i1 := False, i2 := False)\<rparr>"
  obtain t where t: "seq (format_request b wr (ucast (?n * 2)) (i0, i1, i2)) (submit_request b i0) ?s1 = Ret () t"
      "queued b wr (ucast (?n * 2)) i0 i1 i2 ?s1 t" using submit_queued [OF i(1)] by blast
  obtain u where u: "disk_wait (Suc (length (choices t))) ?E b t = Ret () u" "hs u = acq VdiskLock ?h" "\<not> bdisk u b"
      "used_idx u = used_ring_idx u" "vdesc u = vdesc t" "vfree u = vfree ?s1" "bufs u = bufs (moved wr ?n b ?s1)"
      "disk u = disk (moved wr ?n b ?s1)" "dwrites u = dwrites (moved wr ?n b ?s1)"
    using disk_wait_completes [OF assms(6-8,1) t(2) i(2-4) assms(5)] assms(2,4) by auto
  define x where "x = u\<lparr>info_b := (info_b u)(i0 := None)\<rparr>"
  have "free_chain i0 x = Ret () (freed p i2 (freed p i1 (freed p i0 x)))"
    using assms(1) i u(2,5,6) t(2)
    by (intro free_chain_eq [where h = ?h])
      (auto simp: x_def queued_def VRING_DESC_F_NEXT_def VRING_DESC_F_WRITE_def)
  moreover define y where "y = freed p i2 (freed p i1 (freed p i0 x))"
  ultimately have fc: "free_chain i0 x = Ret () y" by simp
  have y: "hs y = acq VdiskLock ?h" "\<not> bdisk y b" "used_idx y = used_ring_idx y" "bufs y = bufs (moved wr ?n b s)"
      "disk y = disk (moved wr ?n b s)" "dwrites y = dwrites (moved wr ?n b s)"
      "vfree y = (vfree ?s1)(i0 := True, i1 := True, i2 := True)"
    using u by (simp_all add: y_def x_def moved_def)
  have "virtio_disk_rw ?E b wr s = seq (seq (format_request b wr (ucast (?n * 2)) (i0, i1, i2)) (submit_request b i0))
      (bind (get (\<lambda>s. Suc (length (choices s)))) (\<lambda>fuel. seq (disk_wait fuel ?E b) (
       seq (modify (\<lambda>s. s\<lparr>info_b := (info_b s)(i0 := None)\<rparr>)) (seq (free_chain i0) (release VdiskLock))))) ?s1"
    using assms(1) i(8) by (simp add: virtio_disk_rw_def kexec lock_rules seq_assoc)
  also have "\<dots> = release VdiskLock y"
    using t(1) u(1) fc by (simp add: kexec x_def)
  also have "\<dots> = Ret () (y\<lparr>hs := ?h\<rparr>)" using y(1) assms(1) by (simp add: lock_rules)
  finally have v: "virtio_disk_rw ?E b wr s = Ret () (y\<lparr>hs := ?h\<rparr>)" .
  have "disk_rw b wr s = Ret () (moved wr ?n b s)" by (simp add: disk_rw_def moved_def)
  moreover have "vfree (y\<lparr>hs := ?h\<rparr>) = vfree s" using y(7) i(5-7) by (auto simp: fun_eq_iff)
  ultimately show ?thesis using v y(2-6) by (intro exI [of _ "y\<lparr>hs := ?h\<rparr>"] exI [of _ "moved wr ?n b s"]) simp
qed

section \<open>Example\<close>

text \<open>An idle disk queue with all descriptors free and counters about to wrap around, and a device that serves every
  request.\<close>

definition vio_ex :: vio_st where
  "vio_ex = sys_st.extend (file_st.extend (pipe_st.extend pipe_ex \<lparr>ftable = (\<lambda>_. \<lparr>ftype = FD_NONE, fref = 0, freadable = False, fwritable = False, fpipe = 0, fip = None, foff = 0, fmajor = 0\<rparr>)\<rparr>)
     \<lparr>syscall_counter = 0, seed = 0, mtime = 0\<rparr>)
     \<lparr>vdesc = (\<lambda>_. desc0), avail_idx = - 1, avail_ring = (\<lambda>_. 0), used_ring_idx = - 1, used_ring = (\<lambda>_. 0), vfree = (\<lambda>_. True),
      used_idx = - 1, info_b = (\<lambda>_. None), info_status = (\<lambda>_. 0), vops = (\<lambda>_. \<lparr>req_type = 0, req_sector = 0\<rparr>),
      bdisk = (\<lambda>_. False), mmio = (\<lambda>_. 0), mmio_out = [], claims = []\<rparr>\<lparr>choices := [0]\<rparr>"

definition prompt_device :: "'x vio_st_scheme \<Rightarrow> 'x vio_st_scheme" where
  "prompt_device t = (case request t of Some r \<Rightarrow> completed r t | None \<Rightarrow> t)"

lemma vio_ex_fields:
  "hs vio_ex = hart3" "choices vio_ex = [0]" "bufs vio_ex = bufs pipe_ex" "disk vio_ex = disk pipe_ex"
  "vfree vio_ex = (\<lambda>_. True)" "used_ring_idx vio_ex = used_idx vio_ex"
  by (simp_all add: vio_ex_def sys_st.defs file_st.defs pipe_st.defs)

theorem virtio_disk_refines_witness:
  "\<exists>t. virtio_disk_rw (disk_env prompt_device hart3 3) 0 False (vio_ex\<lparr>bufs := (\<lambda>_. buf0)\<rparr>) = Ret () t \<and>
    bdata (bufs t 0) = disk vio_ex 0"
proof -
  let ?s = "vio_ex\<lparr>bufs := (\<lambda>_. buf0)\<rparr>"
  have "virtio_device (prompt_device :: vio_st \<Rightarrow> vio_st)" by (simp add: virtio_device_def prompt_device_def)
  moreover have "calm 3 ?s" "choices ?s = [0]" "used_ring_idx ?s = used_idx ?s" by (simp_all add: vio_ex_fields)
  moreover have "{i. i < NUM \<and> vfree ?s i} = {..<NUM}" by (auto simp: vio_ex_fields)
  then have "3 \<le> card {i. i < NUM \<and> vfree ?s i}" by (simp add: NUM_def)
  moreover have "settled hart3" "\<forall>lk. free lk hart3" using calm_hart3 calm_rules(1,2) by blast+
  moreover have b: "blockno (bufs ?s 0) = 0" by (simp add: buf0_def)
  then have "blockno (bufs ?s 0) < 2 ^ 31" by simp
  ultimately obtain t u where "virtio_disk_rw (disk_env prompt_device hart3 3) 0 False ?s = Ret () t"
      "disk_rw 0 False ?s = Ret () u" "bufs t = bufs u"
    using virtio_disk_refines [of 3 ?s 0 "[]" 0 prompt_device hart3 False] by blast
  then show ?thesis using b by (auto simp: disk_rw_def)
qed

end
