(* ===== verification/Ulib.thy ===== *)
theory Ulib
  imports Prelude
begin

text \<open>
  \<^verbatim>\<open>user/ulib.c\<close>, the library of the user programs. A pointer into an array is the list of the bytes from there
  to the end of the array (where two pointers into one array are needed, the array and two indices). \<open>None\<close> is
  an access outside the array, which C leaves undefined. \<open>char\<close> is unsigned on RISC-V.
\<close>

abbreviation linefeed :: u8 where "linefeed \<equiv> 0x0a"
abbreviation carriage :: u8 where "carriage \<equiv> 0x0d"

section \<open>Strings\<close>

fun strcpy :: "u8 list \<Rightarrow> u8 list \<Rightarrow> u8 list option" where
  "strcpy (s # ss) (t # ts) = (if t \<noteq> 0 then map_option (Cons t) (strcpy ss ts) else Some (t # ss))"
| "strcpy _ _ = None"

fun strcmp :: "u8 list \<Rightarrow> u8 list \<Rightarrow> int option" where
  "strcmp (p # ps) (q # qs) = (if p \<noteq> 0 \<and> p = q then strcmp ps qs else Some (uint p - uint q))"
| "strcmp _ _ = None"

primrec strlen_u :: "u8 list \<Rightarrow> nat option" where
  "strlen_u [] = None"
| "strlen_u (c # s) = (if c \<noteq> 0 then map_option Suc (strlen_u s) else Some 0)"

text \<open>\<^verbatim>\<open>strchr\<close> returns a null pointer, \<open>Some None\<close>, or the distance of the character from the start.\<close>

primrec strchr :: "u8 list \<Rightarrow> u8 \<Rightarrow> nat option option" where
  "strchr [] x = None"
| "strchr (c # s) x =
     (if c \<noteq> 0 then if c = x then Some (Some 0) else map_option (map_option Suc) (strchr s x)
      else Some None)"

text \<open>Each call of \<^verbatim>\<open>read\<close> for one byte delivers the byte or fails; after the last entry of the list input is at its end.\<close>

primrec gets_loop :: "u8 option list \<Rightarrow> u8 list \<Rightarrow> nat \<Rightarrow> nat \<Rightarrow> (u8 list \<times> nat \<times> u8 option list)" where
  "gets_loop [] buf i mx = (buf, i, [])"
| "gets_loop (r # rs) buf i mx =
     (if i + 1 < mx
      then case r of None \<Rightarrow> (buf, i, rs)
        | Some c \<Rightarrow> if c = linefeed \<or> c = carriage then (buf[i := c], i + 1, rs) else gets_loop rs (buf[i := c]) (i + 1) mx
      else (buf, i, r # rs))"

definition gets :: "u8 option list \<Rightarrow> u8 list \<Rightarrow> nat \<Rightarrow> (u8 list \<times> u8 option list) option" where
  "gets rs buf mx =
     (let (b, i, rs') = gets_loop rs buf 0 mx
      in if mx \<le> length buf \<and> i < length buf then Some (b[i := 0], rs') else None)"

primrec atoi_loop :: "u32 \<Rightarrow> u8 list \<Rightarrow> u32 option" where
  "atoi_loop n [] = None"
| "atoi_loop n (c # s) =
     (if 0x30 \<le> c \<and> c \<le> 0x39 then atoi_loop (n * 10 + ucast c - 0x30) s else Some n)"

definition atoi :: "u8 list \<Rightarrow> u32 option" where
  "atoi s = atoi_loop 0 s"

section \<open>Memory\<close>

primrec memset_u :: "u8 list \<Rightarrow> u32 \<Rightarrow> nat \<Rightarrow> u8 list option" where
  "memset_u dst c 0 = Some dst"
| "memset_u dst c (Suc n) =
     (case dst of [] \<Rightarrow> None | d # ds \<Rightarrow> map_option (Cons (ucast c)) (memset_u ds c n))"

primrec move_up :: "nat \<Rightarrow> u8 list \<Rightarrow> nat \<Rightarrow> nat \<Rightarrow> u8 list option" where
  "move_up 0 a dst src = Some a"
| "move_up (Suc n) a dst src =
     (if dst < length a \<and> src < length a then move_up n (a[dst := a ! src]) (dst + 1) (src + 1) else None)"

primrec move_down :: "nat \<Rightarrow> u8 list \<Rightarrow> nat \<Rightarrow> nat \<Rightarrow> u8 list option" where
  "move_down 0 a dst src = Some a"
| "move_down (Suc n) a dst src =
     (if 0 < dst \<and> 0 < src \<and> dst \<le> length a \<and> src \<le> length a
      then move_down n (a[dst - 1 := a ! (src - 1)]) (dst - 1) (src - 1) else None)"

definition memmove_u :: "u8 list \<Rightarrow> nat \<Rightarrow> nat \<Rightarrow> nat \<Rightarrow> u8 list option" where
  "memmove_u a dst src n = (if src > dst then move_up n a dst src else move_down n a (dst + n) (src + n))"

definition memcpy_u :: "u8 list \<Rightarrow> nat \<Rightarrow> nat \<Rightarrow> nat \<Rightarrow> u8 list option" where
  "memcpy_u a dst src n = memmove_u a dst src n"

primrec memcmp_u :: "nat \<Rightarrow> u8 list \<Rightarrow> u8 list \<Rightarrow> int option" where
  "memcmp_u 0 p q = Some 0"
| "memcmp_u (Suc n) p q =
     (case (p, q) of (a # ps, b # qs) \<Rightarrow> if a \<noteq> b then Some (uint a - uint b) else memcmp_u n ps qs
      | _ \<Rightarrow> None)"

section \<open>What they compute\<close>

text \<open>The C string that starts at a pointer.\<close>

primrec str_at :: "u8 list \<Rightarrow> u8 list option" where
  "str_at [] = None"
| "str_at (c # s) = (if c \<noteq> 0 then map_option (Cons c) (str_at s) else Some [])"

lemma str_at_Some: "str_at s = Some x \<longleftrightarrow> (\<exists>r. s = x @ 0 # r \<and> 0 \<notin> set x)"
proof (induction s arbitrary: x)
  case (Cons c s)
  then show ?case by (cases x) auto
qed simp

lemma str_at_app [simp]: "0 \<notin> set x \<Longrightarrow> str_at (x @ 0 # r) = Some x"
  by (auto simp: str_at_Some)

lemma strlen_u_cstr: "strlen_u s = map_option length (str_at s)"
  by (induction s) (simp_all add: option.map_comp comp_def)

lemma strcpy_cstr:
  "str_at t = Some x \<Longrightarrow> length x < length s \<Longrightarrow> strcpy s t = Some (x @ 0 # drop (length x + 1) s)"
proof (induction t arbitrary: s x)
  case (Cons c t)
  then show ?case by (cases s) (auto split: if_splits)
qed simp

lemma strcmp_cstr: "str_at s = Some x \<Longrightarrow> str_at t = Some y \<Longrightarrow> \<exists>d. strcmp s t = Some d \<and> (d = 0 \<longleftrightarrow> x = y)"
proof (induction s t arbitrary: x y rule: strcmp.induct)
  case (1 p ps q qs)
  show ?case
  proof (cases "p \<noteq> 0 \<and> p = q")
    case True
    then obtain x' y' where "str_at ps = Some x'" "str_at qs = Some y'" "x = p # x'" "y = p # y'" using 1 by auto
    then show ?thesis using True 1(1) by auto
  next
    case False
    then show ?thesis using 1 by (auto simp: unsigned_eq_0_iff simp flip: word_uint_eq_iff split: if_splits)
  qed
qed auto

lemma strchr_found: "0 \<notin> set x \<Longrightarrow> c \<notin> set x \<Longrightarrow> c \<noteq> 0 \<Longrightarrow> strchr (x @ c # r) c = Some (Some (length x))"
  by (induction x) auto

lemma strchr_absent: "0 \<notin> set x \<Longrightarrow> c \<notin> set x \<Longrightarrow> strchr (x @ 0 # r) c = Some None"
  by (induction x) auto

lemma strchr_less: "strchr s c = Some (Some i) \<Longrightarrow> i < length s"
  by (induction s arbitrary: i) (auto split: if_splits)

lemma strchr_set: "str_at s = Some x \<Longrightarrow> strchr s c = Some None \<longleftrightarrow> c \<notin> set x"
proof (induction s arbitrary: x)
  case (Cons a s)
  then show ?case by (cases "strchr s c") (auto split: if_splits)
qed simp

lemma length_move_up: "move_up n a d s = Some b \<Longrightarrow> length b = length a"
  by (induction n arbitrary: a d s) (auto split: if_splits)

lemma move_up_nth:
  "d < s \<Longrightarrow> s + n \<le> length a \<Longrightarrow>
     \<exists>b. move_up n a d s = Some b \<and> length b = length a \<and> (\<forall>i<length a. b ! i = (if d \<le> i \<and> i < d + n then a ! (s + i - d) else a ! i))"
proof (induction n arbitrary: a d s)
  case (Suc n)
  from Suc.IH [of "d + 1" "s + 1" "a[d := a ! s]"] Suc.prems obtain b where
    "move_up n (a[d := a ! s]) (d + 1) (s + 1) = Some b" "length b = length a"
    "\<forall>i<length a. b ! i = (if d + 1 \<le> i \<and> i < d + 1 + n then a[d := a ! s] ! (s + 1 + i - (d + 1)) else a[d := a ! s] ! i)"
    by auto
  then show ?case using Suc.prems by (auto simp: nth_list_update not_less_eq_eq le_Suc_eq)
qed auto

lemma move_down_nth:
  "s \<le> d \<Longrightarrow> d + n \<le> length a \<Longrightarrow>
     \<exists>b. move_down n a (d + n) (s + n) = Some b \<and> length b = length a \<and>
       (\<forall>i<length a. b ! i = (if d \<le> i \<and> i < d + n then a ! (s + i - d) else a ! i))"
proof (induction n arbitrary: a)
  case (Suc n)
  from Suc.IH [of "a[d + n := a ! (s + n)]"] Suc.prems obtain b where
    "move_down n (a[d + n := a ! (s + n)]) (d + n) (s + n) = Some b" "length b = length a"
    "\<forall>i<length a. b ! i = (if d \<le> i \<and> i < d + n then a[d + n := a ! (s + n)] ! (s + i - d) else a[d + n := a ! (s + n)] ! i)"
    by auto
  then show ?case using Suc.prems by (auto simp: nth_list_update not_less less_Suc_eq_le dest!: le_antisym)
qed auto

lemma memmove_u_eq:
  assumes "dst + n \<le> length a" "src + n \<le> length a"
  shows "memmove_u a dst src n = Some (take dst a @ take n (drop src a) @ drop (dst + n) a)"
proof -
  have "\<exists>b. memmove_u a dst src n = Some b \<and> length b = length a \<and>
    (\<forall>i<length a. b ! i = (if dst \<le> i \<and> i < dst + n then a ! (src + i - dst) else a ! i))"
  proof (cases "src > dst")
    case True
    then show ?thesis using move_up_nth [OF _ assms(2)] by (simp add: memmove_u_def)
  next
    case False
    then show ?thesis using move_down_nth [OF _ assms(1)] by (simp add: memmove_u_def)
  qed
  then obtain b where b: "memmove_u a dst src n = Some b" "length b = length a"
    "\<forall>i<length a. b ! i = (if dst \<le> i \<and> i < dst + n then a ! (src + i - dst) else a ! i)" by blast
  have "b = take dst a @ take n (drop src a) @ drop (dst + n) a"
  proof (rule nth_equalityI)
    show "length b = length (take dst a @ take n (drop src a) @ drop (dst + n) a)" using assms b(2) by auto
    show "b ! i = (take dst a @ take n (drop src a) @ drop (dst + n) a) ! i" if "i < length b" for i
      using assms b that by (cases "i < dst"; cases "i - dst < n") (auto simp: nth_append)
  qed
  then show ?thesis using b(1) by simp
qed

lemma memcmp_u_eq:
  "n \<le> length p \<Longrightarrow> n \<le> length q \<Longrightarrow> \<exists>d. memcmp_u n p q = Some d \<and> (d = 0 \<longleftrightarrow> take n p = take n q)"
proof (induction n arbitrary: p q)
  case (Suc n)
  then show ?case by (cases p; cases q) (auto simp flip: word_uint_eq_iff)
qed simp

lemma memset_u_eq: "n \<le> length a \<Longrightarrow> memset_u a c n = Some (replicate n (ucast c) @ drop n a)"
proof (induction n arbitrary: a)
  case (Suc n)
  then show ?case by (cases a) auto
qed simp

section \<open>Numbers\<close>

definition decimal :: "u8 list \<Rightarrow> nat" where
  "decimal ds = foldl (\<lambda>n d. 10 * n + (unat d - 48)) 0 ds"

lemma atoi_digits:
  assumes "\<forall>d\<in>set ds. 0x30 \<le> d \<and> d \<le> 0x39" "\<not> (0x30 \<le> c \<and> c \<le> 0x39)"
  shows "atoi (ds @ c # r) = Some (of_nat (decimal ds))"
proof -
  have "atoi_loop (of_nat n) (ds @ c # r) = Some (of_nat (foldl (\<lambda>n d. 10 * n + (unat d - 48)) n ds))" for n
    using assms
  proof (induction ds arbitrary: n)
    case (Cons d ds)
    have "48 \<le> unat d" using Cons.prems(1) by (simp add: word_le_nat_alt)
    then have e: "(of_nat n * 10 + ucast d - 0x30 :: u32) = of_nat (10 * n + (unat d - 48))"
      by (simp add: of_nat_diff)
    from Cons show ?case by (simp add: e del: of_nat_add of_nat_mult)
  qed auto
  from this [of 0] show ?thesis by (simp add: atoi_def decimal_def)
qed

end
