(* ===== verification/Grep.thy ===== *)
theory Grep
  imports Ulib
begin

text \<open>
  The text tools \<^verbatim>\<open>user/grep.c\<close>, \<^verbatim>\<open>user/wc.c\<close> and \<^verbatim>\<open>user/cat.c\<close>. A C string is the list of its characters in the matcher; the input
  buffer of a tool is the whole array. An input is the data still to be delivered and, for each coming call
  of \<^verbatim>\<open>read\<close>, how many bytes beyond the first it delivers at most, or that it fails; later calls deliver all they can.
\<close>

section \<open>The matcher\<close>

abbreviation caret :: u8 where "caret \<equiv> 0x5e"
abbreviation dollar :: u8 where "dollar \<equiv> 0x24"
abbreviation dot :: u8 where "dot \<equiv> 0x2e"
abbreviation asterisk :: u8 where "asterisk \<equiv> 0x2a"

function matchhere :: "u8 list \<Rightarrow> u8 list \<Rightarrow> bool"
  and matchstar :: "u8 \<Rightarrow> u8 list \<Rightarrow> u8 list \<Rightarrow> bool" where
  "matchhere re str =
     (case re of [] \<Rightarrow> True
      | r # rs \<Rightarrow>
          if rs \<noteq> [] \<and> hd rs = asterisk then matchstar r (tl rs) str
          else if r = dollar \<and> rs = [] then str = []
          else if str \<noteq> [] \<and> (r = dot \<or> r = hd str) then matchhere rs (tl str)
          else False)"
| "matchstar c re str =
     (if matchhere re str then True
      else if str \<noteq> [] \<and> (hd str = c \<or> c = dot) then matchstar c re (tl str)
      else False)"
  by pat_completeness auto
termination
  by (relation "inv_image (less_than <*lex*> less_than)
        (case_sum (\<lambda>(re, str). (2 * length re, length str)) (\<lambda>(c, re, str). (2 * length re + 1, length str)))")
     (auto simp: neq_Nil_conv)

declare matchhere.simps [simp del] matchstar.simps [simp del]

primrec match_from :: "u8 list \<Rightarrow> u8 list \<Rightarrow> bool" where
  "match_from re [] = matchhere re []"
| "match_from re (c # str) = (if matchhere re (c # str) then True else match_from re str)"

definition match :: "u8 list \<Rightarrow> u8 list \<Rightarrow> bool" where
  "match re str = (if re \<noteq> [] \<and> hd re = caret then matchhere (tl re) str else match_from re str)"

section \<open>The language of a pattern\<close>

datatype item = Single u8 | Many u8 | AtEnd

fun items :: "u8 list \<Rightarrow> item list" where
  "items [] = []"
| "items [r] = (if r = dollar then [AtEnd] else [Single r])"
| "items (r # r' # re) = (if r' = asterisk then Many r # items re else Single r # items (r' # re))"

definition fits :: "u8 \<Rightarrow> u8 \<Rightarrow> bool" where
  "fits r c \<longleftrightarrow> r = dot \<or> r = c"

primrec item_lang :: "item \<Rightarrow> u8 list set" where
  "item_lang (Single r) = {[c] |c. fits r c}"
| "item_lang (Many r) = {cs. \<forall>c\<in>set cs. fits r c}"
| "item_lang AtEnd = {[]}"

primrec lang :: "item list \<Rightarrow> u8 list set" where
  "lang [] = {[]}"
| "lang (i # its) = {xs @ ys |xs ys. xs \<in> item_lang i \<and> ys \<in> lang its}"

text \<open>A text has an occurrence of a list of items after some prefix.\<close>

definition occurs_after :: "item list \<Rightarrow> u8 list \<Rightarrow> u8 list \<Rightarrow> bool" where
  "occurs_after its pre str \<longleftrightarrow>
     (\<exists>mid post. str = pre @ mid @ post \<and> mid \<in> lang its \<and> (AtEnd \<in> set its \<longrightarrow> post = []))"

abbreviation anchored :: "u8 list \<Rightarrow> bool" where
  "anchored re \<equiv> re \<noteq> [] \<and> hd re = caret"

lemma occurs_Nil [simp]: "occurs_after [] [] str"
  by (simp add: occurs_after_def)

lemma occurs_AtEnd [simp]: "occurs_after [AtEnd] [] str \<longleftrightarrow> str = []"
  by (auto simp: occurs_after_def)

lemma occurs_Cons:
  assumes "i \<noteq> AtEnd"
  shows "occurs_after (i # its) [] str \<longleftrightarrow> (\<exists>xs ys. str = xs @ ys \<and> xs \<in> item_lang i \<and> occurs_after its [] ys)" (is "?L \<longleftrightarrow> ?R")
proof
  assume ?L
  then obtain y post where "str = y @ post" "y \<in> lang (i # its)" and e: "AtEnd \<in> set its \<longrightarrow> post = []"
    unfolding occurs_after_def by auto
  then obtain xs mid where "str = xs @ mid @ post" "xs \<in> item_lang i" "mid \<in> lang its" by auto
  with e show ?R unfolding occurs_after_def by (intro exI [of _ xs] exI [of _ "mid @ post"]) auto
next
  assume ?R
  then obtain xs mid post where "str = xs @ mid @ post" "xs \<in> item_lang i" "mid \<in> lang its" "AtEnd \<in> set its \<longrightarrow> post = []"
    unfolding occurs_after_def by auto
  then show ?L unfolding occurs_after_def using assms by (intro exI [of _ "xs @ mid"] exI [of _ post]) auto
qed

lemma occurs_Single [simp]:
  "occurs_after (Single r # its) [] str \<longleftrightarrow> str \<noteq> [] \<and> fits r (hd str) \<and> occurs_after its [] (tl str)"
proof (cases str)
  case (Cons a l)
  have "occurs_after its [] l \<Longrightarrow> fits r a \<Longrightarrow> \<exists>xs ys. a # l = xs @ ys \<and> (\<exists>c. xs = [c] \<and> fits r c) \<and> occurs_after its [] ys"
    by (rule exI [of _ "[a]"]) simp
  with Cons show ?thesis by (auto simp: occurs_Cons)
qed (auto simp: occurs_Cons)

lemma occurs_Many:
  "occurs_after (Many r # its) [] str \<longleftrightarrow>
     occurs_after its [] str \<or> str \<noteq> [] \<and> fits r (hd str) \<and> occurs_after (Many r # its) [] (tl str)" (is "?L \<longleftrightarrow> ?R")
proof
  assume ?L
  then obtain xs ys where o: "str = xs @ ys" "\<forall>c\<in>set xs. fits r c" "occurs_after its [] ys" by (auto simp: occurs_Cons)
  then show ?R by (cases xs) (auto simp: occurs_Cons)
next
  assume ?R
  then consider "occurs_after its [] str" | c xs ys where "str = (c # xs) @ ys" "\<forall>c\<in>set (c # xs). fits r c" "occurs_after its [] ys"
    by (cases str) (auto simp: occurs_Cons)
  then show ?L
  proof cases
    case 1
    then show ?thesis by (simp add: occurs_Cons exI [of _ "[]"])
  next
    case 2
    then have "str = (c # xs) @ ys \<and> c # xs \<in> item_lang (Many r) \<and> occurs_after its [] ys" by simp
    then show ?thesis unfolding occurs_Cons [OF item.distinct(5)] by blast
  qed
qed

lemma occurs_pre: "occurs_after its pre str \<longleftrightarrow> (\<exists>s'. str = pre @ s' \<and> occurs_after its [] s')"
  by (auto simp: occurs_after_def)

lemma matchhere_occurs:
  "matchhere re str \<longleftrightarrow> occurs_after (items re) [] str"
  "matchstar c re str \<longleftrightarrow> occurs_after (Many c # items re) [] str"
proof (induction re str and c re str rule: matchhere_matchstar.induct)
  case (1 re str)
  then show ?case
    by (subst matchhere.simps, cases re rule: items.cases) (auto simp: fits_def)
next
  case (2 c re str)
  then show ?case by (subst matchstar.simps, subst occurs_Many) (auto simp: fits_def)
qed

lemma occurs_skip: "(\<exists>pre. occurs_after its pre (c # str)) \<longleftrightarrow> occurs_after its [] (c # str) \<or> (\<exists>pre. occurs_after its pre str)"
proof
  assume "\<exists>pre. occurs_after its pre (c # str)"
  then obtain pre s' where "c # str = pre @ s'" "occurs_after its [] s'" unfolding occurs_pre [of its _ "c # str"] by blast
  then show "occurs_after its [] (c # str) \<or> (\<exists>pre. occurs_after its pre str)"
    unfolding occurs_pre [of its _ str] by (cases pre) auto
next
  have "occurs_after its (c # pre) (c # str)" if "occurs_after its pre str" for pre
    using that by (simp add: occurs_after_def)
  moreover assume "occurs_after its [] (c # str) \<or> (\<exists>pre. occurs_after its pre str)"
  ultimately show "\<exists>pre. occurs_after its pre (c # str)" by blast
qed

lemma match_from_occurs: "match_from re str \<longleftrightarrow> (\<exists>pre. occurs_after (items re) pre str)"
proof (induction str)
  case Nil
  have "occurs_after its pre [] \<Longrightarrow> pre = []" for its pre by (simp add: occurs_after_def)
  then show ?case by (auto simp: matchhere_occurs)
next
  case (Cons c str)
  then show ?case by (simp add: matchhere_occurs occurs_skip)
qed

text \<open>C14: The matcher of \<^verbatim>\<open>grep\<close> decides the language of its pattern: it accepts a text exactly when some part of the text (the
  part from the start, if the pattern begins with a caret; up to the end, if it ends with a dollar sign) is in the
  language of the pattern, where a character stands for itself, a dot for any character and a star for any number
  of what precedes it. The two mutually recursive functions terminate on every pattern and text.\<close>

theorem match_language:
  "match re str \<longleftrightarrow>
     (\<exists>pre. occurs_after (items (if anchored re then tl re else re)) pre str \<and> (anchored re \<longrightarrow> pre = []))"
  by (auto simp: match_def matchhere_occurs match_from_occurs)

theorem match_language_witness:
  "match [caret, 0x61, asterisk, dot, 0x62, dollar] [0x61, 0x61, 0x63, 0x62] \<and>
   (\<exists>pre. occurs_after (items [0x61, asterisk, dot, 0x62, dollar]) pre [0x61, 0x61, 0x63, 0x62] \<and> pre = [])"
  using match_language [of "[caret, 0x61, asterisk, dot, 0x62, dollar]" "[0x61, 0x61, 0x63, 0x62]"]
  by (simp add: match_def matchhere.simps matchstar.simps)

section \<open>Reading and printing\<close>

record input_src =
  rest :: "u8 list"
  lens :: "nat option list"

definition read_in :: "input_src \<Rightarrow> nat \<Rightarrow> u8 list option \<times> input_src" where
  "read_in src n =
     (case lens src of
        [] \<Rightarrow> (Some (take n (rest src)), src\<lparr>rest := drop n (rest src)\<rparr>)
      | None # ks \<Rightarrow> (None, src\<lparr>lens := ks\<rparr>)
      | Some k # ks \<Rightarrow> (Some (take (min n (Suc k)) (rest src)), \<lparr>rest = drop (min n (Suc k)) (rest src), lens = ks\<rparr>))"

abbreviation BUFSIZE :: nat where "BUFSIZE \<equiv> 1024"

text \<open>The inner loop: take the complete lines off the buffer, starting at \<open>p\<close>. The string handed to the matcher is the
  line, whose newline has just been replaced by a NUL.\<close>

function grep_scan :: "u8 list \<Rightarrow> u8 list \<Rightarrow> nat \<Rightarrow> u8 list \<Rightarrow> (u8 list \<times> nat \<times> u8 list) option" where
  "grep_scan pattern buf p out =
     (case strchr (drop p buf) linefeed of None \<Rightarrow> None
      | Some None \<Rightarrow> Some (buf, p, out)
      | Some (Some i) \<Rightarrow>
          let q = p + i; buf = buf[q := 0] in
          case str_at (drop p buf) of None \<Rightarrow> None
          | Some s \<Rightarrow>
              if match pattern s
              then let buf = buf[q := linefeed] in grep_scan pattern buf (q + 1) (out @ take (q + 1 - p) (drop p buf))
              else grep_scan pattern buf (q + 1) out)"
  by pat_completeness auto
termination
  by (relation "measure (\<lambda>(pattern, buf, p, out). length buf - p)") (auto dest: strchr_less)

declare grep_scan.simps [simp del]

lemma read_in_length: "read_in src n = (Some ch, src') \<Longrightarrow> length ch + length (rest src') = length (rest src)"
  by (auto simp: read_in_def split: list.splits option.splits)

lemma read_in_less: "read_in src n = (Some ch, src') \<Longrightarrow> ch \<noteq> [] \<Longrightarrow> length (rest src') < length (rest src)"
  using read_in_length [of src n ch src'] by (cases ch) simp_all

function grep_loop :: "u8 list \<Rightarrow> input_src \<Rightarrow> u8 list \<Rightarrow> nat \<Rightarrow> u8 list \<Rightarrow> (u8 list \<times> input_src) option" where
  "grep_loop pattern src buf m out =
     (case read_in src (BUFSIZE - m - 1) of (None, src') \<Rightarrow> Some (out, src')
      | (Some ch, src') \<Rightarrow>
          if ch = [] then Some (out, src')
          else let buf = take m buf @ ch @ drop (m + length ch) buf; m = m + length ch; buf = buf[m := 0] in
            case grep_scan pattern buf 0 out of None \<Rightarrow> None
            | Some (buf, p, out) \<Rightarrow>
                if 0 < m
                then case memmove_u buf 0 p (m - p) of None \<Rightarrow> None
                  | Some buf \<Rightarrow> grep_loop pattern src' buf (m - p) out
                else grep_loop pattern src' buf m out)"
  by pat_completeness auto
termination
  by (relation "measure (\<lambda>(pattern, src, buf, m, out). length (rest src))")
     (auto dest: read_in_less [OF sym])

declare grep_loop.simps [simp del]

definition grep :: "u8 list \<Rightarrow> input_src \<Rightarrow> u8 list \<Rightarrow> (u8 list \<times> input_src) option" where
  "grep pattern src buf = grep_loop pattern src buf 0 []"

section \<open>Lines\<close>

primrec lines :: "u8 list \<Rightarrow> u8 list list" where
  "lines [] = []"
| "lines (c # s) =
     (if c = linefeed then [] # lines s else if linefeed \<in> set s then (c # hd (lines s)) # tl (lines s) else [])"

primrec last_part :: "u8 list \<Rightarrow> u8 list" where
  "last_part [] = []"
| "last_part (c # s) = (if linefeed \<in> set (c # s) then last_part s else c # s)"

definition printed :: "u8 list \<Rightarrow> u8 list list \<Rightarrow> u8 list" where
  "printed pattern ls = concat (map (\<lambda>l. l @ [linefeed]) (filter (match pattern) ls))"

lemma lines_none: "linefeed \<notin> set s \<Longrightarrow> lines s = [] \<and> last_part s = s"
  by (cases s) auto

lemma lines_one: "linefeed \<notin> set x \<Longrightarrow> lines (x @ linefeed # s) = x # lines s \<and> last_part (x @ linefeed # s) = last_part s"
proof (induction x)
  case Nil
  then show ?case by (cases "linefeed \<in> set s") (auto simp: lines_none)
qed auto

lemma lines_cases:
  obtains "linefeed \<notin> set s" | x y where "s = x @ linefeed # y" "linefeed \<notin> set x"
  by (metis split_list_first)

lemma last_part_plain: "linefeed \<notin> set (last_part s) \<and> set (last_part s) \<subseteq> set s"
  by (induction s) auto

lemma lines_append: "lines (w @ z) = lines w @ lines (last_part w @ z)"
proof (induction "length w" arbitrary: w rule: less_induct)
  case less
  show ?case
  proof (cases w rule: lines_cases)
    case 1
    then show ?thesis by (simp add: lines_none)
  next
    case (2 x y)
    then show ?thesis using less [of y] lines_one [of x "y @ z"] lines_one [of x y] by simp
  qed
qed

lemma printed_append: "printed pattern (xs @ ys) = printed pattern xs @ printed pattern ys"
  by (simp add: printed_def)

lemma grep_scan_lines:
  "drop p buf = w @ 0 # r \<Longrightarrow> 0 \<notin> set w \<Longrightarrow>
     \<exists>b p'. grep_scan pattern buf p out = Some (b, p', out @ printed pattern (lines w)) \<and> length b = length buf \<and>
       p' = p + length w - length (last_part w) \<and> drop p' b = last_part w @ 0 # r"
proof (induction "length w" arbitrary: w buf p out rule: less_induct)
  case less
  obtain h where h: "buf = h @ w @ 0 # r" "p = length h"
  proof -
    have "p < length buf" using arg_cong [OF less.prems(1), of length] by simp
    then show thesis using that [of "take p buf"] less.prems(1) append_take_drop_id [of p buf] by simp
  qed
  show ?case
  proof (cases w rule: lines_cases)
    case 1
    then have "strchr (drop p buf) linefeed = Some None" using less.prems by (simp add: strchr_absent)
    then show ?thesis using 1 less.prems
      by (subst grep_scan.simps) (simp add: lines_none printed_def)
  next
    case (2 x y)
    let ?q = "p + length x"
    have 0: "0 \<notin> set x" "0 \<notin> set y" using 2 less.prems(2) by auto
    have f: "strchr (drop p buf) linefeed = Some (Some (length x))" using 2 0 less.prems(1) by (simp add: strchr_found)
    have d0: "drop p (buf[?q := 0]) = x @ 0 # y @ 0 # r" "drop (?q + 1) (buf[?q := 0]) = y @ 0 # r" "buf[?q := linefeed] = buf"
      unfolding h 2 by (simp_all add: list_update_append)
    have d1: "drop (?q + 1) buf = y @ 0 # r" "take (length x + 1) (drop p buf) = x @ [linefeed]"
      unfolding h 2 by simp_all
    have len: "length y < length w" using 2 by simp
    have ln: "lines w = x # lines y" "last_part w = last_part y" using 2 lines_one by auto
    have ll: "length (last_part y) \<le> length y" for y by (induction y) auto
    have e: "p + length w - length (last_part w) = ?q + 1 + length y - length (last_part y)" using 2 ln(2) by simp
    show ?thesis
    proof (cases "match pattern x")
      case True
      have "grep_scan pattern buf p out = grep_scan pattern buf (?q + 1) (out @ x @ [linefeed])"
        using True f d0 d1(2) 0(1) by (subst grep_scan.simps) (simp add: Let_def)
      then show ?thesis using less.hyps [OF len d1(1) 0(2), of "out @ x @ [linefeed]"] True unfolding e unfolding ln by (simp add: printed_def)
    next
      case False
      have "grep_scan pattern buf p out = grep_scan pattern (buf[?q := 0]) (?q + 1) out"
        using False f d0(1) 0(1) by (subst grep_scan.simps) (simp add: Let_def)
      then show ?thesis using less.hyps [OF len d0(2) 0(2), of out] False unfolding e unfolding ln by (simp add: printed_def)
    qed
  qed
qed

lemma grep_loop_step:
  assumes "take m buf = h" "length h = m" "0 \<notin> set (h @ ch)" "length buf = BUFSIZE" "m + length ch < BUFSIZE" "ch \<noteq> []"
    and "read_in src (BUFSIZE - m - 1) = (Some ch, src')"
  shows "\<exists>b. grep_loop pattern src buf m out =
      grep_loop pattern src' b (length (last_part (h @ ch))) (out @ printed pattern (lines (h @ ch))) \<and>
    length b = BUFSIZE \<and> take (length (last_part (h @ ch))) b = last_part (h @ ch)"
proof -
  let ?w = "h @ ch" and ?l = "last_part (h @ ch)"
  define c where "c = (take m buf @ ch @ drop (m + length ch) buf)[m + length ch := 0]"
  obtain d ds where d: "drop (m + length ch) buf = d # ds" using assms(4,5) by (metis drop_eq_Nil list.exhaust not_less)
  have r: "drop 0 c = ?w @ 0 # ds" using assms(1,2) d by (simp add: c_def list_update_append)
  have lc: "length c = BUFSIZE" using assms(2,4,5) by (simp add: c_def)
  obtain b p where b: "grep_scan pattern c 0 out = Some (b, p, out @ printed pattern (lines ?w))" "length b = BUFSIZE"
    "p = length ?w - length ?l" "drop p b = ?l @ 0 # ds"
    using grep_scan_lines [OF r assms(3), of pattern out] lc by auto
  have ll: "length (last_part y) \<le> length y" for y by (induction y) auto
  have p: "m + length ch - p = length ?l" using b(3) assms(2) ll [of ?w] by simp
  have le: "p + length ?l \<le> length b" "0 + length ?l \<le> length b"
    using b(2,3) ll [of ?w] assms(2,5) by auto
  have "memmove_u b 0 p (length ?l) = Some (?l @ drop (length ?l) b)"
    using memmove_u_eq [OF le(2,1)] b(4) by simp
  then have "grep_loop pattern src buf m out = grep_loop pattern src' (?l @ drop (length ?l) b) (length ?l) (out @ printed pattern (lines ?w))"
    using assms(6,7) b(1) p by (subst grep_loop.simps) (simp add: Let_def flip: c_def)
  then show ?thesis using le b(2) by (intro exI [of _ "?l @ drop (length ?l) b"]) simp
qed

lemma read_in_ok:
  assumes "None \<notin> set (lens src)"
  obtains ch src' where "read_in src n = (Some ch, src')" "rest src = ch @ rest src'" "length ch \<le> n"
    "ch = [] \<longleftrightarrow> n = 0 \<or> rest src = []" "None \<notin> set (lens src')"
proof (cases "lens src")
  case Nil
  then show thesis using that [of "take n (rest src)"] assms by (auto simp: read_in_def)
next
  case (Cons k ks)
  then obtain j where "k = Some j" using assms by (cases k) auto
  then show thesis using that [of "take (min n (Suc j)) (rest src)"] assms Cons by (auto simp: read_in_def min_def)
qed

lemma grep_loop_lines:
  assumes "take m buf = h" "length h = m" "m < BUFSIZE" "length buf = BUFSIZE" "linefeed \<notin> set h" "0 \<notin> set (h @ rest src)"
    and "None \<notin> set (lens src)" "\<forall>l\<in>set (lines (h @ rest src)). length l < BUFSIZE - 1"
  shows "\<exists>src'. grep_loop pattern src buf m out = Some (out @ printed pattern (lines (h @ rest src)), src')"
  using assms
proof (induction "length (rest src)" arbitrary: src buf m h out rule: less_induct)
  case less
  obtain ch src' where r: "read_in src (BUFSIZE - m - 1) = (Some ch, src')" "rest src = ch @ rest src'" "length ch \<le> BUFSIZE - m - 1"
    "ch = [] \<longleftrightarrow> BUFSIZE - m - 1 = 0 \<or> rest src = []" "None \<notin> set (lens src')"
    using read_in_ok [OF less.prems(7)] by metis
  show ?case
  proof (cases "ch = []")
    case True
    then have "lines (h @ rest src) = []"
    proof (cases "rest src" rule: lines_cases)
      case 1
      then show ?thesis using less.prems(5) by (simp add: lines_none)
    next
      case (2 x y)
      then have "lines (h @ rest src) = (h @ x) # lines y" using lines_one [of "h @ x" y] less.prems(5) by simp
      then show ?thesis using less.prems(2,3,8) True r(4) 2 by auto
    qed
    then show ?thesis using True r(1) by (subst grep_loop.simps) (simp add: printed_def)
  next
    case False
    have le: "m + length ch < BUFSIZE" using r(3) less.prems(3) by simp
    have n0: "0 \<notin> set (h @ ch)" using less.prems(6) r(2) by auto
    let ?l = "last_part (h @ ch)"
    obtain b where b: "grep_loop pattern src buf m out = grep_loop pattern src' b (length ?l) (out @ printed pattern (lines (h @ ch)))"
      "length b = BUFSIZE" "take (length ?l) b = ?l"
      using grep_loop_step [OF less.prems(1,2) n0 less.prems(4) le False r(1)] by metis
    have ll: "length (last_part y) \<le> length y" for y by (induction y) auto
    have ln: "lines (h @ rest src) = lines (h @ ch) @ lines (?l @ rest src')" using lines_append [of "h @ ch" "rest src'"] r(2) by simp
    have "length (rest src') < length (rest src)" using r(2) False by simp
    moreover have "length ?l < BUFSIZE" using ll [of "h @ ch"] le less.prems(2) by simp
    moreover have "0 \<notin> set (?l @ rest src')" using last_part_plain [of "h @ ch"] less.prems(6) r(2) by auto
    moreover have "\<forall>l\<in>set (lines (?l @ rest src')). length l < BUFSIZE - 1" using less.prems(8) ln by simp
    ultimately obtain t where "grep_loop pattern src' b (length ?l) (out @ printed pattern (lines (h @ ch))) =
        Some ((out @ printed pattern (lines (h @ ch))) @ printed pattern (lines (?l @ rest src')), t)"
      using less.hyps [OF _ b(3) refl _ b(2) _ _ r(5)] last_part_plain [of "h @ ch"] by metis
    then show ?thesis using b(1) ln by (simp add: printed_append)
  qed
qed

lemma grep_loop_long:
  assumes "take m buf = h" "length h = m" "m < BUFSIZE" "length buf = BUFSIZE" "linefeed \<notin> set h" "0 \<notin> set (h @ rest src)"
    and "None \<notin> set (lens src)" "BUFSIZE - 1 - m \<le> length (rest src)" "linefeed \<notin> set (take (BUFSIZE - 1 - m) (rest src))"
  shows "\<exists>src'. grep_loop pattern src buf m out = Some (out, src')"
  using assms
proof (induction "length (rest src)" arbitrary: src buf m h rule: less_induct)
  case less
  obtain ch src' where r: "read_in src (BUFSIZE - m - 1) = (Some ch, src')" "rest src = ch @ rest src'" "length ch \<le> BUFSIZE - m - 1"
    "ch = [] \<longleftrightarrow> BUFSIZE - m - 1 = 0 \<or> rest src = []" "None \<notin> set (lens src')"
    using read_in_ok [OF less.prems(7)] by metis
  show ?case
  proof (cases "ch = []")
    case True
    then show ?thesis using r(1) by (subst grep_loop.simps) simp
  next
    case False
    have le: "m + length ch < BUFSIZE" using r(3) less.prems(3) by simp
    have n0: "0 \<notin> set (h @ ch)" "linefeed \<notin> set (h @ ch)" using less.prems(5,6,9) r(2,3) by auto
    have l: "last_part (h @ ch) = h @ ch" "lines (h @ ch) = []" using n0(2) lines_none by blast+
    obtain b where b: "grep_loop pattern src buf m out = grep_loop pattern src' b (length (h @ ch)) out"
      "length b = BUFSIZE" "take (length (h @ ch)) b = h @ ch"
      using grep_loop_step [OF less.prems(1,2) n0(1) less.prems(4) le False r(1), of pattern out] l by (auto simp: printed_def)
    have "\<exists>t. grep_loop pattern src' b (length (h @ ch)) out = Some (out, t)"
      by (rule less.hyps [OF _ b(3) refl _ b(2) n0(2) _ r(5)]) (use less.prems(2,3,6,8,9) le r(2,3) False in \<open>auto simp: diff_diff_add\<close>)
    then show ?thesis using b(1) by simp
  qed
qed

text \<open>C34: However the input is cut up by \<^verbatim>\<open>read\<close>, \<^verbatim>\<open>grep\<close> prints exactly the lines that match, in order, each with its newline,
  as long as no line with its newline is longer than the buffer holds (a last line without a newline is not
  printed). If the first line is longer, \<^verbatim>\<open>grep\<close> prints nothing at all: the full buffer makes the next \<^verbatim>\<open>read\<close>
  ask for no bytes, which ends the loop as at the end of the file.\<close>

theorem grep_prints:
  assumes "length buf = BUFSIZE" "0 \<notin> set (rest src)" "None \<notin> set (lens src)"
  shows "((\<forall>l\<in>set (lines (rest src)). length l < BUFSIZE - 1) \<longrightarrow>
      (\<exists>src'. grep pattern src buf = Some (printed pattern (lines (rest src)), src'))) \<and>
    (\<forall>l ls. lines (rest src) = l # ls \<and> BUFSIZE - 1 \<le> length l \<longrightarrow> (\<exists>src'. grep pattern src buf = Some ([], src')))"
proof (intro conjI impI allI)
  assume "\<forall>l\<in>set (lines (rest src)). length l < BUFSIZE - 1"
  then show "\<exists>src'. grep pattern src buf = Some (printed pattern (lines (rest src)), src')"
    using grep_loop_lines [of 0 buf "[]" src pattern "[]"] assms by (simp add: grep_def)
next
  fix l ls
  assume l: "lines (rest src) = l # ls \<and> BUFSIZE - 1 \<le> length l"
  then obtain y where "rest src = l @ linefeed # y" "linefeed \<notin> set l"
    using lines_none [of "rest src"] lines_one by (cases "rest src" rule: lines_cases) auto
  then show "\<exists>src'. grep pattern src buf = Some ([], src')"
    using grep_loop_long [of 0 buf "[]" src pattern "[]"] assms l by (auto simp: grep_def dest: in_set_takeD)
qed

theorem grep_prints_witness:
  "\<exists>buf src'. length buf = BUFSIZE \<and> grep [0x62] \<lparr>rest = [0x61, linefeed, 0x62, 0x63, linefeed], lens = [Some 0, Some 2]\<rparr> buf =
     Some ([0x62, 0x63, linefeed], src')"
proof -
  obtain buf :: "u8 list" where "length buf = BUFSIZE" using Ex_list_of_length by blast
  then show ?thesis
    using grep_prints [of buf "\<lparr>rest = [0x61, linefeed, 0x62, 0x63, linefeed], lens = [Some 0, Some 2]\<rparr>" "[0x62]"]
    by (intro exI [of _ buf]) (simp add: printed_def match_def matchhere.simps)
qed

end
