(* ===== verification/Tools.thy ===== *)
theory Tools
  imports Grep
begin

text \<open>
  The counting tool \<^verbatim>\<open>user/wc.c\<close> over the inputs of \<^verbatim>\<open>grep\<close>, and the arithmetic commands \<^verbatim>\<open>user/fact.c\<close> and \<^verbatim>\<open>user/add.c\<close>, whose
  integers are 32-bit words that wrap around as the compiled code does.
\<close>

section \<open>wc\<close>

definition blanks :: "u8 list" where
  "blanks = [0x20, 0x0d, 0x09, 0x0a, 0x0b, 0]"

record counts =
  nlines :: u32
  nwords :: u32
  nchars :: u32
  inword :: bool

definition wc_byte :: "counts \<Rightarrow> u8 \<Rightarrow> counts" where
  "wc_byte k b =
     (let k = k\<lparr>nchars := nchars k + 1\<rparr>;
          k = (if b = linefeed then k\<lparr>nlines := nlines k + 1\<rparr> else k)
      in if strchr blanks b \<noteq> Some None then k\<lparr>inword := False\<rparr>
         else if \<not> inword k then k\<lparr>nwords := nwords k + 1, inword := True\<rparr>
         else k)"

function wc_loop :: "input_src \<Rightarrow> counts \<Rightarrow> counts option" where
  "wc_loop src k =
     (case read_in src 512 of (None, src') \<Rightarrow> None
      | (Some ch, src') \<Rightarrow> if ch = [] then Some k else wc_loop src' (foldl wc_byte k ch))"
  by pat_completeness auto
termination
  by (relation "measure (\<lambda>(src, k). length (rest src))") (auto dest: read_in_less [OF sym])

declare wc_loop.simps [simp del]

definition wc :: "input_src \<Rightarrow> counts option" where
  "wc src = wc_loop src \<lparr>nlines = 0, nwords = 0, nchars = 0, inword = False\<rparr>"

definition blank :: "u8 \<Rightarrow> bool" where
  "blank b \<longleftrightarrow> b \<in> {0x20, 0x0d, 0x09, 0x0a, 0x0b}"

text \<open>The words of a text are its longest parts without blanks: a word starts at a character that is not blank and has no such
  character before it.\<close>

fun words_from :: "bool \<Rightarrow> u8 list \<Rightarrow> nat" where
  "words_from inside [] = 0"
| "words_from inside (b # bs) = (if \<not> blank b \<and> \<not> inside then 1 else 0) + words_from (\<not> blank b) bs"

definition word_starts :: "u8 list \<Rightarrow> nat set" where
  "word_starts s = {i. i < length s \<and> \<not> blank (s ! i) \<and> (i = 0 \<or> blank (s ! (i - 1)))}"

lemma strchr_blanks: "strchr blanks b \<noteq> Some None \<longleftrightarrow> blank b"
  by (auto simp: blanks_def blank_def)

lemma words_from_card: "words_from p s = card {i. i < length s \<and> \<not> blank (s ! i) \<and> (if i = 0 then \<not> p else blank (s ! (i - 1)))}"
proof (induction p s rule: words_from.induct)
  case (2 inside b bs)
  let ?S = "\<lambda>p s. {i. i < length s \<and> \<not> blank (s ! i) \<and> (if i = 0 then \<not> p else blank (s ! (i - 1)))}"
  have "?S inside (b # bs) = (if \<not> blank b \<and> \<not> inside then {0} else {}) \<union> Suc ` ?S (\<not> blank b) bs"
    (is "?L = ?R")
  proof (rule set_eqI)
    show "i \<in> ?L \<longleftrightarrow> i \<in> ?R" for i
    proof (cases i)
      case (Suc j)
      then show ?thesis by (cases j) auto
    qed auto
  qed
  moreover have "finite (?S p s)" for p s by (rule finite_subset [of _ "{..<length s}"]) auto
  ultimately show ?case using 2 by (simp add: card_image card_insert_if)
qed simp

lemma words_starts: "words_from False s = card (word_starts s)"
proof -
  have "{i. i < length s \<and> \<not> blank (s ! i) \<and> (if i = 0 then \<not> False else blank (s ! (i - 1)))} = word_starts s"
    by (auto simp: word_starts_def)
  then show ?thesis by (simp add: words_from_card)
qed

lemma foldl_wc_byte:
  "nlines (foldl wc_byte k s) = nlines k + of_nat (count_list s linefeed) \<and>
   nwords (foldl wc_byte k s) = nwords k + of_nat (words_from (inword k) s) \<and>
   nchars (foldl wc_byte k s) = nchars k + of_nat (length s)"
proof (induction s arbitrary: k)
  case (Cons b s)
  have "nlines (wc_byte k b) = nlines k + (if b = linefeed then 1 else 0)" "nchars (wc_byte k b) = nchars k + 1"
    "nwords (wc_byte k b) = nwords k + (if \<not> blank b \<and> \<not> inword k then 1 else 0)" "inword (wc_byte k b) = (\<not> blank b)"
    using strchr_blanks [of b] by (auto simp: wc_byte_def Let_def)
  then show ?case using Cons by simp
qed simp

lemma wc_loop_eq: "None \<notin> set (lens src) \<Longrightarrow> wc_loop src k = Some (foldl wc_byte k (rest src))"
proof (induction "length (rest src)" arbitrary: src k rule: less_induct)
  case less
  obtain ch src' where r: "read_in src 512 = (Some ch, src')" "rest src = ch @ rest src'" "ch = [] \<longleftrightarrow> (512::nat) = 0 \<or> rest src = []"
    "None \<notin> set (lens src')" using read_in_ok [OF less.prems, of 512] by metis
  show ?case
  proof (cases "ch = []")
    case True
    then show ?thesis using r(1,3) by (subst wc_loop.simps) simp
  next
    case False
    then have "length (rest src') < length (rest src)" using r(2) by simp
    from less.hyps [OF this r(4)] False r(1) show ?thesis unfolding r(2) by (subst wc_loop.simps) simp
  qed
qed

text \<open>However \<^verbatim>\<open>read\<close> cuts up the input, \<^verbatim>\<open>wc\<close> counts, modulo 2^32, the newlines, the words and the bytes of the whole
  input: a word that spans two reads is counted once.\<close>

theorem wc_counts:
  assumes "None \<notin> set (lens src)"
  shows "\<exists>k. wc src = Some k \<and> nlines k = of_nat (count_list (rest src) linefeed) \<and>
    nwords k = of_nat (card (word_starts (rest src))) \<and> nchars k = of_nat (length (rest src))"
  using foldl_wc_byte wc_loop_eq [OF assms] by (simp add: wc_def words_starts)

theorem wc_counts_witness:
  "\<exists>k. wc \<lparr>rest = [0x61, 0x62, 0x20, 0x63, linefeed], lens = [Some 0, Some 0]\<rparr> = Some k \<and> nlines k = 1 \<and> nchars k = 5"
  using wc_counts [of "\<lparr>rest = [0x61, 0x62, 0x20, 0x63, linefeed], lens = [Some 0, Some 0]\<rparr>"] by auto

section \<open>fact and add\<close>

primrec is_positive_number :: "u8 list \<Rightarrow> bool option" where
  "is_positive_number [] = None"
| "is_positive_number (c # s) =
     (if c \<noteq> 0 then if c < 0x30 \<or> c > 0x39 then Some False else is_positive_number s else Some True)"

partial_function (option) fact_loop :: "u32 \<Rightarrow> u32 \<Rightarrow> u32 \<Rightarrow> u32 option" where
  "fact_loop n i result = (if sint i \<le> sint n then fact_loop n (i + 1) (result * i) else Some result)"

datatype fact_outcome = Usage | NotANumber | Factorial u32 u32

definition fact_main :: "u8 list list \<Rightarrow> fact_outcome option" where
  "fact_main argv =
     (if length argv \<noteq> 2 then Some Usage
      else case is_positive_number (argv ! 1) of None \<Rightarrow> None
        | Some False \<Rightarrow> Some NotANumber
        | Some True \<Rightarrow>
            (case atoi (argv ! 1) of None \<Rightarrow> None
             | Some n \<Rightarrow> map_option (Factorial n) (fact_loop n 2 1)))"

definition add_main :: "u8 list \<Rightarrow> u8 list \<Rightarrow> u32 option" where
  "add_main a b = (case (atoi a, atoi b) of (Some n1, Some n2) \<Rightarrow> Some (n1 + n2) | _ \<Rightarrow> None)"

lemma fact_loop_eq:
  assumes "n < 2 ^ 31 - 1"
  shows "i \<le> n + 1 \<Longrightarrow> fact_loop (of_nat n) (of_nat i) r = Some (r * of_nat (\<Prod>{i..n}))"
proof (induction "n + 1 - i" arbitrary: i r)
  case 0
  then have "i = n + 1" by simp
  then have "sint (of_nat i :: u32) = int i" "sint (of_nat n :: u32) = int n" "{i..n} = {}" "n < i"
    using assms by (simp_all only: sint_of_nat_small) simp_all
  then show ?case by (subst fact_loop.simps) simp
next
  case (Suc k)
  then have "i \<le> n" by simp
  moreover have "\<Prod>{i..n} = i * \<Prod>{Suc i..n}" using \<open>i \<le> n\<close> by (simp add: atLeastAtMost_insertL [symmetric])
  ultimately show ?case using Suc.hyps(1) [of "Suc i" "r * of_nat i"] Suc.hyps(2) assms
    by (subst fact_loop.simps) (simp add: sint_of_nat_small ac_simps)
qed

lemma fact_loop_small: "fact_loop 0 2 r = Some r"
  by (subst fact_loop.simps) simp

lemma digits_number: "\<forall>d\<in>set ds. 0x30 \<le> d \<and> d \<le> 0x39 \<Longrightarrow> is_positive_number (ds @ 0 # r) = Some True"
  by (induction ds) (auto simp: not_less)

text \<open>\<^verbatim>\<open>fact\<close> of a decimal number below 2^31 - 1 prints the factorial modulo 2^32, which is the factorial itself up to 12; 13 is
  the first number whose factorial is printed wrong.\<close>

theorem fact_main_spec:
  assumes "\<forall>d\<in>set ds. 0x30 \<le> d \<and> d \<le> 0x39" "decimal ds < 2 ^ 31 - 1"
  shows "fact_main [name, ds @ 0 # r] = Some (Factorial (of_nat (decimal ds)) (of_nat (fact (decimal ds)))) \<and>
    (decimal ds \<le> 12 \<longrightarrow> sint (of_nat (fact (decimal ds)) :: u32) = fact (decimal ds)) \<and>
    (decimal ds = 13 \<longrightarrow> sint (of_nat (fact (decimal ds)) :: u32) \<noteq> fact (decimal ds))"
proof (intro conjI impI)
  have c: "\<not> (0x30 \<le> (0::u8) \<and> (0::u8) \<le> 0x39)" by simp
  have "fact n = \<Prod>{2..n}" for n :: nat
    by (cases n) (simp_all add: fact_prod atLeastAtMost_insertL [symmetric] numeral_2_eq_2)
  then have "fact_loop (of_nat (decimal ds)) 2 1 = Some (of_nat (fact (decimal ds)))"
    using fact_loop_eq [OF assms(2), of 2 1] fact_loop_small [of 1] by (cases "decimal ds = 0") auto
  then show "fact_main [name, ds @ 0 # r] = Some (Factorial (of_nat (decimal ds)) (of_nat (fact (decimal ds))))"
    using digits_number [OF assms(1)] atoi_digits [OF assms(1) c] by (simp add: fact_main_def)
  show "sint (of_nat (fact (decimal ds)) :: u32) = fact (decimal ds)" if "decimal ds \<le> 12"
  proof -
    have "fact (decimal ds) \<le> (fact 12 :: nat)" using that by (rule fact_mono)
    then have "fact (decimal ds) < (2 ^ 31 :: nat)" by (simp add: fact_numeral)
    then show ?thesis by (simp add: sint_of_nat_small)
  qed
  show "sint (of_nat (fact (decimal ds)) :: u32) \<noteq> fact (decimal ds)" if "decimal ds = 13"
    unfolding that by (simp add: fact_numeral)
qed

theorem fact_main_spec_witness: "fact_main [[], [0x35, 0]] = Some (Factorial 5 120) \<and> fact_main [[], [0x31, 0x33, 0]] = Some (Factorial 13 1932053504)"
  using fact_main_spec [of "[0x35]" "[]" "[]"] fact_main_spec [of "[0x31, 0x33]" "[]" "[]"] by (simp add: decimal_def fact_numeral)

end
