(* ===== verification/Shell.thy ===== *)
theory Shell
  imports Ulib Sysfile
begin

text \<open>
  The command parser of \<^verbatim>\<open>user/sh.c\<close>. The line is the list of its characters; a pointer into it is an index, and the
  character at its end is the NUL. Memory allocation always succeeds. Every call of the recursive descent uses
  one unit of fuel; \<open>Stuck\<close> is running out of it, \<open>Fail\<close> the exit through \<^verbatim>\<open>panic\<close>.
\<close>

section \<open>Commands\<close>

datatype cmd =
    EXEC "(nat \<times> nat) list"
  | REDIR cmd nat nat u32 nat
  | PIPE cmd cmd
  | LIST cmd cmd
  | BACK cmd

definition MAXARGS :: nat where "MAXARGS = 10"

section \<open>Tokens\<close>

definition whitespace :: "u8 list" where
  "whitespace = [0x20, 0x09, 0x0d, 0x0a, 0x0b, 0]"

definition symbols :: "u8 list" where
  "symbols = [0x3c, 0x7c, 0x3e, 0x26, 0x3b, 0x28, 0x29, 0]"

definition char_at :: "u8 list \<Rightarrow> nat \<Rightarrow> u8" where
  "char_at buf s = (if s < length buf then buf ! s else 0)"

abbreviation among :: "u8 list \<Rightarrow> u8 \<Rightarrow> bool" where
  "among toks c \<equiv> strchr toks c \<noteq> Some None"

function skip_blank :: "u8 list \<Rightarrow> nat \<Rightarrow> nat" where
  "skip_blank buf s = (if s < length buf \<and> among whitespace (char_at buf s) then skip_blank buf (s + 1) else s)"
  by pat_completeness auto
termination
  by (relation "measure (\<lambda>(buf, s). length buf - s)") auto

function skip_word :: "u8 list \<Rightarrow> nat \<Rightarrow> nat" where
  "skip_word buf s =
     (if s < length buf \<and> \<not> among whitespace (char_at buf s) \<and> \<not> among symbols (char_at buf s)
      then skip_word buf (s + 1) else s)"
  by pat_completeness auto
termination
  by (relation "measure (\<lambda>(buf, s). length buf - s)") auto

declare skip_blank.simps [simp del] skip_word.simps [simp del]

abbreviation tok_word :: u8 where "tok_word \<equiv> 0x61"
abbreviation tok_append :: u8 where "tok_append \<equiv> 0x2b"

text \<open>The token, the start and the end of its text, and the position of the next one.\<close>

definition gettoken :: "u8 list \<Rightarrow> nat \<Rightarrow> u8 \<times> nat \<times> nat \<times> nat" where
  "gettoken buf ps =
     (let q = skip_blank buf ps; c = char_at buf q;
          (r, s) =
            (if c = 0 then (c, q)
             else if c \<in> {0x7c, 0x28, 0x29, 0x3b, 0x26, 0x3c} then (c, q + 1)
             else if c = 0x3e then if char_at buf (q + 1) = 0x3e then (tok_append, q + 2) else (c, q + 1)
             else (tok_word, skip_word buf q))
      in (r, q, s, skip_blank buf s))"

definition peek :: "u8 list \<Rightarrow> nat \<Rightarrow> u8 list \<Rightarrow> bool \<times> nat" where
  "peek buf ps toks =
     (let s = skip_blank buf ps in (char_at buf s \<noteq> 0 \<and> among toks (char_at buf s), s))"

lemma skip_blank_props:
  "s \<le> length buf \<Longrightarrow> s \<le> skip_blank buf s \<and> skip_blank buf s \<le> length buf \<and>
     \<not> (skip_blank buf s < length buf \<and> among whitespace (char_at buf (skip_blank buf s)))"
proof (induction buf s rule: skip_blank.induct)
  case (1 buf s)
  then show ?case by (subst (1 2 3 4) skip_blank.simps) auto
qed

lemma skip_word_props:
  "s \<le> length buf \<Longrightarrow> s \<le> skip_word buf s \<and> skip_word buf s \<le> length buf \<and>
     (\<forall>i. s \<le> i \<and> i < skip_word buf s \<longrightarrow> \<not> among whitespace (char_at buf i) \<and> \<not> among symbols (char_at buf i)) \<and>
     (skip_word buf s < length buf \<longrightarrow>
        among whitespace (char_at buf (skip_word buf s)) \<or> among symbols (char_at buf (skip_word buf s)))"
proof (induction buf s rule: skip_word.induct)
  case (1 buf s)
  show ?case
  proof (cases "s < length buf \<and> \<not> among whitespace (char_at buf s) \<and> \<not> among symbols (char_at buf s)")
    case True
    then have "skip_word buf s = skip_word buf (s + 1)" by (subst skip_word.simps) simp
    then show ?thesis using 1 True by (auto simp: le_eq_less_or_eq [of s] Suc_le_eq)
  next
    case False
    then have "skip_word buf s = s" by (subst skip_word.simps) auto
    then show ?thesis using 1(2) False by auto
  qed
qed

text \<open>A character of a word, and the boundaries of a word of the line.\<close>

definition plain :: "u8 \<Rightarrow> bool" where
  "plain c \<longleftrightarrow> \<not> among whitespace c \<and> \<not> among symbols c \<and> c \<noteq> 0"

definition word_at :: "u8 list \<Rightarrow> nat \<Rightarrow> nat \<Rightarrow> bool" where
  "word_at buf q e \<longleftrightarrow>
     q < e \<and> e \<le> length buf \<and> (\<forall>i. q \<le> i \<and> i < e \<longrightarrow> plain (buf ! i)) \<and> (e < length buf \<longrightarrow> \<not> plain (buf ! e))"

lemma peek_props:
  assumes "s \<le> length buf" "peek buf s toks = (b, s')"
  shows "s \<le> s' \<and> s' \<le> length buf \<and> (b \<longrightarrow> s' < length buf \<and> char_at buf s' \<noteq> 0 \<and> among toks (char_at buf s'))"
  using skip_blank_props [OF assms(1)] assms(2) by (auto simp: peek_def Let_def char_at_def split: if_splits)

lemma skip_blank_ge: "s \<le> skip_blank buf s"
  by (induction buf s rule: skip_blank.induct) (subst skip_blank.simps, auto)

lemma skip_blank_idem: "skip_blank buf (skip_blank buf s) = skip_blank buf s"
proof (induction buf s rule: skip_blank.induct)
  case (1 buf s)
  show ?case
  proof (cases "s < length buf \<and> among whitespace (char_at buf s)")
    case True
    then have "skip_blank buf s = skip_blank buf (s + 1)" by (subst skip_blank.simps) simp
    then show ?thesis using 1 True by simp
  next
    case False
    then have "skip_blank buf s = s" by (subst skip_blank.simps) auto
    then show ?thesis by simp
  qed
qed

lemma among_symbols: "among symbols c \<longleftrightarrow> c \<in> {0x3c, 0x7c, 0x3e, 0x26, 0x3b, 0x28, 0x29}"
  by (auto simp: symbols_def)

lemma skip_word_token:
  assumes "q < length buf" "\<not> among whitespace (char_at buf q)" "\<not> among symbols (char_at buf q)"
  shows "q < skip_word buf q" "skip_word buf q \<le> length buf" "0 \<notin> set buf \<Longrightarrow> word_at buf q (skip_word buf q)"
proof -
  note w = skip_word_props [OF less_imp_le [OF assms(1)]]
  show lt: "q < skip_word buf q" using w assms by (metis le_neq_implies_less)
  show "skip_word buf q \<le> length buf" using w by blast
  show "word_at buf q (skip_word buf q)" if "0 \<notin> set buf"
    using w lt that unfolding word_at_def plain_def char_at_def by (auto simp: in_set_conv_nth)
qed

lemma gettoken_props:
  assumes "s \<le> length buf" "gettoken buf s = (r, q, e, s')"
  shows "s \<le> q \<and> q \<le> e \<and> e \<le> s' \<and> s' \<le> length buf"
    and "r \<noteq> 0 \<Longrightarrow> q < e"
    and "r = tok_word \<Longrightarrow> 0 \<notin> set buf \<Longrightarrow> word_at buf q e"
proof -
  define c where "c = char_at buf (skip_blank buf s)"
  have q: "q = skip_blank buf s" and s': "s' = skip_blank buf e" using assms(2) by (auto simp: gettoken_def Let_def split: prod.splits)
  have b: "s \<le> q" "q \<le> length buf" "c \<noteq> 0 \<Longrightarrow> q < length buf" "c \<noteq> 0 \<Longrightarrow> \<not> among whitespace c"
    using skip_blank_props [OF assms(1)] by (auto simp: q c_def char_at_def split: if_splits)
  have re: "(r, e) = (if c = 0 then (c, q)
             else if c \<in> {0x7c, 0x28, 0x29, 0x3b, 0x26, 0x3c} then (c, q + 1)
             else if c = 0x3e then if char_at buf (q + 1) = 0x3e then (tok_append, q + 2) else (c, q + 1)
             else (tok_word, skip_word buf q))"
    using assms(2) unfolding gettoken_def Let_def c_def q by (auto split: prod.splits)
  have w: "q < skip_word buf q" "skip_word buf q \<le> length buf" "0 \<notin> set buf \<longrightarrow> word_at buf q (skip_word buf q)"
    if "c \<noteq> 0" "c \<notin> {0x7c, 0x28, 0x29, 0x3b, 0x26, 0x3c, 0x3e}"
    using skip_word_token [of q buf] b that unfolding among_symbols by (auto simp: c_def q)
  have two: "q + 2 \<le> length buf" if "char_at buf (q + 1) = 0x3e" using that by (auto simp: char_at_def split: if_splits)
  have e: "q \<le> e \<and> e \<le> length buf" using re b(2,3) w two by (auto split: if_splits)
  then show "s \<le> q \<and> q \<le> e \<and> e \<le> s' \<and> s' \<le> length buf" using b skip_blank_props [of e buf] s' by auto
  show "r \<noteq> 0 \<Longrightarrow> q < e" using re w(1) by (auto split: if_splits)
  show "r = tok_word \<Longrightarrow> 0 \<notin> set buf \<Longrightarrow> word_at buf q e" using re w(3) by (auto split: if_splits)
qed

section \<open>The parser\<close>

datatype 'a outcome = Done 'a | Fail string | Stuck

definition andthen :: "'a outcome \<Rightarrow> ('a \<Rightarrow> 'b outcome) \<Rightarrow> 'b outcome" where
  "andthen m f = (case m of Done a \<Rightarrow> f a | Fail e \<Rightarrow> Fail e | Stuck \<Rightarrow> Stuck)"

definition next_pos :: "u8 \<times> nat \<times> nat \<times> nat \<Rightarrow> nat" where
  "next_pos t = snd (snd (snd t))"

text \<open>A redirection wraps the command parsed so far; an argument found later still goes to the \<^verbatim>\<open>execcmd\<close> inside.\<close>

fun add_arg :: "cmd \<Rightarrow> nat \<times> nat \<Rightarrow> cmd" where
  "add_arg (EXEC args) a = EXEC (args @ [a])"
| "add_arg (REDIR c file efile mode fd) a = REDIR (add_arg c a) file efile mode fd"
| "add_arg c a = c"

lemma peek_token:
  assumes "peek buf s toks = (True, s1)" "gettoken buf s1 = (r, q, e, s2)"
  shows "s \<le> s1 \<and> s1 < s2 \<and> s2 \<le> length buf"
proof -
  have s1: "s1 = skip_blank buf s" "char_at buf s1 \<noteq> 0" using assms(1) by (auto simp: peek_def Let_def)
  then have l: "s1 < length buf" by (auto simp: char_at_def split: if_splits)
  have "r \<noteq> 0" using assms(2) s1 unfolding gettoken_def Let_def by (auto simp: skip_blank_idem split: if_splits prod.splits)
  then show ?thesis using gettoken_props [OF less_imp_le [OF l] assms(2)] s1(1) skip_blank_ge [of s buf] by simp
qed

lemma peek_next:
  assumes "peek buf s toks = (True, s1)"
  shows "s < next_pos (gettoken buf s1) \<and> next_pos (gettoken buf s1) \<le> length buf"
proof -
  obtain r q e s2 where "gettoken buf s1 = (r, q, e, s2)" by (metis prod_cases4)
  then show ?thesis using peek_token [OF assms] by (auto simp: next_pos_def)
qed

lemma peek_redir:
  assumes "peek buf s toks = (True, s1)" "gettoken buf s1 = (tok, q1, e1, s2)" "gettoken buf s2 = (r, q, e, s3)"
  shows "s < s3 \<and> s3 \<le> length buf"
  using peek_token [OF assms(1,2)] gettoken_props(1) [OF _ assms(3)] by simp

lemma less_progress: "s < s' \<and> s' \<le> n \<Longrightarrow> n - s' < n - (s::nat)"
  by arith

function parseredirs :: "u8 list \<Rightarrow> cmd \<Rightarrow> nat \<Rightarrow> (cmd \<times> nat) outcome" where
  "parseredirs buf c ps =
     (case peek buf ps [0x3c, 0x3e, 0] of (False, s) \<Rightarrow> Done (c, s)
      | (True, s) \<Rightarrow>
          (case gettoken buf s of (tok, _, _, s) \<Rightarrow>
           case gettoken buf s of (r, q, eq, s) \<Rightarrow>
             if r \<noteq> tok_word then Fail ''missing file for redirection''
             else if tok = 0x3c then parseredirs buf (REDIR c q eq O_RDONLY 0) s
             else if tok = 0x3e then parseredirs buf (REDIR c q eq (O_WRONLY OR O_CREATE OR O_TRUNC) 1) s
             else if tok = tok_append then parseredirs buf (REDIR c q eq (O_WRONLY OR O_CREATE) 1) s
             else parseredirs buf c s))"
  by pat_completeness auto
termination
  by (relation "measure (\<lambda>(buf, c, s). length buf - s)") (auto intro!: less_progress dest: peek_redir [OF sym sym sym])

function parsebacks :: "u8 list \<Rightarrow> cmd \<Rightarrow> nat \<Rightarrow> cmd \<times> nat" where
  "parsebacks buf c ps =
     (case peek buf ps [0x26, 0] of (False, s) \<Rightarrow> (c, s)
      | (True, s) \<Rightarrow> parsebacks buf (BACK c) (next_pos (gettoken buf s)))"
  by pat_completeness auto
termination
  by (relation "measure (\<lambda>(buf, c, s). length buf - s)") (auto intro!: less_progress dest: peek_next [OF sym])

function parseargs :: "u8 list \<Rightarrow> cmd \<Rightarrow> nat \<Rightarrow> nat \<Rightarrow> (cmd \<times> nat) outcome" where
  "parseargs buf c argc ps =
     (case peek buf ps [0x7c, 0x29, 0x26, 0x3b, 0] of (True, s) \<Rightarrow> Done (c, s)
      | (False, s) \<Rightarrow>
          (case gettoken buf s of (tok, q, eq, s) \<Rightarrow>
             if tok = 0 then Done (c, s)
             else if tok \<noteq> tok_word then Fail ''syntax''
             else if argc + 1 \<ge> MAXARGS then Fail ''too many args''
             else andthen (parseredirs buf (add_arg c (q, eq)) s) (\<lambda>(c, s). parseargs buf c (argc + 1) s)))"
  by pat_completeness auto
termination
  by (relation "measure (\<lambda>(buf, c, argc, s). MAXARGS - argc)") auto

fun parseline :: "nat \<Rightarrow> u8 list \<Rightarrow> nat \<Rightarrow> (cmd \<times> nat) outcome"
  and parsepipe :: "nat \<Rightarrow> u8 list \<Rightarrow> nat \<Rightarrow> (cmd \<times> nat) outcome"
  and parseblock :: "nat \<Rightarrow> u8 list \<Rightarrow> nat \<Rightarrow> (cmd \<times> nat) outcome"
  and parseexec :: "nat \<Rightarrow> u8 list \<Rightarrow> nat \<Rightarrow> (cmd \<times> nat) outcome" where
  "parseline 0 buf ps = Stuck"
| "parseline (Suc fuel) buf ps =
     andthen (parsepipe fuel buf ps) (\<lambda>(c, s).
       case parsebacks buf c s of (c, s) \<Rightarrow>
       case peek buf s [0x3b, 0] of (False, s) \<Rightarrow> Done (c, s)
       | (True, s) \<Rightarrow> andthen (parseline fuel buf (next_pos (gettoken buf s))) (\<lambda>(d, s). Done (LIST c d, s)))"
| "parsepipe 0 buf ps = Stuck"
| "parsepipe (Suc fuel) buf ps =
     andthen (parseexec fuel buf ps) (\<lambda>(c, s).
       case peek buf s [0x7c, 0] of (False, s) \<Rightarrow> Done (c, s)
       | (True, s) \<Rightarrow> andthen (parsepipe fuel buf (next_pos (gettoken buf s))) (\<lambda>(d, s). Done (PIPE c d, s)))"
| "parseblock 0 buf ps = Stuck"
| "parseblock (Suc fuel) buf ps =
     (case peek buf ps [0x28, 0] of (False, s) \<Rightarrow> Fail ''parseblock''
      | (True, s) \<Rightarrow> andthen (parseline fuel buf (next_pos (gettoken buf s))) (\<lambda>(c, s).
          case peek buf s [0x29, 0] of (False, s) \<Rightarrow> Fail ''syntax - missing )''
          | (True, s) \<Rightarrow> parseredirs buf c (next_pos (gettoken buf s))))"
| "parseexec 0 buf ps = Stuck"
| "parseexec (Suc fuel) buf ps =
     (case peek buf ps [0x28, 0] of (True, s) \<Rightarrow> parseblock fuel buf s
      | (False, s) \<Rightarrow> andthen (parseredirs buf (EXEC []) s) (\<lambda>(c, s). parseargs buf c 0 s))"

text \<open>\<^verbatim>\<open>nulterminate\<close> works on the whole line, its NUL included.\<close>

primrec nulterminate :: "cmd \<Rightarrow> u8 list \<Rightarrow> u8 list" where
  "nulterminate (EXEC args) a = foldl (\<lambda>a (q, eq). a[eq := 0]) a args"
| "nulterminate (REDIR c file efile mode fd) a = (nulterminate c a)[efile := 0]"
| "nulterminate (PIPE c d) a = nulterminate d (nulterminate c a)"
| "nulterminate (LIST c d) a = nulterminate d (nulterminate c a)"
| "nulterminate (BACK c) a = nulterminate c a"

definition parsecmd :: "u8 list \<Rightarrow> (cmd \<times> u8 list) outcome" where
  "parsecmd buf =
     andthen (parseline (4 * length buf + 4) buf 0) (\<lambda>(c, s).
       case peek buf s [0] of (_, s) \<Rightarrow>
         if s \<noteq> length buf then Fail ''syntax'' else Done (c, nulterminate c (buf @ [0])))"

declare parseredirs.simps [simp del] parsebacks.simps [simp del] parseargs.simps [simp del]

section \<open>What the parser returns\<close>

definition redir_ok :: "u32 \<Rightarrow> nat \<Rightarrow> bool" where
  "redir_ok mode fd \<longleftrightarrow>
     mode = O_RDONLY \<and> fd = 0 \<or> mode \<in> {O_WRONLY OR O_CREATE OR O_TRUNC, O_WRONLY OR O_CREATE} \<and> fd = 1"

primrec cmd_ok :: "u8 list \<Rightarrow> cmd \<Rightarrow> bool" where
  "cmd_ok buf (EXEC args) \<longleftrightarrow> length args < MAXARGS \<and> (\<forall>(q, e)\<in>set args. word_at buf q e)"
| "cmd_ok buf (REDIR c file efile mode fd) \<longleftrightarrow> cmd_ok buf c \<and> word_at buf file efile \<and> redir_ok mode fd"
| "cmd_ok buf (PIPE c d) \<longleftrightarrow> cmd_ok buf c \<and> cmd_ok buf d"
| "cmd_ok buf (LIST c d) \<longleftrightarrow> cmd_ok buf c \<and> cmd_ok buf d"
| "cmd_ok buf (BACK c) \<longleftrightarrow> cmd_ok buf c"

text \<open>The command under the redirections has so many arguments.\<close>

fun argc_is :: "nat \<Rightarrow> cmd \<Rightarrow> bool" where
  "argc_is n (EXEC args) \<longleftrightarrow> length args = n"
| "argc_is n (REDIR c file efile mode fd) \<longleftrightarrow> argc_is n c"
| "argc_is n c \<longleftrightarrow> False"

definition messages :: "string set" where
  "messages = {''missing file for redirection'', ''parseblock'', ''syntax - missing )'', ''syntax'', ''too many args''}"

definition good :: "(cmd \<Rightarrow> bool) \<Rightarrow> u8 list \<Rightarrow> nat \<Rightarrow> (cmd \<times> nat) outcome \<Rightarrow> bool" where
  "good P buf s r \<longleftrightarrow>
     (case r of Done (c, s') \<Rightarrow> cmd_ok buf c \<and> P c \<and> s \<le> s' \<and> s' \<le> length buf | Fail e \<Rightarrow> e \<in> messages | Stuck \<Rightarrow> False)"

lemma good_simps [simp]:
  "good P buf s (Done (c, s')) \<longleftrightarrow> cmd_ok buf c \<and> P c \<and> s \<le> s' \<and> s' \<le> length buf"
  "good P buf s (Fail e) \<longleftrightarrow> e \<in> messages"
  "\<not> good P buf s Stuck"
  by (simp_all add: good_def)

lemma good_andthen:
  assumes "good P buf s m" "\<And>c s'. cmd_ok buf c \<Longrightarrow> P c \<Longrightarrow> s \<le> s' \<Longrightarrow> s' \<le> length buf \<Longrightarrow> good Q buf s (f (c, s'))"
  shows "good Q buf s (andthen m f)"
  using assms by (cases m) (auto simp: andthen_def)

lemma good_mono: "good P buf s' r \<Longrightarrow> s \<le> s' \<Longrightarrow> (\<And>c. P c \<Longrightarrow> Q c) \<Longrightarrow> good Q buf s r"
  by (cases r) (auto simp: good_def)

lemma add_arg_ok:
  "cmd_ok buf c \<Longrightarrow> argc_is n c \<Longrightarrow> n + 1 < MAXARGS \<Longrightarrow> word_at buf q e \<Longrightarrow>
     cmd_ok buf (add_arg c (q, e)) \<and> argc_is (n + 1) (add_arg c (q, e))"
  by (induction c "(q, e)" rule: add_arg.induct) auto

lemma parseredirs_good:
  assumes buf: "0 \<notin> set buf" and P: "\<And>c file efile mode fd. P c \<Longrightarrow> P (REDIR c file efile mode fd)"
  shows "cmd_ok buf c \<Longrightarrow> P c \<Longrightarrow> s \<le> length buf \<Longrightarrow> good P buf s (parseredirs buf c s)"
proof (induction "length buf - s" arbitrary: c s rule: less_induct)
  case less
  obtain b s1 where p: "peek buf s [0x3c, 0x3e, 0] = (b, s1)" by fastforce
  obtain tok q1 e1 s2 r q e s3 where g: "gettoken buf s1 = (tok, q1, e1, s2)" "gettoken buf s2 = (r, q, e, s3)" by (metis prod_cases4)
  show ?case
  proof (cases b)
    case False
    then show ?thesis using p peek_props [OF less.prems(3) p] less.prems by (subst parseredirs.simps) simp
  next
    case True
    have s3: "s < s3 \<and> s3 \<le> length buf" and s2: "s2 \<le> length buf"
      using peek_redir [OF p [unfolded eqTrueI [OF True]] g] peek_token [OF p [unfolded eqTrueI [OF True]] g(1)] by simp_all
    have rec: "good P buf s (parseredirs buf c' s3)" if "cmd_ok buf c'" "P c'" for c'
      using good_mono [OF less.hyps [OF less_progress [OF s3] that]] s3 by simp
    have w: "word_at buf q e" if "r = tok_word" using gettoken_props(3) [OF s2 g(2) that buf] .
    show ?thesis using p g True rec w less.prems P
      by (subst parseredirs.simps) (simp add: messages_def redir_ok_def)
  qed
qed

lemma parsebacks_good:
  "cmd_ok buf c \<Longrightarrow> s \<le> length buf \<Longrightarrow> parsebacks buf c s = (d, s') \<Longrightarrow> cmd_ok buf d \<and> s \<le> s' \<and> s' \<le> length buf"
proof (induction "length buf - s" arbitrary: c s rule: less_induct)
  case less
  obtain b s1 where p: "peek buf s [0x26, 0] = (b, s1)" by fastforce
  show ?case
  proof (cases b)
    case False
    then have "parsebacks buf c s = (c, s1)" using p by (subst parsebacks.simps) simp
    then show ?thesis using less.prems peek_props [OF less.prems(2) p] by simp
  next
    case True
    then have n: "s < next_pos (gettoken buf s1) \<and> next_pos (gettoken buf s1) \<le> length buf" using peek_next p by simp
    have "parsebacks buf c s = parsebacks buf (BACK c) (next_pos (gettoken buf s1))" using True p by (subst parsebacks.simps) simp
    then show ?thesis using less.hyps [OF less_progress [OF n], of "BACK c"] less.prems n by simp
  qed
qed

lemma parseargs_good:
  assumes buf: "0 \<notin> set buf"
  shows "cmd_ok buf c \<Longrightarrow> argc_is argc c \<Longrightarrow> s \<le> length buf \<Longrightarrow> good (\<lambda>_. True) buf s (parseargs buf c argc s)"
proof (induction "MAXARGS - argc" arbitrary: c argc s rule: less_induct)
  case less
  obtain b s1 where p: "peek buf s [0x7c, 0x29, 0x26, 0x3b, 0] = (b, s1)" by fastforce
  obtain tok q e s2 where g: "gettoken buf s1 = (tok, q, e, s2)" by (metis prod_cases4)
  note s1 = peek_props [OF less.prems(3) p]
  note s2 = gettoken_props [OF conjunct1 [OF conjunct2 [OF s1]] g]
  show ?case
  proof (cases "b \<or> tok = 0 \<or> tok \<noteq> tok_word \<or> argc + 1 \<ge> MAXARGS")
    case True
    then show ?thesis using p g s1 s2(1) less.prems by (cases b; subst parseargs.simps) (auto simp: messages_def)
  next
    case False
    have c': "cmd_ok buf (add_arg c (q, e)) \<and> argc_is (argc + 1) (add_arg c (q, e))"
      using add_arg_ok [OF less.prems(1,2)] s2(3) buf False by simp
    have r: "good (argc_is (argc + 1)) buf s2 (parseredirs buf (add_arg c (q, e)) s2)"
      using parseredirs_good [OF buf, of "argc_is (argc + 1)"] c' s2(1) by simp
    have "good (\<lambda>_. True) buf s2 (andthen (parseredirs buf (add_arg c (q, e)) s2) (\<lambda>(c, s). parseargs buf c (argc + 1) s))"
    proof (rule good_andthen [OF r])
      fix d t
      assume "cmd_ok buf d" "argc_is (argc + 1) d" "s2 \<le> t" "t \<le> length buf"
      then show "good (\<lambda>_. True) buf s2 (case (d, t) of (c, s) \<Rightarrow> parseargs buf c (argc + 1) s)"
        unfolding prod.case using False by (intro good_mono [OF less.hyps [of "argc + 1" d t]]) auto
    qed
    then have "good (\<lambda>_. True) buf s (andthen (parseredirs buf (add_arg c (q, e)) s2) (\<lambda>(c, s). parseargs buf c (argc + 1) s))"
      using s1 s2(1) by (elim good_mono) auto
    then show ?thesis using p g False by (subst parseargs.simps) simp
  qed
qed

lemma parse_good:
  assumes buf: "0 \<notin> set buf"
  shows "4 * (length buf - s) + 4 \<le> fuel \<and> s \<le> length buf \<Longrightarrow> good (\<lambda>_. True) buf s (parseline fuel buf s)"
    and "4 * (length buf - s) + 3 \<le> fuel \<and> s \<le> length buf \<Longrightarrow> good (\<lambda>_. True) buf s (parsepipe fuel buf s)"
    and "4 * (length buf - s) + 1 \<le> fuel \<and> s \<le> length buf \<Longrightarrow> good (\<lambda>_. True) buf s (parseblock fuel buf s)"
    and "4 * (length buf - s) + 2 \<le> fuel \<and> s \<le> length buf \<Longrightarrow> good (\<lambda>_. True) buf s (parseexec fuel buf s)"
proof (induction fuel arbitrary: s)
  case (Suc fuel)
  {
    case 1
    show ?case unfolding parseline.simps
    proof (rule good_andthen)
      show "good (\<lambda>_. True) buf s (parsepipe fuel buf s)" using 1 by (intro Suc.IH(2)) simp
      fix c t
      assume c: "cmd_ok buf c" "s \<le> t" "t \<le> length buf"
      obtain d t1 where b: "parsebacks buf c t = (d, t1)" by fastforce
      obtain p t2 where p: "peek buf t1 [0x3b, 0] = (p, t2)" by fastforce
      note b' = parsebacks_good [OF c(1,3) b]
      note p' = peek_props [OF conjunct2 [OF conjunct2 [OF b']] p]
      have "good (\<lambda>_. True) buf s (andthen (parseline fuel buf (next_pos (gettoken buf t2))) (\<lambda>(d', s). Done (LIST d d', s)))" if p
      proof (rule good_andthen)
        note n = peek_next [OF p [unfolded eqTrueI [OF that]]]
        show "good (\<lambda>_. True) buf s (parseline fuel buf (next_pos (gettoken buf t2)))"
          using 1 n c b' by (intro good_mono [OF Suc.IH(1)]) auto
      qed (use b' in auto)
      then show "good (\<lambda>_. True) buf s (case (c, t) of (c, s) \<Rightarrow>
          case parsebacks buf c s of (c, s) \<Rightarrow>
          case peek buf s [0x3b, 0] of (False, s) \<Rightarrow> Done (c, s)
          | (True, s) \<Rightarrow> andthen (parseline fuel buf (next_pos (gettoken buf s))) (\<lambda>(d, s). Done (LIST c d, s)))"
        using b b' p p' c by (cases p) simp_all
    qed
  next
    case 2
    show ?case unfolding parsepipe.simps
    proof (rule good_andthen)
      show "good (\<lambda>_. True) buf s (parseexec fuel buf s)" using 2 by (intro Suc.IH(4)) simp
      fix c t
      assume c: "cmd_ok buf c" "s \<le> t" "t \<le> length buf"
      obtain p t2 where p: "peek buf t [0x7c, 0] = (p, t2)" by fastforce
      note p' = peek_props [OF c(3) p]
      have "good (\<lambda>_. True) buf s (andthen (parsepipe fuel buf (next_pos (gettoken buf t2))) (\<lambda>(d', s). Done (PIPE c d', s)))" if p
      proof (rule good_andthen)
        note n = peek_next [OF p [unfolded eqTrueI [OF that]]]
        show "good (\<lambda>_. True) buf s (parsepipe fuel buf (next_pos (gettoken buf t2)))"
          using 2 n c by (intro good_mono [OF Suc.IH(2)]) auto
      qed (use c in auto)
      then show "good (\<lambda>_. True) buf s (case (c, t) of (c, s) \<Rightarrow>
          case peek buf s [0x7c, 0] of (False, s) \<Rightarrow> Done (c, s)
          | (True, s) \<Rightarrow> andthen (parsepipe fuel buf (next_pos (gettoken buf s))) (\<lambda>(d, s). Done (PIPE c d, s)))"
        using p p' c by (cases p) simp_all
    qed
  next
    case 3
    obtain p t where p: "peek buf s [0x28, 0] = (p, t)" by fastforce
    have "good (\<lambda>_. True) buf s (andthen (parseline fuel buf (next_pos (gettoken buf t))) (\<lambda>(c, s).
          case peek buf s [0x29, 0] of (False, s) \<Rightarrow> Fail ''syntax - missing )''
          | (True, s) \<Rightarrow> parseredirs buf c (next_pos (gettoken buf s))))" if p
    proof (rule good_andthen)
      note n = peek_next [OF p [unfolded eqTrueI [OF that]]]
      show "good (\<lambda>_. True) buf s (parseline fuel buf (next_pos (gettoken buf t)))"
        using 3 n by (intro good_mono [OF Suc.IH(1)]) auto
      fix c u
      assume c: "cmd_ok buf c" "s \<le> u" "u \<le> length buf"
      obtain p' v where p': "peek buf u [0x29, 0] = (p', v)" by fastforce
      have "good (\<lambda>_. True) buf s (parseredirs buf c (next_pos (gettoken buf v)))" if p'
      proof -
        note n = peek_next [OF p' [unfolded eqTrueI [OF that]]]
        show ?thesis by (rule good_mono [OF parseredirs_good [OF buf, of "\<lambda>_. True"]]) (use n c in auto)
      qed
      then show "good (\<lambda>_. True) buf s (case (c, u) of (c, s) \<Rightarrow>
          case peek buf s [0x29, 0] of (False, s) \<Rightarrow> Fail ''syntax - missing )''
          | (True, s) \<Rightarrow> parseredirs buf c (next_pos (gettoken buf s)))"
        using p' by (cases p') (simp_all add: messages_def)
    qed
    then show ?case using p by (cases p) (simp_all add: messages_def)
  next
    case 4
    obtain p t where p: "peek buf s [0x28, 0] = (p, t)" by fastforce
    have t: "s \<le> t" "t \<le> length buf" using peek_props [OF conjunct2 [OF 4] p] by simp_all
    have "good (\<lambda>_. True) buf s (parseblock fuel buf t)"
      using 4 t by (intro good_mono [OF Suc.IH(3)]) auto
    moreover have "good (\<lambda>_. True) buf t (andthen (parseredirs buf (EXEC []) t) (\<lambda>(c, s). parseargs buf c 0 s))"
    proof (rule good_andthen)
      show "good (argc_is 0) buf t (parseredirs buf (EXEC []) t)"
        using parseredirs_good [OF buf, of "argc_is 0"] t by (simp add: MAXARGS_def)
      fix c u
      assume "cmd_ok buf c" "argc_is 0 c" "t \<le> u" "u \<le> length buf"
      then show "good (\<lambda>_. True) buf t (case (c, u) of (c, s) \<Rightarrow> parseargs buf c 0 s)"
        using good_mono [OF parseargs_good [OF buf]] by simp
    qed
    then have "good (\<lambda>_. True) buf s (andthen (parseredirs buf (EXEC []) t) (\<lambda>(c, s). parseargs buf c 0 s))"
      using t by (elim good_mono) auto
    ultimately show ?case using p by (cases p) simp_all
  }
qed simp_all

section \<open>The words handed to exec\<close>

primrec cmd_words :: "cmd \<Rightarrow> (nat \<times> nat) set" where
  "cmd_words (EXEC args) = set args"
| "cmd_words (REDIR c file efile mode fd) = insert (file, efile) (cmd_words c)"
| "cmd_words (PIPE c d) = cmd_words c \<union> cmd_words d"
| "cmd_words (LIST c d) = cmd_words c \<union> cmd_words d"
| "cmd_words (BACK c) = cmd_words c"

lemma cmd_ok_words: "cmd_ok buf c \<Longrightarrow> (q, e) \<in> cmd_words c \<Longrightarrow> word_at buf q e"
  by (induction c) auto

lemma length_nulterminate [simp]: "length (nulterminate c a) = length a"
proof (induction c arbitrary: a)
  case (EXEC args)
  show ?case by (induction args arbitrary: a) (auto split: prod.splits)
qed simp_all

lemma nulterminate_nth:
  "i < length a \<Longrightarrow> nulterminate c a ! i = (if i \<in> snd ` cmd_words c then 0 else a ! i)"
proof (induction c arbitrary: a)
  case (EXEC args)
  then show ?case
  proof (induction args arbitrary: a)
    case (Cons x args)
    obtain q e where x: "x = (q, e)" by fastforce
    show ?case using Cons.IH [of "a[e := 0]"] Cons.prems by (auto simp: x nth_list_update)
  qed simp
next
  case (REDIR c q e mode fd)
  then show ?case by (cases "i = e") simp_all
qed auto

lemma nulterminate_word:
  assumes "cmd_ok buf c" "(q, e) \<in> cmd_words c"
  shows "str_at (drop q (nulterminate c (buf @ [0]))) = Some (take (e - q) (drop q buf))"
proof -
  let ?a = "nulterminate c (buf @ [0])" and ?x = "take (e - q) (drop q buf)"
  have w: "q < e" "e \<le> length buf" "\<And>i. q \<le> i \<Longrightarrow> i < e \<Longrightarrow> plain (buf ! i)"
    using cmd_ok_words [OF assms] by (simp_all add: word_at_def)
  have out: "i \<notin> snd ` cmd_words c" if i: "q \<le> i" "i < e" for i
  proof
    assume "i \<in> snd ` cmd_words c"
    then obtain q' where "word_at buf q' i" using cmd_ok_words [OF assms(1)] by force
    then show False using w(2) w(3) [OF i] i by (simp add: word_at_def)
  qed
  have "drop q ?a = ?x @ 0 # drop (e + 1) ?a"
  proof (rule nth_equalityI)
    show "length (drop q ?a) = length (?x @ 0 # drop (e + 1) ?a)" using w by simp
    fix i
    assume "i < length (drop q ?a)"
    then have i: "q + i < length (buf @ [0])" by simp
    consider "q + i < e" | "q + i = e" | "e < q + i" by linarith
    then show "drop q ?a ! i = (?x @ 0 # drop (e + 1) ?a) ! i"
    proof cases
      case 1
      then have "i < e - q" by simp
      then show ?thesis using nulterminate_nth [OF i, of c] out [of "q + i"] w 1 by (simp add: nth_append)
    next
      case 2
      then have "q + i \<in> snd ` cmd_words c" using assms(2) by force
      moreover have "i = e - q" using 2 by simp
      ultimately show ?thesis using nulterminate_nth [OF i, of c] w by (simp add: nth_append)
    next
      case 3
      then have "i - (e - q) = Suc (q + i - (e + 1))" "\<not> i < e - q" using w(1) by arith+
      then show ?thesis using w 3 i by (simp add: nth_append)
    qed
  qed
  moreover have "0 \<notin> set ?x"
    using w by (auto simp: in_set_conv_nth plain_def)
  ultimately show ?thesis by (simp add: str_at_Some)
qed

text \<open>C13: The shell parses every line to the end: with fuel linear in the length of the line it either stops with one of its five
  error messages or returns a well-formed command. Every command has fewer than MAXARGS arguments (so its
  terminating null pointer fits), every redirection has a mode that belongs to its descriptor, and every argument
  and file name is a word of the line; after \<^verbatim>\<open>nulterminate\<close> each of them is a C string of exactly the
  characters of that word, although all of them share the line.\<close>

theorem parsecmd_spec:
  assumes "0 \<notin> set buf"
  shows "case parsecmd buf of Stuck \<Rightarrow> False | Fail e \<Rightarrow> e \<in> messages
    | Done (c, a) \<Rightarrow> cmd_ok buf c \<and> length a = length buf + 1 \<and>
        (\<forall>(q, e)\<in>cmd_words c. word_at buf q e \<and> str_at (drop q a) = Some (take (e - q) (drop q buf)))"
proof -
  have g: "good (\<lambda>_. True) buf 0 (parseline (4 * length buf + 4) buf 0)"
    by (rule parse_good(1) [OF assms]) simp
  show ?thesis
  proof (cases "parseline (4 * length buf + 4) buf 0")
    case (Done r)
    then obtain c s where r: "parseline (4 * length buf + 4) buf 0 = Done (c, s)" by (cases r) simp
    then have "cmd_ok buf c" using g by simp
    then show ?thesis using r nulterminate_word cmd_ok_words
      by (auto simp: parsecmd_def andthen_def messages_def split: prod.splits)
  qed (use g in \<open>auto simp: parsecmd_def andthen_def\<close>)
qed

text \<open>The line is \<^verbatim>\<open>ls >f | wc &\<close>.\<close>

theorem parsecmd_spec_witness:
  "\<exists>a. parsecmd [0x6c, 0x73, 0x20, 0x3e, 0x66, 0x20, 0x7c, 0x20, 0x77, 0x63, 0x20, 0x26] =
      Done (BACK (PIPE (REDIR (EXEC [(0, 2)]) 4 5 (O_WRONLY OR O_CREATE OR O_TRUNC) 1) (EXEC [(8, 10)])), a) \<and>
    str_at a = Some [0x6c, 0x73] \<and> str_at (drop 4 a) = Some [0x66] \<and> str_at (drop 8 a) = Some [0x77, 0x63]"
proof -
  let ?l = "[0x6c, 0x73, 0x20, 0x3e, 0x66, 0x20, 0x7c, 0x20, 0x77, 0x63, 0x20, 0x26] :: u8 list"
  have "parsecmd ?l =
      Done (BACK (PIPE (REDIR (EXEC [(0, 2)]) 4 5 (O_WRONLY OR O_CREATE OR O_TRUNC) 1) (EXEC [(8, 10)])),
        [0x6c, 0x73, 0, 0x3e, 0x66, 0, 0x7c, 0x20, 0x77, 0x63, 0, 0x26, 0])"
    by code_simp
  then show ?thesis using parsecmd_spec [of ?l] by simp
qed

end
