(* ===== verification/Spec2Isabelle.thy ===== *)
theory Spec2Isabelle
  imports Trap Fsdata Names Calendar Disk Tools Shell
begin

text \<open>
  Verification of the xv6 kernel. \<open>Prelude\<close> holds the outcome type, \<open>CString\<close> the byte strings,
  \<open>Locks\<close> the spin locks, \<open>Printf\<close> formatted output, \<open>Kalloc\<close> and \<open>Vm\<close> the memory, \<open>Proc\<close> the
  process table, \<open>Sleeplock\<close> and \<open>Bio\<close> the sleep locks and the buffer cache.
\<close>

end
